(* ===== verification/KV_Prelude.thy ===== *)
theory KV_Prelude
  imports Main "HOL-Library.Word" "HOL-Library.AList" "HOL-Library.Multiset"
begin

text \<open>
  Shared vocabulary of the development: the machine integers of the C++ code, the contract of
  \<^verbatim>\<open>std::unordered_map\<close> (a locale, interpreted on association lists with distinct keys), the
  accounting of items held by a list of threads, the induction principle for invariants of step
  systems, and the systems among them that drain.
  Every component theory imports this one.
\<close>

section \<open>Machine integers\<close>

text \<open>
  \<^verbatim>\<open>size_t\<close> and \<^verbatim>\<open>uint64_t\<close> are 64-bit words, \<^verbatim>\<open>uint32_t\<close> is a 32-bit word: their arithmetic
  wraps around.  \<^verbatim>\<open>int64_t\<close> is \<open>int\<close> with its range written out as \<open>in_int64\<close>, because signed
  overflow is undefined in C++ and must be shown not to happen rather than computed.
\<close>

type_synonym size_t = "64 word"
type_synonym uint64_t = "64 word"
type_synonym uint32_t = "32 word"
type_synonym int64_t = int

definition in_int64 :: "int \<Rightarrow> bool" where
  "in_int64 i \<longleftrightarrow> - (2 ^ 63) \<le> i \<and> i < 2 ^ 63"

lemma unat_plus_no_wrap:
  "unat (a :: 'a::len word) + unat b < 2 ^ LENGTH('a) \<Longrightarrow> unat (a + b) = unat a + unat b"
  by (simp add: unat_word_ariths)

lemma unat_less_64: "unat (w :: 64 word) < 2 ^ 64"
proof -
  have "unat w < 2 ^ LENGTH(64)" by (rule unsigned_less)
  then show ?thesis by simp
qed

lemma unat_Suc_64: "unat (x :: 64 word) + 1 < 2 ^ 64 \<Longrightarrow> unat (x + 1) = unat x + 1"
  using unat_plus_no_wrap [of x 1] by simp

lemma unat_pred_64: "x \<noteq> 0 \<Longrightarrow> unat (x - 1 :: 64 word) = unat x - 1"
  using measure_unat [of x] unat_less_64 [of x] unat_Suc_64 [of "x - 1"] by simp

lemma unat_word_of_nat_64: "n < 2 ^ 64 \<Longrightarrow> unat (word_of_nat n :: 64 word) = n"
  by (simp add: unat_of_nat)

text \<open>Operations that return a flag with the new state: the pair, from its flag.\<close>

lemma pair_of_fst: "fst p \<Longrightarrow> p = (True, snd p)"
  by (cases p) simp

lemma pair_of_not_fst: "\<not> fst p \<Longrightarrow> p = (False, snd p)"
  by (cases p) simp

section \<open>The contract of an unordered map\<close>

text \<open>
  What the program relies on of \<^verbatim>\<open>std::unordered_map\<close> and \<^verbatim>\<open>std::map\<close>: \<^verbatim>\<open>find\<close>,
  \<^verbatim>\<open>insert_or_assign\<close>, \<^verbatim>\<open>erase\<close> and \<^verbatim>\<open>size\<close>.  The order of the entries is not part of the contract.
\<close>

locale unordered_map =
  fixes find :: "'m \<Rightarrow> 'k \<Rightarrow> 'v option"
    and insert_or_assign :: "'k \<Rightarrow> 'v \<Rightarrow> 'm \<Rightarrow> 'm"
    and erase :: "'k \<Rightarrow> 'm \<Rightarrow> 'm"
    and size :: "'m \<Rightarrow> nat"
    and invar :: "'m \<Rightarrow> bool"
  assumes find_insert_or_assign: "find (insert_or_assign k v m) = (find m)(k \<mapsto> v)"
    and find_erase: "find (erase k m) = (find m)(k := None)"
    and finite_find: "finite (dom (find m))"
    and size_card: "invar m \<Longrightarrow> size m = card (dom (find m))"
    and invar_insert_or_assign: "invar m \<Longrightarrow> invar (insert_or_assign k v m)"
    and invar_erase: "invar m \<Longrightarrow> invar (erase k m)"
begin

lemma size_insert_or_assign:
  assumes "invar m"
  shows "size (insert_or_assign k v m) = (if find m k = None then Suc (size m) else size m)"
proof -
  have "size (insert_or_assign k v m) = card (insert k (dom (find m)))"
    using assms by (simp add: size_card invar_insert_or_assign find_insert_or_assign)
  also have "\<dots> = (if find m k = None then Suc (card (dom (find m))) else card (dom (find m)))"
    using finite_find [of m] by (auto simp: card_insert_if)
  finally show ?thesis using assms by (simp add: size_card)
qed

lemma size_erase:
  assumes "invar m"
  shows "size (erase k m) = (if find m k = None then size m else size m - 1)"
proof -
  have "size (erase k m) = card (dom (find m) - {k})"
    using assms by (simp add: size_card invar_erase find_erase)
  also have "\<dots> = (if find m k = None then card (dom (find m)) else card (dom (find m)) - 1)"
    using finite_find [of m] by (auto simp: card_Diff_singleton_if)
  finally show ?thesis using assms by (simp add: size_card)
qed

lemma size_pos: "invar m \<Longrightarrow> find m k = Some v \<Longrightarrow> 0 < size m"
  using finite_find [of m] by (auto simp: size_card card_gt_0_iff)

end

text \<open>
  The provider: association lists without a repeated key.  \<open>map_of\<close> is \<^verbatim>\<open>find\<close>,
  \<open>AList.update\<close> is \<^verbatim>\<open>insert_or_assign\<close>, \<open>AList.delete\<close> is \<^verbatim>\<open>erase\<close>.
\<close>

abbreviation distinct_keys :: "('k \<times> 'v) list \<Rightarrow> bool" where
  "distinct_keys m \<equiv> distinct (map fst m)"

lemma length_card_dom: "distinct_keys m \<Longrightarrow> length m = card (dom (map_of m))"
  by (simp add: dom_map_of_conv_image_fst distinct_card flip: set_map)

interpretation amap: unordered_map map_of AList.update AList.delete length distinct_keys
proof unfold_locales
  fix k :: 'a and v :: 'b and m :: "('a \<times> 'b) list"
  show "map_of (AList.update k v m) = (map_of m)(k \<mapsto> v)" by (rule update_conv')
  show "map_of (AList.delete k m) = (map_of m)(k := None)" by (rule delete_conv')
  show "finite (dom (map_of m))" by (rule finite_dom_map_of)
  show "distinct_keys m \<Longrightarrow> length m = card (dom (map_of m))" by (rule length_card_dom)
  show "distinct_keys m \<Longrightarrow> distinct_keys (AList.update k v m)" by (rule distinct_update)
  show "distinct_keys m \<Longrightarrow> distinct_keys (AList.delete k m)" by (rule distinct_delete)
qed

lemmas amap_simps [simp] = amap.find_insert_or_assign amap.find_erase

lemma length_delete_less: "k \<in> fst ` set m \<Longrightarrow> length (AList.delete k m) < length m"
  by (auto simp: AList.delete_eq intro!: length_filter_less)

section \<open>Items held by threads\<close>

text \<open>
  The threads of a pool are a list of local states; \<open>held_items f ts\<close> collects what they hold.  Replacing
  the state of one thread exchanges what that thread holds.
\<close>

definition held_items :: "('t \<Rightarrow> 'a list) \<Rightarrow> 't list \<Rightarrow> 'a multiset" where
  "held_items f ts = mset (concat (map f ts))"

lemma held_update:
  assumes "i < length ts"
  shows "held_items f (ts[i := x]) + mset (f (ts ! i)) = held_items f ts + mset (f x)"
proof -
  have "held_items f ts = mset (concat (map f (take i ts))) + mset (f (ts ! i)) + mset (concat (map f (drop (Suc i) ts)))"
    unfolding held_items_def by (subst id_take_nth_drop [OF assms]) simp
  then show ?thesis using assms by (simp add: held_items_def upd_conv_take_nth_drop ac_simps)
qed

lemma held_update_exchange:
  assumes "i < length ts" and "mset (f x) + c = mset (f (ts ! i)) + d"
  shows "held_items f (ts[i := x]) + c = held_items f ts + d"
proof -
  have "held_items f (ts[i := x]) + c + mset (f (ts ! i)) = held_items f ts + (mset (f x) + c)"
    using held_update [OF assms(1), of f x] by (simp add: ac_simps)
  also have "\<dots> = held_items f ts + d + mset (f (ts ! i))" using assms(2) by (simp add: ac_simps)
  finally show ?thesis by simp
qed

lemma held_nil: "\<forall>t \<in> set ts. f t = [] \<Longrightarrow> held_items f ts = {#}"
  by (induction ts) (auto simp: held_items_def)

section \<open>Invariants of step systems\<close>

text \<open>
  A component with concurrent callers is a step relation.  The locale is the contract of an
  inductive invariant; its lemmas carry the invariant to every state of every run.
\<close>

locale step_invariant =
  fixes init :: "'s \<Rightarrow> bool"
    and step :: "'s \<Rightarrow> 's \<Rightarrow> bool"
    and inv :: "'s \<Rightarrow> bool"
  assumes init_inv: "init s \<Longrightarrow> inv s"
    and step_inv: "inv s \<Longrightarrow> step s t \<Longrightarrow> inv t"
begin

lemma run_inv: "step\<^sup>*\<^sup>* s t \<Longrightarrow> inv s \<Longrightarrow> inv t"
  by (induction rule: rtranclp_induct) (auto intro: step_inv)

lemma reachable_inv: "init s \<Longrightarrow> step\<^sup>*\<^sup>* s t \<Longrightarrow> inv t"
  by (blast intro: run_inv init_inv)

end

text \<open>
  A system that drains: from every state of the invariant that is not at its end some step leaves
  less to do.  Then the end can be reached from everywhere.
\<close>

locale draining_system = step_invariant init step inv
  for init :: "'s \<Rightarrow> bool" and step :: "'s \<Rightarrow> 's \<Rightarrow> bool" and inv :: "'s \<Rightarrow> bool" +
  fixes rank :: "'s \<Rightarrow> nat"
    and at_end :: "'s \<Rightarrow> bool"
  assumes progress: "inv s \<Longrightarrow> \<not> at_end s \<Longrightarrow> \<exists>t. step s t \<and> rank t < rank s"
begin

lemma drains: "inv s \<Longrightarrow> \<exists>t. step\<^sup>*\<^sup>* s t \<and> at_end t"
proof (induction s rule: measure_induct_rule [of rank])
  case (less s)
  show ?case
  proof (cases "at_end s")
    case False
    with progress less.prems obtain t where t: "step s t" "rank t < rank s" by blast
    from less.IH [OF t(2) step_inv [OF less.prems t(1)]] t(1) show ?thesis
      by (metis converse_rtranclp_into_rtranclp)
  qed auto
qed

end

end
