(* ===== verification/KV_Hasher.thy ===== *)
theory KV_Hasher
  imports KV_Prelude
begin

text \<open>
  The hash function of hasher.cpp, MurmurHash3 for 32 bits, on keys shorter than 2^31 bytes (the
  code keeps the length in an \<^verbatim>\<open>int\<close>).  Blocks are read with \<^verbatim>\<open>memcpy\<close> on the little-endian targets
  of the build.  The theorems relate the loop over array indices to a definition on the stream of
  bytes, and show that the mixing steps lose no information.
\<close>

unbundle bit_operations_syntax

section \<open>murmur_hash3\<close>

definition byte_at :: "string \<Rightarrow> nat \<Rightarrow> uint32_t" where
  "byte_at key j = word_of_nat (of_char (key ! j))"

definition le32 :: "uint32_t \<Rightarrow> uint32_t \<Rightarrow> uint32_t \<Rightarrow> uint32_t \<Rightarrow> uint32_t" where
  "le32 a b c d = a OR push_bit 8 b OR push_bit 16 c OR push_bit 24 d"

definition load_block :: "string \<Rightarrow> nat \<Rightarrow> uint32_t" where
  "load_block key i =
     le32 (byte_at key (4 * i)) (byte_at key (4 * i + 1)) (byte_at key (4 * i + 2))
       (byte_at key (4 * i + 3))"

definition mix_k1 :: "uint32_t \<Rightarrow> uint32_t" where
  "mix_k1 k0 =
     (let k1 = k0 * 0xcc9e2d51;
          k2 = push_bit 15 k1 OR drop_bit 17 k1
      in k2 * 0x1b873593)"

definition block_step :: "uint32_t \<Rightarrow> uint32_t \<Rightarrow> uint32_t" where
  "block_step h1 k1 =
     (let h2 = h1 XOR mix_k1 k1;
          h3 = push_bit 13 h2 OR drop_bit 19 h2
      in h3 * 5 + 0xe6546b64)"

text \<open>The \<^verbatim>\<open>switch (len & 3)\<close> with its fall-through cases, on the bytes from \<open>tail\<close> on.\<close>

definition tail_step :: "string \<Rightarrow> nat \<Rightarrow> nat \<Rightarrow> uint32_t \<Rightarrow> uint32_t" where
  "tail_step key tail rest h1 =
     (let k3 = (if rest = 3 then push_bit 16 (byte_at key (tail + 2)) else 0);
          k2 = (if rest \<ge> 2 then k3 XOR push_bit 8 (byte_at key (tail + 1)) else k3);
          k1 = k2 XOR byte_at key tail
      in if rest = 0 then h1 else h1 XOR mix_k1 k1)"

definition fmix :: "uint32_t \<Rightarrow> uint32_t" where
  "fmix h1 =
     (let h2 = h1 XOR drop_bit 16 h1;
          h3 = h2 * 0x85ebca6b;
          h4 = h3 XOR drop_bit 13 h3;
          h5 = h4 * 0xc2b2ae35
      in h5 XOR drop_bit 16 h5)"

definition murmur_hash3 :: "string \<Rightarrow> uint32_t \<Rightarrow> uint32_t" where
  "murmur_hash3 key seed =
     (let len = length key; nblocks = len div 4;
          h1 = fold (\<lambda>i h. block_step h (load_block key i)) [0..<nblocks] seed;
          h2 = tail_step key (nblocks * 4) (len mod 4) h1
      in fmix (h2 XOR word_of_nat len))"

section \<open>The same hash on a stream of bytes\<close>

definition byte_of :: "char \<Rightarrow> uint32_t" where
  "byte_of c = word_of_nat (of_char c)"

fun murmur_stream :: "uint32_t \<Rightarrow> string \<Rightarrow> uint32_t" where
  "murmur_stream h (a # b # c # d # r) =
     murmur_stream (block_step h (le32 (byte_of a) (byte_of b) (byte_of c) (byte_of d))) r"
| "murmur_stream h [] = h"
| "murmur_stream h [a] = h XOR mix_k1 (byte_of a)"
| "murmur_stream h [a, b] = h XOR mix_k1 (push_bit 8 (byte_of b) XOR byte_of a)"
| "murmur_stream h [a, b, c] =
     h XOR mix_k1 (push_bit 16 (byte_of c) XOR push_bit 8 (byte_of b) XOR byte_of a)"

definition murmur_ref :: "string \<Rightarrow> uint32_t \<Rightarrow> uint32_t" where
  "murmur_ref key seed = fmix (murmur_stream seed key XOR word_of_nat (length key))"

lemma byte_at_Cons [simp]:
  "byte_at (a # r) 0 = byte_of a" "byte_at (a # r) (Suc j) = byte_at r j"
  "byte_at (a # r) (numeral n) = byte_at r (pred_numeral n)"
  by (simp_all add: byte_at_def byte_of_def)

lemma load_block_shift: "load_block (a # b # c # d # r) (Suc i) = load_block r i"
  by (simp add: load_block_def numeral_eq_Suc)

lemma load_block_0:
  "load_block (a # b # c # d # r) 0 = le32 (byte_of a) (byte_of b) (byte_of c) (byte_of d)"
  by (simp add: load_block_def)

lemma tail_step_shift: "tail_step (a # b # c # d # r) (4 + t) n h = tail_step r t n h"
  by (simp add: tail_step_def numeral_eq_Suc)

lemma fold_blocks_shift:
  "fold (\<lambda>i h. block_step h (load_block (a # b # c # d # r) i)) [0..<Suc n] h =
   fold (\<lambda>i h. block_step h (load_block r i)) [0..<n]
     (block_step h (le32 (byte_of a) (byte_of b) (byte_of c) (byte_of d)))"
proof -
  have "[0..<Suc n] = 0 # map Suc [0..<n]" by (metis map_Suc_upt upt_conv_Cons zero_less_Suc)
  then show ?thesis by (simp add: fold_map load_block_shift load_block_0 comp_def del: upt_Suc)
qed

lemma murmur_loop_stream:
  "tail_step key (length key div 4 * 4) (length key mod 4)
     (fold (\<lambda>i h. block_step h (load_block key i)) [0..<length key div 4] h) = murmur_stream h key"
proof (induction h key rule: murmur_stream.induct)
  case (1 h a b c d r)
  have len: "length (a # b # c # d # r) = length r + 4" by simp
  have "length (a # b # c # d # r) div 4 = Suc (length r div 4)"
    and "length (a # b # c # d # r) mod 4 = length r mod 4" unfolding len by simp_all
  with 1 tail_step_shift [of a b c d r "length r div 4 * 4"] show ?case
    by (simp add: fold_blocks_shift del: upt_Suc)
qed (simp_all add: tail_step_def xor.assoc)

lemma murmur_hash3_eq_ref: "murmur_hash3 key seed = murmur_ref key seed"
  using murmur_loop_stream [of key seed] by (simp add: murmur_hash3_def murmur_ref_def Let_def)

lemma murmur_test_vectors:
  "murmur_hash3 [] 0 = 0" "murmur_hash3 ''test'' 0 = 0xba6bd213"
  "murmur_hash3 ''Hello, world!'' 0x9747b28c = 0x24884CBA"
  by (simp_all add: murmur_hash3_eq_ref murmur_ref_def byte_of_def le32_def block_step_def mix_k1_def fmix_def
      Let_def)

section \<open>The mixing steps are injective\<close>

lemma mult_cancel_inverse:
  assumes "c * c' = (1 :: uint32_t)" and "x * c = y * c"
  shows "x = y"
proof -
  have "x * (c * c') = y * (c * c')" using assms(2) by (simp only: mult.assoc [symmetric])
  then show ?thesis by (simp add: assms(1))
qed

lemma mult_consts_inj:
  "x * 0xcc9e2d51 = y * 0xcc9e2d51 \<longleftrightarrow> x = (y :: uint32_t)"
  "x * 0x1b873593 = y * 0x1b873593 \<longleftrightarrow> x = (y :: uint32_t)"
  "x * 5 = y * 5 \<longleftrightarrow> x = (y :: uint32_t)"
  "x * 0x85ebca6b = y * 0x85ebca6b \<longleftrightarrow> x = (y :: uint32_t)"
  "x * 0xc2b2ae35 = y * 0xc2b2ae35 \<longleftrightarrow> x = (y :: uint32_t)"
proof -
  have "(0xcc9e2d51 :: uint32_t) * 0xdee13bb1 = 1" "(0x1b873593 :: uint32_t) * 0x56ed309b = 1"
    "(5 :: uint32_t) * 0xcccccccd = 1" "(0x85ebca6b :: uint32_t) * 0xa5cb9243 = 1"
    "(0xc2b2ae35 :: uint32_t) * 0x7ed1b41d = 1" by simp_all
  then show "x * 0xcc9e2d51 = y * 0xcc9e2d51 \<longleftrightarrow> x = (y :: uint32_t)"
    "x * 0x1b873593 = y * 0x1b873593 \<longleftrightarrow> x = (y :: uint32_t)"
    "x * 5 = y * 5 \<longleftrightarrow> x = (y :: uint32_t)"
    "x * 0x85ebca6b = y * 0x85ebca6b \<longleftrightarrow> x = (y :: uint32_t)"
    "x * 0xc2b2ae35 = y * 0xc2b2ae35 \<longleftrightarrow> x = (y :: uint32_t)"
    by (blast intro: mult_cancel_inverse)+
qed

lemma rotate_inj:
  fixes x y :: uint32_t
  assumes "n + m = 32" and "push_bit n x OR drop_bit m x = push_bit n y OR drop_bit m y"
  shows "x = y"
proof (rule bit_word_eqI)
  fix i assume i: "i < LENGTH(32)"
  have rot: "bit (push_bit n z OR drop_bit m z) j =
      (if j < n then bit z (j + m) else bit z (j - n))" if "j < 32" for z :: uint32_t and j
    using that assms(1) by (auto simp: bit_simps add.commute dest: bit_imp_le_length)
  show "bit x i = bit y i"
  proof (cases "i < m")
    case True
    then have "i + n < 32" using assms(1) by simp
    with rot [of "i + n" x] rot [of "i + n" y] assms(2) show ?thesis by simp
  next
    case False
    then have "i - m < 32" "i - m < n" using i assms(1) by simp_all
    with rot [of "i - m" x] rot [of "i - m" y] assms(2) False show ?thesis by simp
  qed
qed

lemma xorshift_inj:
  fixes x y :: uint32_t
  assumes "0 < n" and "x XOR drop_bit n x = y XOR drop_bit n y"
  shows "x = y"
proof (rule bit_word_eqI)
  fix i
  have eq: "bit x j = bit y j" if "bit x (n + j) = bit y (n + j)" for j
    using arg_cong [OF assms(2), of "\<lambda>w. bit w j"] that by (auto simp: bit_simps add.commute)
  show "bit x i = bit y i"
  proof (induction "32 - i" arbitrary: i rule: less_induct)
    case less
    show ?case
    proof (cases "i < 32")
      case True
      then have "32 - (n + i) < 32 - i" using assms(1) by simp
      from less [OF this] show ?thesis by (rule eq)
    next
      case False
      then show ?thesis by (auto dest: bit_imp_le_length)
    qed
  qed
qed

lemma xor_left_cancel: "x XOR a = x XOR b \<longleftrightarrow> a = (b :: uint32_t)"
proof
  assume "x XOR a = x XOR b"
  then have "x XOR (x XOR a) = x XOR (x XOR b)" by simp
  then show "a = b" by (simp only: xor.assoc [symmetric] xor_self_eq xor.left_neutral)
qed simp

lemma xor_right_cancel: "a XOR x = b XOR x \<longleftrightarrow> a = (b :: uint32_t)"
  by (simp add: xor.commute [of _ x] xor_left_cancel)

lemma rotate_iff:
  "n + m = 32 \<Longrightarrow> push_bit n x OR drop_bit m x = push_bit n y OR drop_bit m y \<longleftrightarrow> x = (y :: uint32_t)"
  using rotate_inj by blast

lemma xorshift_iff: "0 < n \<Longrightarrow> x XOR drop_bit n x = y XOR drop_bit n y \<longleftrightarrow> x = (y :: uint32_t)"
  using xorshift_inj by blast

lemma mix_k1_inj [simp]: "mix_k1 x = mix_k1 y \<longleftrightarrow> x = y"
  unfolding mix_k1_def Let_def mult_consts_inj by (subst rotate_iff) (simp, rule mult_consts_inj)

lemma block_step_eq:
  "block_step h k = block_step h' k' \<longleftrightarrow> h XOR mix_k1 k = h' XOR mix_k1 k'"
  unfolding block_step_def Let_def add_right_cancel mult_consts_inj by (rule rotate_iff) simp

lemma fmix_inj [simp]: "fmix x = fmix y \<longleftrightarrow> x = y"
  unfolding fmix_def Let_def by (simp only: xorshift_iff mult_consts_inj zero_less_numeral)

lemma murmur_stream_inj_state: "murmur_stream h r = murmur_stream h' r \<longleftrightarrow> h = h'"
  by (induction h r arbitrary: h' rule: murmur_stream.induct)
    (simp_all add: block_step_eq xor_right_cancel)

lemma murmur_stream_append:
  "length p mod 4 = 0 \<Longrightarrow> murmur_stream h (p @ s) = murmur_stream (murmur_stream h p) s"
  by (induction h p rule: murmur_stream.induct) simp_all

lemma of_char_less_256: "(of_char c :: nat) < 256"
  by (metis of_char_mod_256 mod_less_divisor zero_less_numeral)

lemma unat_byte_of: "unat (byte_of c) = of_char c"
proof -
  have "(of_char c :: nat) < 256" by (rule of_char_less_256)
  also have "(256 :: nat) \<le> 2 ^ LENGTH(32)" by simp
  finally have "(of_char c :: nat) < 2 ^ LENGTH(32)" .
  then show ?thesis by (simp add: byte_of_def unat_of_nat)
qed

lemma byte_of_inj: "byte_of a = byte_of b \<longleftrightarrow> a = b"
  by (metis of_char_eq_iff unat_byte_of)

lemma bit_byte_of: "bit (byte_of c) n \<Longrightarrow> n < 8"
proof -
  have "take_bit 8 (of_char c :: nat) = of_char c"
    using of_char_less_256 [of c] by (simp add: take_bit_nat_eq_self)
  then have "bit (of_char c :: nat) n \<Longrightarrow> n < 8" by (metis bit_take_bit_iff)
  then show "bit (byte_of c) n \<Longrightarrow> n < 8" by (simp add: byte_of_def bit_of_nat_iff)
qed

lemma le32_byte:
  "take_bit 8 (le32 (byte_of a) (byte_of b) (byte_of c) (byte_of d)) = byte_of a"
  "take_bit 8 (drop_bit 8 (le32 (byte_of a) (byte_of b) (byte_of c) (byte_of d))) = byte_of b"
  "take_bit 8 (drop_bit 16 (le32 (byte_of a) (byte_of b) (byte_of c) (byte_of d))) = byte_of c"
  "take_bit 8 (drop_bit 24 (le32 (byte_of a) (byte_of b) (byte_of c) (byte_of d))) = byte_of d"
  by (rule bit_word_eqI, auto simp: le32_def bit_simps dest: bit_byte_of)+

lemma le32_inj:
  assumes "le32 (byte_of a) (byte_of b) (byte_of c) (byte_of d)
    = le32 (byte_of a') (byte_of b') (byte_of c') (byte_of d')"
  shows "a = a' \<and> b = b' \<and> c = c' \<and> d = d'"
  using le32_byte [of a b c d] le32_byte [of a' b' c' d'] unfolding assms byte_of_inj [symmetric]
  by simp

section \<open>Properties\<close>


text \<open>
  No information is lost in a block: two keys of the same length that differ in a single aligned
  4-byte block, and agree everywhere else, have different hashes under every seed.
\<close>

theorem murmur_hash3_block_injective:
  assumes "length p mod 4 = 0" and "length b = 4" and "length b' = 4" and "b \<noteq> b'"
  shows "murmur_hash3 (p @ b @ s) seed \<noteq> murmur_hash3 (p @ b' @ s) seed"
proof
  assume "murmur_hash3 (p @ b @ s) seed = murmur_hash3 (p @ b' @ s) seed"
  then have "murmur_stream seed (p @ b @ s) = murmur_stream seed (p @ b' @ s)"
    by (simp add: murmur_hash3_eq_ref murmur_ref_def xor_right_cancel assms(2,3))
  then have eq: "murmur_stream (murmur_stream seed p) (b @ s) = murmur_stream (murmur_stream seed p) (b' @ s)"
    by (simp add: murmur_stream_append assms(1))
  obtain x y z w where b: "b = [x, y, z, w]" using assms(2) by (auto simp: numeral_eq_Suc length_Suc_conv)
  obtain x' y' z' w' where b': "b' = [x', y', z', w']"
    using assms(3) by (auto simp: numeral_eq_Suc length_Suc_conv)
  from eq have "le32 (byte_of x) (byte_of y) (byte_of z) (byte_of w)
      = le32 (byte_of x') (byte_of y') (byte_of z') (byte_of w')"
    by (simp add: b b' murmur_stream_inj_state block_step_eq xor_left_cancel)
  from le32_inj [OF this] assms(4) show False by (simp add: b b')
qed

theorem murmur_hash3_block_injective_witness:
  "murmur_hash3 (''user'' @ ''0001'' @ '':a'') 0 \<noteq> murmur_hash3 (''user'' @ ''0002'' @ '':a'') 0"
  by (rule murmur_hash3_block_injective) simp_all

end
