(* ===== verification/KV_Memory.thy ===== *)
theory KV_Memory
  imports KV_Prelude
begin

text \<open>
  pmr_allocator.h and pmr_allocator.cpp: the tracking memory resource that counts the bytes a shard
  has taken from its pool and refuses requests beyond the capacity, and the arena that owns it.
  The upstream resource (the standard library's pool over a monotonic buffer) is a parameter: a
  record of its two virtual functions on an arbitrary state.  The theorems show the accounting:
  in every run \<^verbatim>\<open>bytes_used_\<close> is the sum of the live blocks and stays within the capacity, and a
  group of allocations that fails gives back what it took.
\<close>

section \<open>The upstream resource\<close>

text \<open>
  \<^verbatim>\<open>allocate\<close> returns a pointer, or nothing for \<^verbatim>\<open>bad_alloc\<close>; either way the resource may change its
  own state.  Pointers are numbers.
\<close>

type_synonym ptr = nat

record 'u memory_resource =
  allocate :: "'u \<Rightarrow> size_t \<Rightarrow> size_t \<Rightarrow> ptr option \<times> 'u"
  deallocate :: "'u \<Rightarrow> ptr \<Rightarrow> size_t \<Rightarrow> size_t \<Rightarrow> 'u"

section \<open>TrackingMemoryResource\<close>

datatype oom_exception = OomException string

record 'u tracking_resource =
  upstream :: 'u
  bytes_used :: size_t
  capacity :: size_t

definition mk_tracking_resource :: "'u \<Rightarrow> size_t \<Rightarrow> 'u tracking_resource" where
  "mk_tracking_resource u cap = \<lparr>upstream = u, bytes_used = 0, capacity = cap\<rparr>"

definition oom_what :: string where
  "oom_what = ''(error) OOM command not allowed when used memory > '' @ [CHR 0x27]
     @ ''maxmemory'' @ [CHR 0x27]"

definition is_hard_limit_reached :: "'u tracking_resource \<Rightarrow> bool" where
  "is_hard_limit_reached t \<longleftrightarrow> bytes_used t \<ge> capacity t"

definition do_allocate ::
  "'u memory_resource \<Rightarrow> 'u tracking_resource \<Rightarrow> size_t \<Rightarrow> size_t
     \<Rightarrow> (oom_exception + ptr) \<times> 'u tracking_resource" where
  "do_allocate mr t bytes alignment =
     (if bytes_used t + bytes > capacity t then (Inl (OomException oom_what), t)
      else case allocate mr (upstream t) bytes alignment of
             (Some p, u) \<Rightarrow> (Inr p, t\<lparr>upstream := u, bytes_used := bytes_used t + bytes\<rparr>)
           | (None, u) \<Rightarrow> (Inl (OomException oom_what), t\<lparr>upstream := u\<rparr>))"

definition do_deallocate ::
  "'u memory_resource \<Rightarrow> 'u tracking_resource \<Rightarrow> ptr \<Rightarrow> size_t \<Rightarrow> size_t \<Rightarrow> 'u tracking_resource" where
  "do_deallocate mr t p bytes alignment =
     t\<lparr>upstream := deallocate mr (upstream t) p bytes alignment,
       bytes_used := (if bytes_used t \<ge> bytes then bytes_used t - bytes else 0)\<rparr>"

text \<open>
  \<^verbatim>\<open>do_is_equal\<close> compares addresses, so a resource equals itself only; the move operations of the
  PMR containers of one arena therefore never copy between resources.
\<close>

definition do_is_equal :: "ptr \<Rightarrow> ptr \<Rightarrow> bool" where
  "do_is_equal this other \<longleftrightarrow> this = other"

section \<open>PmrArena\<close>

text \<open>
  The arena of capacity \<open>n\<close> builds the chain buffer, monotonic resource, pool, tracker.  \<open>pool n\<close>
  is the state of the pool over a fresh buffer of \<open>n\<close> bytes.
\<close>

record 'u pmr_arena =
  arena_capacity :: size_t
  tracker :: "'u tracking_resource"

definition mk_pmr_arena :: "(size_t \<Rightarrow> 'u) \<Rightarrow> size_t \<Rightarrow> 'u pmr_arena" where
  "mk_pmr_arena pool n = \<lparr>arena_capacity = n, tracker = mk_tracking_resource (pool n) n\<rparr>"

definition arena_bytes_used :: "'u pmr_arena \<Rightarrow> size_t" where
  "arena_bytes_used a = bytes_used (tracker a)"

definition arena_is_hard_limit_reached :: "'u pmr_arena \<Rightarrow> bool" where
  "arena_is_hard_limit_reached a = is_hard_limit_reached (tracker a)"

section \<open>Groups of requests and their unwinding\<close>

text \<open>
  A container operation makes a sequence of requests.  When one of them throws, the destructors
  give back, newest first, the blocks taken so far; otherwise the caller holds all of them.
\<close>

type_synonym request = "size_t \<times> size_t"
type_synonym block = "ptr \<times> size_t \<times> size_t"

fun release :: "'u memory_resource \<Rightarrow> block list \<Rightarrow> 'u tracking_resource \<Rightarrow> 'u tracking_resource" where
  "release mr [] t = t"
| "release mr ((p, b, a) # bs) t = release mr bs (do_deallocate mr t p b a)"

fun acquire ::
  "'u memory_resource \<Rightarrow> request list \<Rightarrow> block list \<Rightarrow> 'u tracking_resource
     \<Rightarrow> (oom_exception + block list) \<times> 'u tracking_resource" where
  "acquire mr [] held t = (Inr held, t)"
| "acquire mr ((b, a) # rs) held t =
     (case do_allocate mr t b a of
        (Inl e, t') \<Rightarrow> (Inl e, release mr held t')
      | (Inr p, t') \<Rightarrow> acquire mr rs ((p, b, a) # held) t')"

section \<open>Accounting\<close>

text \<open>
  The pool sits on one buffer of \<^verbatim>\<open>capacity\<close> bytes over \<^verbatim>\<open>null_memory_resource\<close>, so it cannot
  grant a block larger than the capacity.
\<close>

definition pool_bounded :: "'u memory_resource \<Rightarrow> size_t \<Rightarrow> bool" where
  "pool_bounded mr cap \<longleftrightarrow>
     (\<forall>u b a p u'. allocate mr u b a = (Some p, u') \<longrightarrow> b \<le> cap)"

definition capacity_ok :: "'u memory_resource \<Rightarrow> 'u tracking_resource \<Rightarrow> bool" where
  "capacity_ok mr t \<longleftrightarrow> pool_bounded mr (capacity t) \<and> unat (capacity t) < 2 ^ 63"

definition within_capacity :: "'u tracking_resource \<Rightarrow> bool" where
  "within_capacity t \<longleftrightarrow> bytes_used t \<le> capacity t"

lemma capacity_do_deallocate [simp]: "capacity (do_deallocate mr t p b a) = capacity t"
  by (simp add: do_deallocate_def)

lemma do_allocate_Inl:
  "do_allocate mr t b a = (Inl e, t') \<Longrightarrow> bytes_used t' = bytes_used t \<and> capacity t' = capacity t"
  by (auto simp: do_allocate_def split: prod.splits option.splits if_splits)

lemma do_allocate_Inr_iff:
  "do_allocate mr t b a = (Inr p, t') \<longleftrightarrow>
     bytes_used t + b \<le> capacity t \<and>
     (\<exists>u. allocate mr (upstream t) b a = (Some p, u) \<and>
          t' = t\<lparr>upstream := u, bytes_used := bytes_used t + b\<rparr>)"
  by (auto simp: do_allocate_def not_le split: prod.split option.split)

text \<open>A granted request is added exactly: with a bounded pool the sum cannot wrap around.\<close>

lemma do_allocate_Inr:
  assumes ok: "capacity_ok mr t" and le: "within_capacity t"
    and r: "do_allocate mr t b a = (Inr p, t')"
  shows "unat (bytes_used t') = unat (bytes_used t) + unat b"
    and "within_capacity t'" and "capacity t' = capacity t"
proof -
  from r have fit: "bytes_used t + b \<le> capacity t"
    and t': "bytes_used t' = bytes_used t + b" "capacity t' = capacity t"
    by (auto simp: do_allocate_Inr_iff)
  from r ok have b: "b \<le> capacity t"
    unfolding do_allocate_Inr_iff capacity_ok_def pool_bounded_def by blast
  have "unat (bytes_used t) \<le> unat (capacity t)" "unat b \<le> unat (capacity t)"
    using le b by (simp_all add: within_capacity_def word_le_nat_alt)
  moreover have "unat (capacity t) < 2 ^ 63" using ok by (simp add: capacity_ok_def)
  ultimately have "unat (bytes_used t) + unat b < 2 ^ LENGTH(64)" by simp
  then show "unat (bytes_used t') = unat (bytes_used t) + unat b"
    by (simp only: t' unat_plus_no_wrap)
  show "within_capacity t'" "capacity t' = capacity t"
    using fit t' by (simp_all add: within_capacity_def)
qed

lemma unat_bytes_used_do_deallocate:
  "unat (bytes_used (do_deallocate mr t p b a)) = unat (bytes_used t) - unat b"
proof (cases "b \<le> bytes_used t")
  case True
  then show ?thesis by (simp add: do_deallocate_def unat_sub)
next
  case False
  then have "unat (bytes_used t) \<le> unat b" by (simp add: word_le_nat_alt)
  with False show ?thesis by (simp add: do_deallocate_def)
qed

lemma within_capacity_do_deallocate [simp]:
  "within_capacity t \<Longrightarrow> within_capacity (do_deallocate mr t p b a)"
  by (simp add: within_capacity_def word_le_nat_alt unat_bytes_used_do_deallocate)

abbreviation block_size :: "block \<Rightarrow> nat" where
  "block_size b \<equiv> unat (fst (snd b))"

abbreviation blocks_size :: "block list \<Rightarrow> nat" where
  "blocks_size bs \<equiv> sum_list (map block_size bs)"

lemma release_simps [simp]:
  "capacity (release mr bs t) = capacity t"
  "unat (bytes_used (release mr bs t)) = unat (bytes_used t) - blocks_size bs"
  by (induction bs arbitrary: t) (auto simp: unat_bytes_used_do_deallocate)

lemma within_capacity_release [simp]: "within_capacity t \<Longrightarrow> within_capacity (release mr bs t)"
  by (simp add: within_capacity_def word_le_nat_alt)

lemma acquire_Inr:
  assumes "capacity_ok mr t" and "within_capacity t"
    and "acquire mr rs held t = (Inr bs, t')"
  shows "unat (bytes_used t') + blocks_size held = unat (bytes_used t) + blocks_size bs
    \<and> within_capacity t' \<and> capacity t' = capacity t
    \<and> map snd bs = rev rs @ map snd held"
  using assms
proof (induction rs arbitrary: held t)
  case Nil
  then show ?case by simp
next
  case (Cons r rs)
  obtain b a where r: "r = (b, a)" by force
  from Cons.prems(3) obtain p t1 where a1: "do_allocate mr t b a = (Inr p, t1)"
    and a2: "acquire mr rs ((p, b, a) # held) t1 = (Inr bs, t')"
    by (auto simp: r split: prod.splits sum.splits)
  note t1 = do_allocate_Inr [OF Cons.prems(1,2) a1]
  from Cons.prems(1) t1(3) have "capacity_ok mr t1" by (simp add: capacity_ok_def)
  from Cons.IH [OF this t1(2) a2] t1 show ?case by (simp add: r)
qed

lemma acquire_Inl:
  assumes "capacity_ok mr t" and "within_capacity t"
    and "acquire mr rs held t = (Inl e, t')" and "blocks_size held \<le> unat (bytes_used t)"
  shows "unat (bytes_used t') + blocks_size held = unat (bytes_used t)
    \<and> within_capacity t' \<and> capacity t' = capacity t"
  using assms
proof (induction rs arbitrary: held t)
  case Nil
  then show ?case by simp
next
  case (Cons r rs)
  obtain b a where r: "r = (b, a)" by force
  show ?case
  proof (cases "do_allocate mr t b a")
    case (Pair res t1)
    show ?thesis
    proof (cases res)
      case (Inl e1)
      with Pair Cons.prems(3) have "t' = release mr held t1" by (simp add: r)
      with do_allocate_Inl [of mr t b a e1 t1] Pair Inl Cons.prems show ?thesis
        by (simp add: within_capacity_def word_le_nat_alt)
    next
      case (Inr p)
      with Pair Cons.prems(3) have a2: "acquire mr rs ((p, b, a) # held) t1 = (Inl e, t')"
        by (simp add: r)
      from Pair Inr have "do_allocate mr t b a = (Inr p, t1)" by simp
      note t1 = do_allocate_Inr [OF Cons.prems(1,2) this]
      from Cons.prems(1) t1(3) have "capacity_ok mr t1" by (simp add: capacity_ok_def)
      from Cons.IH [OF this t1(2) a2] t1 Cons.prems(4) show ?thesis by simp
    qed
  qed
qed

lemma capacity_acquire [simp]: "capacity (snd (acquire mr rs held t)) = capacity t"
proof (induction rs arbitrary: held t)
  case (Cons r rs)
  then show ?case
    by (cases r) (auto simp: do_allocate_def split: prod.splits option.splits sum.splits)
qed simp

section \<open>Runs of a tracker\<close>

text \<open>
  A run interleaves granted requests, refused requests and the return of live blocks, in any
  order.  The state is the tracker together with the blocks its clients hold.
\<close>

inductive resource_step ::
  "'u memory_resource \<Rightarrow> 'u tracking_resource \<times> block multiset
     \<Rightarrow> 'u tracking_resource \<times> block multiset \<Rightarrow> bool" for mr where
  grant: "do_allocate mr t b a = (Inr p, t') \<Longrightarrow>
     resource_step mr (t, live) (t', add_mset (p, b, a) live)"
| refuse: "do_allocate mr t b a = (Inl e, t') \<Longrightarrow> resource_step mr (t, live) (t', live)"
| give_back: "resource_step mr (t, add_mset (p, b, a) live) (do_deallocate mr t p b a, live)"

definition resource_start ::
  "'u memory_resource \<Rightarrow> 'u tracking_resource \<times> block multiset \<Rightarrow> bool" where
  "resource_start mr s \<longleftrightarrow>
     (\<exists>u cap. s = (mk_tracking_resource u cap, {#}) \<and> pool_bounded mr cap \<and> unat cap < 2 ^ 63)"

definition resource_inv ::
  "'u memory_resource \<Rightarrow> 'u tracking_resource \<times> block multiset \<Rightarrow> bool" where
  "resource_inv mr s \<longleftrightarrow>
     (case s of (t, live) \<Rightarrow>
        capacity_ok mr t \<and> within_capacity t \<and>
        unat (bytes_used t) = (\<Sum>b \<in># live. block_size b))"

lemma resource_step_inv:
  assumes "resource_inv mr s" and "resource_step mr s s'"
  shows "resource_inv mr s'"
  using assms(2,1)
proof (induction rule: resource_step.induct)
  case (grant t b a p t' live)
  then have "capacity_ok mr t" "within_capacity t" by (simp_all add: resource_inv_def)
  from do_allocate_Inr [OF this grant.hyps] grant.prems show ?case
    by (simp add: resource_inv_def capacity_ok_def)
next
  case (refuse t b a e t' live)
  from do_allocate_Inl [OF refuse.hyps] refuse.prems show ?case
    by (simp add: resource_inv_def capacity_ok_def within_capacity_def)
next
  case (give_back t p b a live)
  then show ?case
    by (simp add: resource_inv_def capacity_ok_def unat_bytes_used_do_deallocate)
qed

interpretation resource: step_invariant "resource_start mr" "resource_step mr" "resource_inv mr"
proof unfold_locales
  fix s :: "'a tracking_resource \<times> block multiset"
  show "resource_start mr s \<Longrightarrow> resource_inv mr s"
    by (auto simp: resource_start_def resource_inv_def mk_tracking_resource_def capacity_ok_def
        within_capacity_def)
  fix s'
  show "resource_inv mr s \<Longrightarrow> resource_step mr s s' \<Longrightarrow> resource_inv mr s'"
    by (rule resource_step_inv)
qed

section \<open>Properties\<close>

text \<open>
  C23.  In every run of a tracker over a pool that grants no block larger than its buffer, the
  counter \<^verbatim>\<open>bytes_used_\<close> is the total size of the live blocks, exactly and without wrap-around, and
  it never exceeds the capacity.
\<close>

theorem resource_accounting:
  assumes "resource_start mr s" and "(resource_step mr)\<^sup>*\<^sup>* s (t, live)"
  shows "unat (bytes_used t) = (\<Sum>b \<in># live. block_size b) \<and> bytes_used t \<le> capacity t"
  using resource.reachable_inv [OF assms] by (simp add: resource_inv_def within_capacity_def)

definition bump_resource :: "nat memory_resource" where
  "bump_resource =
     \<lparr>allocate = (\<lambda>u b a. if u + unat b \<le> 100 then (Some u, u + unat b) else (None, u)),
      deallocate = (\<lambda>u p b a. u)\<rparr>"

lemma bump_resource_start: "resource_start bump_resource (mk_tracking_resource 0 100, {#})"
proof -
  have "pool_bounded bump_resource 100"
    by (auto simp: pool_bounded_def bump_resource_def word_le_nat_alt split: if_splits)
  then show ?thesis unfolding resource_start_def by (intro exI conjI) auto
qed

theorem resource_accounting_witness:
  "unat (bytes_used \<lparr>upstream = 40, bytes_used = 40, capacity = 100\<rparr>)
     = (\<Sum>b \<in># {#(0::nat, 40::size_t, 8::size_t)#}. block_size b)
   \<and> bytes_used \<lparr>upstream = 40::nat, bytes_used = 40, capacity = 100\<rparr> \<le> 100"
proof -
  have "resource_step bump_resource (mk_tracking_resource 0 100, {#})
      (\<lparr>upstream = 40, bytes_used = 40, capacity = 100\<rparr>, {#(0, 40, 8)#})"
    by (rule resource_step.grant)
      (simp add: do_allocate_def bump_resource_def mk_tracking_resource_def)
  from resource_accounting [OF bump_resource_start r_into_rtranclp [of "resource_step bump_resource", OF this]]
  show ?thesis by simp
qed

text \<open>
  A group of requests that runs out of memory part of the way is undone: the counter is what it
  was before the group, so a failed write takes no memory from the shard.
\<close>

theorem acquire_failure_restores:
  assumes "capacity_ok mr t" and "within_capacity t" and "acquire mr rs [] t = (Inl e, t')"
  shows "bytes_used t' = bytes_used t \<and> capacity t' = capacity t"
proof -
  from acquire_Inl [OF assms] have "unat (bytes_used t') = unat (bytes_used t)"
    and "capacity t' = capacity t" by simp_all
  then show ?thesis by (simp add: word_unat_eq_iff)
qed

theorem acquire_failure_restores_witness:
  "bytes_used (snd (acquire bump_resource [(60, 8), (60, 8)] [] (mk_tracking_resource 0 100))) = 0
   \<and> fst (acquire bump_resource [(60, 8), (60, 8)] [] (mk_tracking_resource 0 100))
       = Inl (OomException oom_what)"
proof -
  let ?t = "mk_tracking_resource (0::nat) 100"
  let ?r = "acquire bump_resource [(60, 8), (60, 8)] [] ?t"
  have ok: "capacity_ok bump_resource ?t" "within_capacity ?t"
    using bump_resource_start resource.init_inv by (fastforce simp: resource_inv_def)+
  have e: "fst ?r = Inl (OomException oom_what)"
    by (simp add: do_allocate_def bump_resource_def mk_tracking_resource_def)
  then have "?r = (Inl (OomException oom_what), snd ?r)" by (metis prod.collapse)
  from acquire_failure_restores [OF ok this] e show ?thesis
    by (simp add: mk_tracking_resource_def)
qed

text \<open>
  The limit check adds before it compares, so it can be passed by wrap-around: a request of
  \<open>2^64 - bytes_used\<close> bytes is let through at any fill level, and if the upstream resource grants
  it the counter falls to zero.
\<close>

theorem do_allocate_wraps:
  assumes "allocate mr (upstream t) (- bytes_used t) a = (Some p, u)"
  shows "do_allocate mr t (- bytes_used t) a = (Inr p, t\<lparr>upstream := u, bytes_used := 0\<rparr>)"
  using assms by (simp add: do_allocate_def)

theorem do_allocate_wraps_witness:
  "do_allocate \<lparr>allocate = (\<lambda>u b a. (Some 7, u)), deallocate = (\<lambda>u p b a. u)\<rparr>
     \<lparr>upstream = (), bytes_used = 90, capacity = 100\<rparr> (- 90) 8
   = (Inr 7, \<lparr>upstream = (), bytes_used = 0, capacity = 100\<rparr>)"
  using do_allocate_wraps
    [of "\<lparr>allocate = (\<lambda>u b a. (Some 7, u)), deallocate = (\<lambda>u p b a. u)\<rparr>"
        "\<lparr>upstream = (), bytes_used = 90, capacity = 100\<rparr>" 8 7 "()"]
  by simp

end
