(* ===== verification/KV_Text.thy ===== *)
theory KV_Text
  imports KV_Prelude
begin

text \<open>
  The text functions of the standard library that the program calls, and \<^verbatim>\<open>to_upper\<close> of
  command.cpp: whitespace splitting by \<^verbatim>\<open>istringstream >> token\<close>, \<^verbatim>\<open>std::to_string\<close>,
  \<^verbatim>\<open>std::stoll\<close> and \<^verbatim>\<open>std::stoull\<close> with their exceptions, \<^verbatim>\<open>std::getline\<close>.  A \<^verbatim>\<open>std::string\<close> is
  a list of bytes, which is Isabelle's \<open>string\<close>.  The lemmas are the round trips the persistence
  layer needs: printing a number and reading it back, joining tokens and splitting them again.
\<close>

section \<open>Characters\<close>

text \<open>\<^verbatim>\<open>std::isspace\<close> in the classic locale: blank, \<^verbatim>\<open>\t \n \v \f \r\<close>.\<close>

definition is_space :: "char \<Rightarrow> bool" where
  "is_space c \<longleftrightarrow> c \<in> {CHR '' '', CHR 0x09, CHR 0x0A, CHR 0x0B, CHR 0x0C, CHR 0x0D}"

definition crlf :: string where
  "crlf = [CHR 0x0D, CHR 0x0A]"

text \<open>\<^verbatim>\<open>std::toupper\<close> in the classic locale moves only the letters a to z.\<close>

definition toupper :: "char \<Rightarrow> char" where
  "toupper c = (let n = (of_char c :: nat) in if 97 \<le> n \<and> n \<le> 122 then char_of (n - 32) else c)"

definition to_upper :: "string \<Rightarrow> string" where
  "to_upper s = map toupper s"

section \<open>Splitting at white space\<close>

text \<open>
  \<^verbatim>\<open>while (iss >> token) tokens.push_back(token)\<close>: skip white space, stop at the end of the text,
  otherwise take the longest run without white space.
\<close>

abbreviation not_space :: "char \<Rightarrow> bool" where
  "not_space c \<equiv> \<not> is_space c"

function tokenize :: "string \<Rightarrow> string list" where
  "tokenize s =
     (let r = dropWhile is_space s in
      if r = [] then [] else takeWhile not_space r # tokenize (dropWhile not_space r))"
  by pat_completeness auto
termination
proof (relation "measure length", goal_cases)
  case 1
  show ?case by simp
next
  case (2 s r)
  from 2(2) obtain c cs where r: "r = c # cs" by (meson neq_Nil_conv)
  with 2(1) have "not_space c" by (metis hd_dropWhile list.sel(1) list.distinct(1))
  with r have "length (dropWhile not_space r) \<le> length cs" by (simp add: length_dropWhile_le)
  moreover have "length r \<le> length s" using 2(1) by (simp add: length_dropWhile_le)
  ultimately show ?case using r by simp
qed

declare tokenize.simps [simp del]

text \<open>A token that \<^verbatim>\<open>>>\<close> can produce: not empty and without white space.\<close>

definition is_token :: "string \<Rightarrow> bool" where
  "is_token t \<longleftrightarrow> t \<noteq> [] \<and> (\<forall>c \<in> set t. not_space c)"

lemma tokenize_Nil [simp]: "tokenize [] = []"
  by (subst tokenize.simps) simp

lemma tokenize_space [simp]: "is_space c \<Longrightarrow> tokenize (c # s) = tokenize s"
  by (subst (1 2) tokenize.simps) simp

lemma tokenize_token:
  assumes "is_token t" and "s = [] \<or> is_space (hd s)"
  shows "tokenize (t @ s) = t # tokenize s"
proof -
  from assms(1) obtain c cs where t: "t = c # cs" and ns: "\<forall>x \<in> set t. not_space x"
    by (cases t) (auto simp: is_token_def)
  have "dropWhile is_space (t @ s) = t @ s" using t ns by simp
  moreover have "takeWhile not_space (t @ s) = t"
    using ns assms(2) by (cases s) auto
  moreover have "dropWhile not_space (t @ s) = s"
    using ns assms(2) by (cases s) auto
  ultimately show ?thesis using t by (subst tokenize.simps) (simp add: Let_def)
qed

lemma tokenize_tokens: "t \<in> set (tokenize s) \<Longrightarrow> is_token t"
proof (induction s rule: tokenize.induct)
  case (1 s)
  define r where "r = dropWhile is_space s"
  show ?case
  proof (cases "r = []")
    case True
    with "1.prems" show ?thesis by (subst (asm) tokenize.simps) (simp add: r_def)
  next
    case False
    then have hd: "not_space (hd r)" unfolding r_def by (rule hd_dropWhile)
    have "is_token (takeWhile not_space r)"
      using False hd by (cases r) (auto simp: is_token_def dest: set_takeWhileD)
    moreover have "t \<in> set (takeWhile not_space r # tokenize (dropWhile not_space r))"
      using "1.prems" False unfolding tokenize.simps [of s] by (simp add: Let_def flip: r_def)
    ultimately show ?thesis using "1.IH" [OF r_def False] by auto
  qed
qed

text \<open>Tokens joined by single blanks, the way \<^verbatim>\<open>serialize\<close> writes them, split back into themselves.\<close>

fun join :: "string list \<Rightarrow> string" where
  "join [] = []"
| "join [t] = t"
| "join (t # ts) = t @ '' '' @ join ts"

lemma tokenize_join: "\<forall>t \<in> set ts. is_token t \<Longrightarrow> tokenize (join ts) = ts"
proof (induction ts rule: join.induct)
  case (2 t)
  then show ?case using tokenize_token [of t "[]"] by simp
next
  case (3 t u us)
  have "is_space CHR '' ''" by (simp add: is_space_def)
  with 3 show ?case using tokenize_token [of t "'' '' @ join (u # us)"] by simp
qed simp

section \<open>Numbers\<close>

text \<open>\<^verbatim>\<open>std::to_string\<close> of an unsigned and of a signed integer.\<close>

definition digit_char :: "nat \<Rightarrow> char" where
  "digit_char d = char_of (48 + d)"

fun to_string_nat :: "nat \<Rightarrow> string" where
  "to_string_nat n =
     (if n < 10 then [digit_char n] else to_string_nat (n div 10) @ [digit_char (n mod 10)])"

declare to_string_nat.simps [simp del]

definition to_string :: "int \<Rightarrow> string" where
  "to_string i = (if i < 0 then ''-'' @ to_string_nat (nat (- i)) else to_string_nat (nat i))"

text \<open>
  \<^verbatim>\<open>std::stoll\<close> and \<^verbatim>\<open>std::stoull\<close> call \<^verbatim>\<open>strtoll\<close> and \<^verbatim>\<open>strtoull\<close> in base 10: leading white space is
  skipped, a sign is read, then the longest run of digits; what follows is ignored.  No digit
  raises \<^verbatim>\<open>invalid_argument\<close>, a value out of range \<^verbatim>\<open>out_of_range\<close>.  \<^verbatim>\<open>strtoull\<close> accepts a minus
  sign and returns the negated value as an unsigned number.
\<close>

datatype number_error = Invalid_argument | Out_of_range

definition is_digit :: "char \<Rightarrow> bool" where
  "is_digit c \<longleftrightarrow> 48 \<le> (of_char c :: nat) \<and> (of_char c :: nat) \<le> 57"

definition digit_value :: "char \<Rightarrow> nat" where
  "digit_value c = of_char c - 48"

definition digits_value :: "string \<Rightarrow> nat" where
  "digits_value ds = foldl (\<lambda>v c. 10 * v + digit_value c) 0 ds"

definition read_sign :: "string \<Rightarrow> bool \<times> string" where
  "read_sign s = (case s of c # cs \<Rightarrow> if c = CHR ''-'' then (True, cs)
                                      else if c = CHR ''+'' then (False, cs) else (False, s)
                          | [] \<Rightarrow> (False, s))"

definition strto :: "string \<Rightarrow> (bool \<times> nat) option" where
  "strto s =
     (let (neg, r) = read_sign (dropWhile is_space s); ds = takeWhile is_digit r in
      if ds = [] then None else Some (neg, digits_value ds))"

definition stoll :: "string \<Rightarrow> number_error + int64_t" where
  "stoll s =
     (case strto s of
        None \<Rightarrow> Inl Invalid_argument
      | Some (neg, n) \<Rightarrow>
          let i = (if neg then - int n else int n) in
          if in_int64 i then Inr i else Inl Out_of_range)"

definition stoull :: "string \<Rightarrow> number_error + uint64_t" where
  "stoull s =
     (case strto s of
        None \<Rightarrow> Inl Invalid_argument
      | Some (neg, n) \<Rightarrow>
          if 2 ^ 64 \<le> n then Inl Out_of_range
          else Inr (if neg then - word_of_nat n else word_of_nat n))"

lemma stoll_range: "stoll s = Inr i \<Longrightarrow> in_int64 i"
  by (auto simp: stoll_def Let_def split: option.splits if_splits)

lemma of_char_digit_char: "d < 10 \<Longrightarrow> (of_char (digit_char d) :: nat) = 48 + d"
  by (simp add: digit_char_def)

lemma digit_char_props:
  assumes "d < 10"
  shows "is_digit (digit_char d)" and "digit_value (digit_char d) = d"
    and "not_space (digit_char d)" and "digit_char d \<noteq> CHR ''-''" and "digit_char d \<noteq> CHR ''+''"
proof -
  note oc = of_char_digit_char [OF assms]
  show "is_digit (digit_char d)" "digit_value (digit_char d) = d"
    using assms by (simp_all add: is_digit_def digit_value_def oc)
  have "(of_char (digit_char d) :: nat) \<noteq> of_char c" if "(of_char c :: nat) < 48" for c
    using that by (simp add: oc)
  then have ne: "digit_char d \<noteq> c" if "(of_char c :: nat) < 48" for c
    using that by metis
  show "not_space (digit_char d)" by (auto simp: is_space_def ne)
  show "digit_char d \<noteq> CHR ''-''" "digit_char d \<noteq> CHR ''+''" by (rule ne, simp)+
qed

lemma to_string_nat_ne [simp]: "to_string_nat n \<noteq> []"
  by (subst to_string_nat.simps) simp

lemma to_string_nat_chars:
  "c \<in> set (to_string_nat n) \<Longrightarrow> \<exists>d < 10. c = digit_char d"
proof (induction n rule: to_string_nat.induct)
  case (1 n)
  show ?case
  proof (cases "n < 10")
    case True
    with "1.prems" show ?thesis by (subst (asm) to_string_nat.simps) auto
  next
    case False
    with "1.prems" have "c \<in> set (to_string_nat (n div 10)) \<or> c = digit_char (n mod 10)"
      unfolding to_string_nat.simps [of n] by auto
    with "1.IH" [OF False] show ?thesis by (metis mod_less_divisor zero_less_numeral)
  qed
qed

lemma digits_value_snoc: "digits_value (ds @ [c]) = 10 * digits_value ds + digit_value c"
  by (simp add: digits_value_def)

lemma digits_value_to_string_nat: "digits_value (to_string_nat n) = n"
proof (induction n rule: to_string_nat.induct)
  case (1 n)
  show ?case
  proof (cases "n < 10")
    case True
    then show ?thesis
      by (subst to_string_nat.simps) (simp add: digits_value_def digit_char_props)
  next
    case False
    then show ?thesis using "1.IH" [OF False]
      by (subst to_string_nat.simps) (simp add: digits_value_snoc digit_char_props)
  qed
qed

lemma takeWhile_digits: "takeWhile is_digit (to_string_nat n) = to_string_nat n"
  using to_string_nat_chars digit_char_props(1) by (subst takeWhile_eq_all_conv) blast

lemma dropWhile_space_digits: "dropWhile is_space (to_string_nat n) = to_string_nat n"
  using to_string_nat_chars [of _ n] digit_char_props(3)
  by (subst dropWhile_eq_self_iff) (metis list.set_sel(1))

lemma read_sign_digits: "read_sign (to_string_nat n) = (False, to_string_nat n)"
proof -
  obtain c cs where cs: "to_string_nat n = c # cs" by (cases "to_string_nat n") auto
  then obtain d where "d < 10" "c = digit_char d" using to_string_nat_chars [of c n] by auto
  with cs show ?thesis by (simp add: read_sign_def digit_char_props)
qed

lemma strto_to_string: "strto (to_string i) = Some (i < 0, nat \<bar>i\<bar>)"
proof (cases "i < 0")
  case True
  have "not_space CHR ''-''" by (simp add: is_space_def)
  with True show ?thesis
    by (simp add: strto_def to_string_def read_sign_def takeWhile_digits digits_value_to_string_nat)
next
  case False
  then show ?thesis
    by (simp add: strto_def to_string_def dropWhile_space_digits read_sign_digits
        takeWhile_digits digits_value_to_string_nat)
qed

lemma stoll_to_string: "in_int64 i \<Longrightarrow> stoll (to_string i) = Inr i"
  by (auto simp: stoll_def strto_to_string Let_def)

lemma is_token_to_string: "is_token (to_string i)"
proof -
  have "\<forall>c \<in> set (to_string_nat n). not_space c" for n
    using to_string_nat_chars digit_char_props(3) by blast
  then show ?thesis by (auto simp: is_token_def to_string_def is_space_def)
qed

section \<open>Lines\<close>

text \<open>
  \<^verbatim>\<open>while (std::getline(file, line))\<close>: the text up to each newline, and the rest after the last one
  when it is not empty.
\<close>

abbreviation newline :: char where
  "newline \<equiv> CHR 0x0A"

function getlines :: "string \<Rightarrow> string list" where
  "getlines s =
     (if s = [] then []
      else takeWhile (\<lambda>c. c \<noteq> newline) s # getlines (drop 1 (dropWhile (\<lambda>c. c \<noteq> newline) s)))"
  by pat_completeness auto
termination
proof (relation "measure length", goal_cases)
  case (2 s)
  have "length (dropWhile (\<lambda>c. c \<noteq> newline) s) \<le> length s" by (rule length_dropWhile_le)
  with 2 show ?case by (cases s) auto
qed simp

declare getlines.simps [simp del]

lemma getlines_Nil [simp]: "getlines [] = []"
  by (subst getlines.simps) simp

lemma getlines_line: "newline \<notin> set l \<Longrightarrow> getlines (l @ newline # s) = l # getlines s"
proof -
  assume l: "newline \<notin> set l"
  then have "takeWhile (\<lambda>c. c \<noteq> newline) (l @ newline # s) = l"
    and "dropWhile (\<lambda>c. c \<noteq> newline) (l @ newline # s) = newline # s"
    by (induction l) auto
  then show ?thesis by (subst getlines.simps) simp
qed

lemma getlines_concat:
  "\<forall>l \<in> set ls. newline \<notin> set l \<Longrightarrow> getlines (concat (map (\<lambda>l. l @ [newline]) ls)) = ls"
  by (induction ls) (auto simp: getlines_line)

end
