(* ===== verification/KV_Value.thy ===== *)
theory KV_Value
  imports KV_Text
begin

text \<open>
  variant_type.h and variant_type.cpp: the stored value with its creation time, time to live and
  tombstone flag.  A \<^verbatim>\<open>steady_clock::time_point\<close> is its count of nanoseconds, a signed 64-bit number;
  \<^verbatim>\<open>steady_clock::now()\<close> is the argument \<open>now\<close> of every operation that reads the clock.
  The capacities that enter the memory estimate are a parameter.
\<close>

section \<open>Time\<close>

type_synonym time_point = int

definition ns_per_s :: int where
  "ns_per_s = 1000000000"

definition time_point_max :: time_point where
  "time_point_max = 2 ^ 63 - 1"

text \<open>\<^verbatim>\<open>duration_cast<seconds>\<close> truncates towards zero.\<close>

definition duration_cast_seconds :: "int \<Rightarrow> int" where
  "duration_cast_seconds d = sgn d * (\<bar>d\<bar> div ns_per_s)"

section \<open>CacheAlignedValue\<close>

datatype value_variant =
    VString string
  | VInt int64_t
  | VList "string list"
  | VHash "(string \<times> string) list"

datatype value_type = String | Integer | List | Hash

record cache_aligned_value =
  data :: value_variant
  created_at :: time_point
  last_accessed :: time_point
  ttl_seconds :: int64_t
  tombstoned :: bool

definition default_ttl :: int64_t where
  "default_ttl = 86400"

definition mk_value :: "time_point \<Rightarrow> value_variant \<Rightarrow> int64_t \<Rightarrow> cache_aligned_value" where
  "mk_value now v ttl =
     \<lparr>data = v, created_at = now, last_accessed = now, ttl_seconds = ttl, tombstoned = False\<rparr>"

fun value_type_of :: "value_variant \<Rightarrow> value_type" where
  "value_type_of (VString _) = String"
| "value_type_of (VInt _) = Integer"
| "value_type_of (VList _) = List"
| "value_type_of (VHash _) = Hash"

definition value_type :: "cache_aligned_value \<Rightarrow> value_type" where
  "value_type e = value_type_of (data e)"

text \<open>
  \<^verbatim>\<open>enum class ValueType : uint8_t\<close> numbers the types in the order of the variant's alternatives, and
  its comparison operators compare the numbers.
\<close>

fun value_type_index :: "value_type \<Rightarrow> nat" where
  "value_type_index String = 0"
| "value_type_index Integer = 1"
| "value_type_index List = 2"
| "value_type_index Hash = 3"

lemma value_type_index_inj: "value_type_index a = value_type_index b \<longleftrightarrow> a = b"
  by (cases a; cases b) simp_all

instantiation value_type :: linorder
begin

definition less_eq_value_type :: "value_type \<Rightarrow> value_type \<Rightarrow> bool" where
  "a \<le> b \<longleftrightarrow> value_type_index a \<le> value_type_index b"

definition less_value_type :: "value_type \<Rightarrow> value_type \<Rightarrow> bool" where
  "a < b \<longleftrightarrow> value_type_index a < value_type_index b"

instance
  by standard (auto simp: less_eq_value_type_def less_value_type_def simp flip: value_type_index_inj)

end

text \<open>
  The estimate of the memory an entry takes.  What the compiler and the library say of their types,
  and the capacities that the containers report at the time of the call, are a parameter.
\<close>

record container_layout =
  sizeof_value :: size_t
  sizeof_string :: size_t
  sizeof_pointer :: size_t
  sizeof_pair :: size_t
  string_capacity :: "string \<Rightarrow> size_t"
  vector_capacity :: "string list \<Rightarrow> size_t"
  bucket_count :: "(string \<times> string) list \<Rightarrow> size_t"

fun dynamic_memory_usage :: "container_layout \<Rightarrow> value_variant \<Rightarrow> size_t" where
  "dynamic_memory_usage L (VString s) = string_capacity L s"
| "dynamic_memory_usage L (VInt i) = 0"
| "dynamic_memory_usage L (VList xs) =
     foldl (\<lambda>total s. total + string_capacity L s) (vector_capacity L xs * sizeof_string L) xs"
| "dynamic_memory_usage L (VHash h) =
     foldl (\<lambda>total kv. total + (string_capacity L (fst kv) + string_capacity L (snd kv) + sizeof_pair L))
       (bucket_count L h * sizeof_pointer L) h"

definition estimated_memory_usage :: "container_layout \<Rightarrow> cache_aligned_value \<Rightarrow> size_t" where
  "estimated_memory_usage L e = sizeof_value L + dynamic_memory_usage L (data e)"

lemma foldl_plus: "foldl (\<lambda>total x. total + f x) n xs = n + sum_list (map f xs)" for n :: "'a :: comm_monoid_add"
  by (induction xs arbitrary: n) (simp_all add: ac_simps)

lemma dynamic_memory_usage_sums:
  "dynamic_memory_usage L (VList xs) = vector_capacity L xs * sizeof_string L + sum_list (map (string_capacity L) xs)"
  "dynamic_memory_usage L (VHash h) = bucket_count L h * sizeof_pointer L +
     sum_list (map (\<lambda>kv. string_capacity L (fst kv) + string_capacity L (snd kv) + sizeof_pair L) h)"
  by (simp_all add: foldl_plus)

definition is_expired :: "time_point \<Rightarrow> cache_aligned_value \<Rightarrow> bool" where
  "is_expired now e =
     (if ttl_seconds e < 0 then False
      else duration_cast_seconds (now - created_at e) \<ge> ttl_seconds e)"

definition touch :: "time_point \<Rightarrow> cache_aligned_value \<Rightarrow> cache_aligned_value" where
  "touch now e = e\<lparr>last_accessed := now\<rparr>"

text \<open>
  \<^verbatim>\<open>created_at + chrono::seconds(ttl_seconds)\<close> converts the seconds to nanoseconds and adds; either
  step may leave the range of the 64-bit representation, which is undefined: \<open>None\<close>.
\<close>

definition expiration_time :: "cache_aligned_value \<Rightarrow> time_point option" where
  "expiration_time e =
     (if ttl_seconds e < 0 then Some time_point_max
      else if in_int64 (ttl_seconds e * ns_per_s) \<and> in_int64 (created_at e + ttl_seconds e * ns_per_s)
      then Some (created_at e + ttl_seconds e * ns_per_s)
      else None)"

text \<open>What the commands test before they use an entry: neither deleted nor expired.\<close>

definition is_live :: "time_point \<Rightarrow> cache_aligned_value \<Rightarrow> bool" where
  "is_live now e \<longleftrightarrow> \<not> tombstoned e \<and> \<not> is_expired now e"

section \<open>Lemmas\<close>

lemma duration_cast_nonneg: "0 \<le> d \<Longrightarrow> duration_cast_seconds d = d div ns_per_s"
  by (cases "d = 0") (simp_all add: duration_cast_seconds_def ns_per_s_def sgn_if)

lemma is_expired_iff:
  assumes "created_at e \<le> now"
  shows "is_expired now e \<longleftrightarrow> 0 \<le> ttl_seconds e \<and> created_at e + ttl_seconds e * ns_per_s \<le> now"
proof -
  have "ttl_seconds e \<le> (now - created_at e) div ns_per_s \<longleftrightarrow> ttl_seconds e * ns_per_s \<le> now - created_at e"
    unfolding ns_per_s_def by arith
  with assms show ?thesis by (auto simp: is_expired_def duration_cast_nonneg)
qed

lemma is_expired_mono:
  assumes "created_at e \<le> now" and "now \<le> later" and "is_expired now e"
  shows "is_expired later e"
  using assms by (auto simp: is_expired_iff)

lemma mk_value_simps [simp]:
  "data (mk_value now v ttl) = v" "created_at (mk_value now v ttl) = now"
  "ttl_seconds (mk_value now v ttl) = ttl" "\<not> tombstoned (mk_value now v ttl)"
  by (simp_all add: mk_value_def)

lemma is_live_mk_value: "ttl \<noteq> 0 \<Longrightarrow> is_live now (mk_value now v ttl)"
  by (simp add: is_live_def is_expired_iff ns_per_s_def)

section \<open>Properties\<close>

text \<open>
  \<^verbatim>\<open>is_expired\<close> and \<^verbatim>\<open>expiration_time\<close> agree: an entry with a time to live expires exactly when
  the clock reaches its expiration time, although one truncates to seconds and the other adds
  nanoseconds; and once expired it stays expired.
\<close>

theorem is_expired_expiration_time:
  assumes "created_at e \<le> now" and "0 \<le> ttl_seconds e" and "expiration_time e = Some t"
  shows "(is_expired now e \<longleftrightarrow> t \<le> now) \<and> (is_expired now e \<and> now \<le> later \<longrightarrow> is_expired later e)"
proof
  show "is_expired now e \<longleftrightarrow> t \<le> now"
    using assms by (auto simp: is_expired_iff expiration_time_def split: if_splits)
  show "is_expired now e \<and> now \<le> later \<longrightarrow> is_expired later e"
    using assms(1) is_expired_mono by blast
qed

theorem is_expired_expiration_time_witness:
  "is_expired 12000000000 (mk_value 5000000000 (VInt 1) 7) \<and>
   \<not> is_expired 11999999999 (mk_value 5000000000 (VInt 1) 7) \<and>
   is_expired 13000000000 (mk_value 5000000000 (VInt 1) 7)"
proof -
  let ?e = "mk_value 5000000000 (VInt 1) 7"
  have t: "expiration_time ?e = Some 12000000000"
    by (simp add: expiration_time_def ns_per_s_def in_int64_def)
  have "is_expired 12000000000 ?e" and "is_expired 13000000000 ?e"
    using is_expired_expiration_time [of ?e 12000000000 12000000000 13000000000] t by auto
  moreover have "\<not> is_expired 11999999999 ?e"
    using is_expired_expiration_time [of ?e 11999999999 12000000000 0] t by auto
  ultimately show ?thesis by blast
qed

end
