(* ===== verification/KV_Shard.thy ===== *)
theory KV_Shard
  imports KV_Memory KV_Value
begin

text \<open>
  shard.h and shard.cpp: one database shard, its arena and its map from keys to values.  Each
  operation runs under the shard's \<^verbatim>\<open>shared_mutex\<close> (exclusive for writers), so it is one atomic
  function on the shard.  The locale \<open>kv_store\<close> is the contract that the router's clients rely on;
  the shard provides it here and the router in its own theory.
\<close>

section \<open>What the containers ask of the arena\<close>

text \<open>
  How many bytes a \<^verbatim>\<open>pmr::string\<close>, a map node or a vector buffer needs is decided by the standard
  library, so it is a parameter: \<open>requests\<close> lists the requests a container operation makes when the
  shard holds a given map, \<open>returns\<close> the blocks given back when it completes (temporaries, replaced
  values, outgrown buffers).  \<open>pool\<close> is the fresh pool of an arena.
\<close>

type_synonym shard_data = "(string \<times> cache_aligned_value) list"

datatype container_op =
    PmrString string
  | InsertOrAssign string cache_aligned_value
  | EraseEntry string
  | NewList string
  | EmplaceBack string string
  | NewHash string string
  | HashAssign string string string

record 'u pmr_env =
  resource_ops :: "'u memory_resource"
  pool :: "size_t \<Rightarrow> 'u"
  requests :: "container_op \<Rightarrow> shard_data \<Rightarrow> request list"
  returns :: "container_op \<Rightarrow> shard_data \<Rightarrow> block list"

section \<open>Shard\<close>

record 'u shard =
  arena :: "'u pmr_arena"
  data_map :: shard_data

text \<open>
  The constructor leaves the arena untouched: an empty \<^verbatim>\<open>unordered_map\<close> of libstdc++, the library of the
  recommended MinGW build and of the documented release binary, owns no memory.
\<close>

definition mk_shard :: "'u pmr_env \<Rightarrow> size_t \<Rightarrow> 'u shard" where
  "mk_shard env n = \<lparr>arena = mk_pmr_arena (pool env) n, data_map = []\<rparr>"

definition with_tracker :: "'u shard \<Rightarrow> 'u tracking_resource \<Rightarrow> 'u shard" where
  "with_tracker s t = s\<lparr>arena := (arena s)\<lparr>tracker := t\<rparr>\<rparr>"

text \<open>The requests of a sequence of container operations, undone together when one of them throws.\<close>

definition acquire_for ::
  "'u pmr_env \<Rightarrow> container_op list \<Rightarrow> 'u shard \<Rightarrow> (oom_exception + block list) \<times> 'u shard" where
  "acquire_for env cops s =
     (let (r, t) = acquire (resource_ops env) (concat (map (\<lambda>c. requests env c (data_map s)) cops)) []
                     (tracker (arena s))
      in (r, with_tracker s t))"

definition release_blocks :: "'u pmr_env \<Rightarrow> block list \<Rightarrow> 'u shard \<Rightarrow> 'u shard" where
  "release_blocks env bs s = with_tracker s (release (resource_ops env) bs (tracker (arena s)))"

definition shard_set ::
  "'u pmr_env \<Rightarrow> time_point \<Rightarrow> string \<Rightarrow> string \<Rightarrow> int64_t \<Rightarrow> 'u shard \<Rightarrow> bool \<times> 'u shard" where
  "shard_set env now key val ttl s =
     (if arena_is_hard_limit_reached (arena s) then (False, s)
      else let entry = mk_value now (VString val) ttl in
           case acquire_for env [PmrString key, PmrString val, InsertOrAssign key entry] s of
             (Inl _, s1) \<Rightarrow> (False, s1)
           | (Inr _, s1) \<Rightarrow>
               (True, release_blocks env (returns env (InsertOrAssign key entry) (data_map s))
                        (s1\<lparr>data_map := AList.update key entry (data_map s1)\<rparr>)))"

fun visit_to_string :: "value_variant \<Rightarrow> string" where
  "visit_to_string (VString v) = v"
| "visit_to_string (VInt i) = to_string i"
| "visit_to_string (VList _) = ''(list)''"
| "visit_to_string (VHash _) = ''(hash)''"

definition shard_get :: "time_point \<Rightarrow> string \<Rightarrow> 'u shard \<Rightarrow> string option" where
  "shard_get now key s =
     (case map_of (data_map s) key of
        None \<Rightarrow> None
      | Some e \<Rightarrow> if tombstoned e \<or> is_expired now e then None else Some (visit_to_string (data e)))"

definition shard_del :: "string \<Rightarrow> 'u shard \<Rightarrow> bool \<times> 'u shard" where
  "shard_del key s =
     (case map_of (data_map s) key of
        None \<Rightarrow> (False, s)
      | Some e \<Rightarrow>
          if tombstoned e then (False, s)
          else (True, s\<lparr>data_map := AList.update key (e\<lparr>tombstoned := True\<rparr>) (data_map s)\<rparr>))"

definition shard_exists :: "time_point \<Rightarrow> string \<Rightarrow> 'u shard \<Rightarrow> bool" where
  "shard_exists now key s =
     (case map_of (data_map s) key of
        None \<Rightarrow> False
      | Some e \<Rightarrow> \<not> is_expired now e \<and> \<not> tombstoned e)"

definition shard_evict_expired ::
  "'u pmr_env \<Rightarrow> time_point \<Rightarrow> string \<Rightarrow> 'u shard \<Rightarrow> bool \<times> 'u shard" where
  "shard_evict_expired env now key s =
     (case map_of (data_map s) key of
        None \<Rightarrow> (False, s)
      | Some e \<Rightarrow>
          if tombstoned e \<or> is_expired now e then
            (True, release_blocks env (returns env (EraseEntry key) (data_map s))
                     (s\<lparr>data_map := AList.delete key (data_map s)\<rparr>))
          else (False, s))"

definition memory_used :: "'u shard \<Rightarrow> size_t" where
  "memory_used s = arena_bytes_used (arena s)"

definition memory_capacity :: "'u shard \<Rightarrow> size_t" where
  "memory_capacity s = arena_capacity (arena s)"

definition key_count :: "'u shard \<Rightarrow> size_t" where
  "key_count s = word_of_nat (length (data_map s))"

section \<open>Well-formed shards\<close>

text \<open>
  The map has one entry per key, the tracker's limit is the arena's capacity and its counter is
  within the limit.
\<close>

definition shard_wf :: "'u pmr_env \<Rightarrow> 'u shard \<Rightarrow> bool" where
  "shard_wf env s \<longleftrightarrow>
     distinct_keys (data_map s) \<and> arena_capacity (arena s) = capacity (tracker (arena s)) \<and>
     capacity_ok (resource_ops env) (tracker (arena s)) \<and> within_capacity (tracker (arena s))"

lemma with_tracker_simps [simp]:
  "data_map (with_tracker s t) = data_map s"
  "tracker (arena (with_tracker s t)) = t"
  "arena_capacity (arena (with_tracker s t)) = arena_capacity (arena s)"
  by (simp_all add: with_tracker_def)

lemma data_map_acquire_for: "acquire_for env cops s = (r, s1) \<Longrightarrow> data_map s1 = data_map s"
  by (auto simp: acquire_for_def split: prod.splits)

lemma data_map_release_blocks [simp]: "data_map (release_blocks env bs s) = data_map s"
  by (simp add: release_blocks_def)

lemma shard_wf_acquire_for:
  assumes wf: "shard_wf env s" and r: "acquire_for env cops s = (r, s1)"
  shows "shard_wf env s1"
proof -
  let ?mr = "resource_ops env" and ?t = "tracker (arena s)"
  define rs where "rs = concat (map (\<lambda>c. requests env c (data_map s)) cops)"
  from r obtain t1 where a: "acquire ?mr rs [] ?t = (r, t1)" and s1: "s1 = with_tracker s t1"
    by (auto simp: acquire_for_def rs_def split: prod.splits)
  from wf have ok: "capacity_ok ?mr ?t" "within_capacity ?t" by (simp_all add: shard_wf_def)
  have "within_capacity t1 \<and> capacity t1 = capacity ?t"
  proof (cases r)
    case (Inl e)
    with acquire_Inl [OF ok] a show ?thesis by fastforce
  next
    case (Inr bs)
    with acquire_Inr [OF ok] a show ?thesis by fastforce
  qed
  with wf show ?thesis by (simp add: s1 shard_wf_def capacity_ok_def)
qed

lemma shard_wf_release_blocks: "shard_wf env s \<Longrightarrow> shard_wf env (release_blocks env bs s)"
  by (simp add: shard_wf_def release_blocks_def capacity_ok_def)

lemma shard_wf_update:
  "shard_wf env s \<Longrightarrow> shard_wf env (s\<lparr>data_map := AList.update k e (data_map s)\<rparr>)"
  by (simp add: shard_wf_def amap.invar_insert_or_assign)

lemma shard_wf_delete:
  "shard_wf env s \<Longrightarrow> shard_wf env (s\<lparr>data_map := AList.delete k (data_map s)\<rparr>)"
  by (simp add: shard_wf_def amap.invar_erase)

lemmas shard_wf_intros = shard_wf_release_blocks shard_wf_update shard_wf_delete

lemma shard_wf_set: "shard_wf env s \<Longrightarrow> shard_wf env (snd (shard_set env now k v ttl s))"
  by (auto simp: shard_set_def Let_def intro!: shard_wf_intros dest: shard_wf_acquire_for
      split: prod.splits sum.splits)

lemma shard_wf_del: "shard_wf env s \<Longrightarrow> shard_wf env (snd (shard_del k s))"
  by (auto simp: shard_del_def intro!: shard_wf_intros split: option.splits)

lemma shard_wf_evict: "shard_wf env s \<Longrightarrow> shard_wf env (snd (shard_evict_expired env now k s))"
  by (auto simp: shard_evict_expired_def intro!: shard_wf_intros split: option.splits)

lemma shard_wf_mk_shard:
  "pool_bounded (resource_ops env) n \<Longrightarrow> unat n < 2 ^ 63 \<Longrightarrow> shard_wf env (mk_shard env n)"
  by (simp add: shard_wf_def mk_shard_def mk_pmr_arena_def mk_tracking_resource_def capacity_ok_def
      within_capacity_def)

section \<open>The contract of a key-value store\<close>

text \<open>
  Seen from outside, a store is a partial map from keys to entries; deletion by tombstone is
  deletion.  \<open>entry\<close> is the abstraction: what each operation does to it, and what the readers
  compute from it, is the contract.
\<close>

definition untombstoned :: "cache_aligned_value option \<Rightarrow> cache_aligned_value option" where
  "untombstoned r = (case r of None \<Rightarrow> None | Some e \<Rightarrow> if tombstoned e then None else Some e)"

lemma untombstoned_simps [simp]:
  "untombstoned None = None"
  "\<not> tombstoned e \<Longrightarrow> untombstoned (Some e) = Some e"
  "tombstoned e \<Longrightarrow> untombstoned (Some e) = None"
  by (simp_all add: untombstoned_def)

lemma untombstoned_Some: "untombstoned r = Some e \<longleftrightarrow> r = Some e \<and> \<not> tombstoned e"
  by (auto simp: untombstoned_def split: option.splits)

locale kv_store =
  fixes set :: "time_point \<Rightarrow> string \<Rightarrow> string \<Rightarrow> int64_t \<Rightarrow> 's \<Rightarrow> bool \<times> 's"
    and get :: "time_point \<Rightarrow> string \<Rightarrow> 's \<Rightarrow> string option"
    and del :: "string \<Rightarrow> 's \<Rightarrow> bool \<times> 's"
    and exists :: "time_point \<Rightarrow> string \<Rightarrow> 's \<Rightarrow> bool"
    and entry :: "'s \<Rightarrow> string \<Rightarrow> cache_aligned_value option"
    and invar :: "'s \<Rightarrow> bool"
  assumes set_stores: "invar s \<Longrightarrow> set now k v ttl s = (True, s') \<Longrightarrow>
      entry s' = (entry s)(k \<mapsto> mk_value now (VString v) ttl)"
    and set_refuses: "invar s \<Longrightarrow> set now k v ttl s = (False, s') \<Longrightarrow> entry s' = entry s"
    and del_removes: "invar s \<Longrightarrow> del k s = (r, s') \<Longrightarrow>
      entry s' = (entry s)(k := None) \<and> (r \<longleftrightarrow> entry s k \<noteq> None)"
    and get_reads: "invar s \<Longrightarrow> get now k s =
      (case entry s k of None \<Rightarrow> None
       | Some e \<Rightarrow> if is_expired now e then None else Some (visit_to_string (data e)))"
    and exists_reads: "invar s \<Longrightarrow> exists now k s \<longleftrightarrow>
      (case entry s k of None \<Rightarrow> False | Some e \<Rightarrow> \<not> is_expired now e)"
    and set_invar: "invar s \<Longrightarrow> invar (snd (set now k v ttl s))"
    and del_invar: "invar s \<Longrightarrow> invar (snd (del k s))"
begin

lemma get_after_set:
  assumes "invar s" and "set now k v ttl s = (True, s')" and "now \<le> later"
    and "ttl < 0 \<or> later < now + ttl * ns_per_s"
  shows "get later k s' = Some v"
proof -
  from assms(1,2) set_invar [of s now k v ttl] have "invar s'" by simp
  moreover have "\<not> is_expired later (mk_value now (VString v) ttl)"
    using assms(3,4) by (auto simp: is_expired_iff)
  ultimately show ?thesis using set_stores [OF assms(1,2)] by (simp add: get_reads)
qed

lemma get_after_set_expired:
  assumes "invar s" and "set now k v ttl s = (True, s')" and "0 \<le> ttl"
    and "now + ttl * ns_per_s \<le> later"
  shows "get later k s' = None"
proof -
  from assms(1,2) set_invar [of s now k v ttl] have "invar s'" by simp
  moreover have "0 \<le> ttl * ns_per_s" using assms(3) by (simp add: ns_per_s_def)
  then have "is_expired later (mk_value now (VString v) ttl)"
    using assms(3,4) by (simp add: is_expired_iff)
  ultimately show ?thesis using set_stores [OF assms(1,2)] by (simp add: get_reads)
qed

lemma get_other_after_set:
  assumes "invar s" and "k' \<noteq> k"
  shows "get later k' (snd (set now k v ttl s)) = get later k' s"
proof -
  obtain r s' where r: "set now k v ttl s = (r, s')" by force
  from assms(1) r set_invar [of s now k v ttl] have s': "invar s'" by simp
  have "entry s' k' = entry s k'"
    using set_stores [OF assms(1), of now k v ttl s'] set_refuses [OF assms(1), of now k v ttl s']
      r assms(2) by (cases r) auto
  with r s' assms(1) show ?thesis by (simp add: get_reads)
qed

lemma get_after_del:
  assumes "invar s"
  shows "get later k' (snd (del k s)) = (if k' = k then None else get later k' s)"
proof -
  obtain r s' where r: "del k s = (r, s')" by force
  from assms r del_invar [of s k] have s': "invar s'" by simp
  with del_removes [OF assms r] r assms show ?thesis by (simp add: get_reads)
qed

lemma exists_iff_get: "invar s \<Longrightarrow> exists now k s \<longleftrightarrow> get now k s \<noteq> None"
  by (auto simp: exists_reads get_reads split: option.splits)

end

section \<open>The shard provides the contract\<close>

definition shard_entry :: "'u shard \<Rightarrow> string \<Rightarrow> cache_aligned_value option" where
  "shard_entry s k = untombstoned (map_of (data_map s) k)"

lemma shard_set_True:
  "shard_set env now k v ttl s = (True, s') \<Longrightarrow>
     map_of (data_map s') = (map_of (data_map s))(k \<mapsto> mk_value now (VString v) ttl)"
  by (auto simp: shard_set_def Let_def data_map_acquire_for split: if_splits prod.splits sum.splits)

lemma shard_set_False: "shard_set env now k v ttl s = (False, s') \<Longrightarrow> data_map s' = data_map s"
  by (auto simp: shard_set_def Let_def data_map_acquire_for split: if_splits prod.splits sum.splits)

lemma shard_del_entry:
  "shard_del k s = (r, s') \<Longrightarrow>
     shard_entry s' = (shard_entry s)(k := None) \<and> (r \<longleftrightarrow> shard_entry s k \<noteq> None)"
  by (auto simp: shard_del_def shard_entry_def fun_eq_iff split: option.splits if_splits)

lemma shard_get_entry:
  "shard_get now k s =
     (case shard_entry s k of None \<Rightarrow> None
      | Some e \<Rightarrow> if is_expired now e then None else Some (visit_to_string (data e)))"
  by (auto simp: shard_get_def shard_entry_def untombstoned_def split: option.splits)

lemma shard_exists_entry:
  "shard_exists now k s \<longleftrightarrow>
     (case shard_entry s k of None \<Rightarrow> False | Some e \<Rightarrow> \<not> is_expired now e)"
  by (auto simp: shard_exists_def shard_entry_def untombstoned_def split: option.splits)

interpretation shard_store: kv_store "shard_set env" shard_get shard_del shard_exists
  shard_entry "shard_wf env"
proof unfold_locales
  fix s s' :: "'a shard" and now k v ttl r
  show "shard_set env now k v ttl s = (True, s') \<Longrightarrow>
      shard_entry s' = (shard_entry s)(k \<mapsto> mk_value now (VString v) ttl)"
    by (auto simp: shard_entry_def fun_eq_iff dest: shard_set_True)
  show "shard_set env now k v ttl s = (False, s') \<Longrightarrow> shard_entry s' = shard_entry s"
    by (auto simp: shard_entry_def fun_eq_iff dest: shard_set_False)
  show "shard_del k s = (r, s') \<Longrightarrow>
      shard_entry s' = (shard_entry s)(k := None) \<and> (r \<longleftrightarrow> shard_entry s k \<noteq> None)"
    by (rule shard_del_entry)
qed (auto simp: shard_get_entry shard_exists_entry shard_wf_set shard_wf_del)

section \<open>Sweeping\<close>

lemma shard_evict_entry:
  "shard_evict_expired env now k s = (r, s') \<Longrightarrow>
     map_of (data_map s') = (if r then (map_of (data_map s))(k := None) else map_of (data_map s)) \<and>
     (r \<longleftrightarrow> (\<exists>e. map_of (data_map s) k = Some e \<and> \<not> is_live now e))"
  by (auto simp: shard_evict_expired_def is_live_def split: option.splits if_splits)

section \<open>Properties\<close>

definition shard_op :: "'u pmr_env \<Rightarrow> ('u shard \<Rightarrow> 'u shard) \<Rightarrow> bool" where
  "shard_op env f \<longleftrightarrow>
     (\<exists>now k v ttl. f = (\<lambda>s. snd (shard_set env now k v ttl s))) \<or>
     (\<exists>k. f = (\<lambda>s. snd (shard_del k s))) \<or>
     (\<exists>now k. f = (\<lambda>s. snd (shard_evict_expired env now k s)))"

text \<open>
  A shard stays well formed under any sequence of sets, deletes and sweeps: keys are unique and
  the memory it has taken never exceeds the capacity its arena was built with, whatever the
  containers request and return.
\<close>

theorem shard_ops_wf:
  assumes "shard_wf env s" and "\<forall>f \<in> set fs. shard_op env f"
  shows "shard_wf env (fold (\<lambda>f s. f s) fs s) \<and>
    memory_used (fold (\<lambda>f s. f s) fs s) \<le> memory_capacity (fold (\<lambda>f s. f s) fs s)"
proof -
  have "shard_wf env (fold (\<lambda>f s. f s) fs s)"
    using assms by (induction fs arbitrary: s)
      (auto simp: shard_op_def shard_wf_set shard_wf_del shard_wf_evict)
  then show ?thesis
    by (simp add: shard_wf_def memory_used_def memory_capacity_def arena_bytes_used_def
        within_capacity_def)
qed

text \<open>A concrete allocator for the witnesses: every string takes its length, every insert 64 bytes.\<close>

definition demo_env :: "nat pmr_env" where
  "demo_env =
     \<lparr>resource_ops =
        \<lparr>allocate = (\<lambda>u b a. if unat b \<le> 100 then (Some u, Suc u) else (None, u)),
         deallocate = (\<lambda>u p b a. u)\<rparr>,
      pool = (\<lambda>_. 0),
      requests = (\<lambda>c m. case c of PmrString t \<Rightarrow> [(word_of_nat (length t), 1)]
                                | InsertOrAssign _ _ \<Rightarrow> [(64, 64)] | _ \<Rightarrow> []),
      returns = (\<lambda>c m. [])\<rparr>"

lemma demo_env_wf: "shard_wf demo_env (mk_shard demo_env 100)"
  by (rule shard_wf_mk_shard)
    (auto simp: pool_bounded_def demo_env_def word_le_nat_alt split: if_splits)

lemmas demo_simps = shard_set_def Let_def acquire_for_def release_blocks_def with_tracker_def
  mk_shard_def mk_pmr_arena_def mk_tracking_resource_def arena_is_hard_limit_reached_def
  is_hard_limit_reached_def do_allocate_def demo_env_def

theorem shard_ops_wf_witness:
  "memory_used (snd (shard_set demo_env 0 ''k'' ''v'' 5 (mk_shard demo_env 100))) = 66 \<and>
   memory_used (snd (shard_set demo_env 0 ''k'' ''v'' 5 (mk_shard demo_env 100)))
     \<le> memory_capacity (snd (shard_set demo_env 0 ''k'' ''v'' 5 (mk_shard demo_env 100)))"
proof -
  have "shard_op demo_env (\<lambda>s. snd (shard_set demo_env 0 ''k'' ''v'' 5 s))"
    unfolding shard_op_def by blast
  with shard_ops_wf [OF demo_env_wf, of "[\<lambda>s. snd (shard_set demo_env 0 ''k'' ''v'' 5 s)]"]
  show ?thesis by (simp add: memory_used_def arena_bytes_used_def demo_simps)
qed

text \<open>
  A refused SET changes nothing: neither the map nor the memory in use, also when the failure
  comes after part of the memory was taken.
\<close>

theorem shard_set_refused:
  assumes "shard_wf env s" and "shard_set env now k v ttl s = (False, s')"
  shows "data_map s' = data_map s \<and> memory_used s' = memory_used s"
proof -
  let ?t = "tracker (arena s)"
  have "bytes_used (tracker (arena s')) = bytes_used ?t"
  proof (cases "arena_is_hard_limit_reached (arena s)")
    case True
    with assms(2) show ?thesis by (simp add: shard_set_def)
  next
    case False
    with assms(2) obtain e rs t1 where "acquire (resource_ops env) rs [] ?t = (Inl e, t1)"
      and "s' = with_tracker s t1"
      by (auto simp: shard_set_def Let_def acquire_for_def split: prod.splits sum.splits)
    with acquire_Inl [of "resource_ops env" ?t rs "[]" e t1] assms(1) show ?thesis
      by (simp add: shard_wf_def word_unat_eq_iff)
  qed
  with shard_set_False [OF assms(2)] show ?thesis
    by (simp add: memory_used_def arena_bytes_used_def)
qed

theorem shard_set_refused_witness:
  "data_map (snd (shard_set demo_env 0 ''k'' ''0123456789012345678901234567890123456789'' 5
                    (mk_shard demo_env 100))) = [] \<and>
   memory_used (snd (shard_set demo_env 0 ''k'' ''0123456789012345678901234567890123456789'' 5
                    (mk_shard demo_env 100))) = 0"
proof -
  let ?s = "mk_shard demo_env 100" and ?v = "''0123456789012345678901234567890123456789''"
  have "\<not> fst (shard_set demo_env 0 ''k'' ?v 5 ?s)" by (simp add: demo_simps)
  from shard_set_refused [OF demo_env_wf pair_of_not_fst [OF this]] show ?thesis
    by (simp add: memory_used_def arena_bytes_used_def mk_shard_def mk_pmr_arena_def
        mk_tracking_resource_def)
qed

text \<open>
  Sweeping is invisible: evicting a key at time \<open>now\<close> erases the entry exactly when it is
  tombstoned or expired, and no read of any key at \<open>now\<close> or later can tell the difference.
\<close>

theorem shard_evict_invisible:
  assumes "shard_evict_expired env now k s = (r, s')"
    and "\<forall>e \<in> ran (map_of (data_map s)). created_at e \<le> now" and "now \<le> later"
  shows "(r \<longleftrightarrow> (\<exists>e. map_of (data_map s) k = Some e \<and> \<not> is_live now e)) \<and>
    shard_get later k' s' = shard_get later k' s \<and> shard_exists later k' s' = shard_exists later k' s"
proof -
  note ev = shard_evict_entry [OF assms(1)]
  have "tombstoned e \<or> is_expired later e" if "map_of (data_map s) k = Some e" "\<not> is_live now e" for e
    using that assms(2,3) is_expired_mono [of e now later] by (auto simp: is_live_def ran_def)
  with ev show ?thesis
    by (auto simp: shard_get_def shard_exists_def split: option.splits)
qed

theorem shard_evict_invisible_witness:
  "fst (shard_evict_expired demo_env 10000000000 ''k''
     (mk_shard demo_env 100\<lparr>data_map := [(''k'', mk_value 0 (VString ''v'') 5)]\<rparr>)) \<and>
   shard_get 10000000000 ''k'' (snd (shard_evict_expired demo_env 10000000000 ''k''
     (mk_shard demo_env 100\<lparr>data_map := [(''k'', mk_value 0 (VString ''v'') 5)]\<rparr>))) = None"
proof -
  let ?s = "mk_shard demo_env 100\<lparr>data_map := [(''k'', mk_value 0 (VString ''v'') 5)]\<rparr>"
  let ?e = "shard_evict_expired demo_env 10000000000 ''k'' ?s"
  have "is_expired 10000000000 (mk_value 0 (VString ''v'') 5)"
    by (simp add: is_expired_iff ns_per_s_def)
  then show ?thesis
    using shard_evict_invisible [of demo_env 10000000000 "''k''" ?s "fst ?e" "snd ?e" 10000000000 "''k''"]
    by (auto simp: is_live_def shard_get_def)
qed

end
