(* ===== verification/KV_Router.thy ===== *)
theory KV_Router
  imports KV_Hasher KV_Shard
begin

text \<open>
  The class \<^verbatim>\<open>ShardRouter\<close> of hasher.h and hasher.cpp: the array of shards and the choice of the shard
  of a key by masking its hash.  The router delegates every operation to one shard; the theory shows
  that it provides the same contract \<open>kv_store\<close> as a single shard, so clients need not know that the
  key space is split.
\<close>

unbundle bit_operations_syntax

section \<open>ShardRouter\<close>

record 'u shard_router =
  shard_count :: size_t
  shard_mask :: size_t
  shards :: "'u shard list"

text \<open>
  The constructor asserts that the count is a power of two (unless built with \<^verbatim>\<open>NDEBUG\<close>) and divides
  the memory by the count.
\<close>

datatype startup_error = AssertionFailed | DivisionByZero

definition default_shard_count :: size_t where
  "default_shard_count = 64"

definition mk_shard_router ::
  "'u pmr_env \<Rightarrow> bool \<Rightarrow> size_t \<Rightarrow> size_t \<Rightarrow> startup_error + 'u shard_router" where
  "mk_shard_router env ndebug total_memory n =
     (if \<not> ndebug \<and> (n AND (n - 1)) \<noteq> 0 then Inl AssertionFailed
      else if n = 0 then Inl DivisionByZero
      else let per_shard = total_memory div n in
           Inr \<lparr>shard_count = n, shard_mask = n - 1,
                shards = map (\<lambda>i. mk_shard env per_shard) [0..<unat n]\<rparr>)"

definition shard_index :: "'u shard_router \<Rightarrow> string \<Rightarrow> size_t" where
  "shard_index r key = ucast (murmur_hash3 key 0) AND shard_mask r"

text \<open>
  \<^verbatim>\<open>shard_for_key\<close> returns a reference; here it is the shard, and \<open>put_shard\<close> writes it back.
\<close>

definition shard_for_key :: "'u shard_router \<Rightarrow> string \<Rightarrow> 'u shard" where
  "shard_for_key r key = shards r ! unat (shard_index r key)"

definition put_shard :: "'u shard_router \<Rightarrow> string \<Rightarrow> 'u shard \<Rightarrow> 'u shard_router" where
  "put_shard r key s = r\<lparr>shards := (shards r)[unat (shard_index r key) := s]\<rparr>"

definition router_set ::
  "'u pmr_env \<Rightarrow> time_point \<Rightarrow> string \<Rightarrow> string \<Rightarrow> int64_t \<Rightarrow> 'u shard_router
     \<Rightarrow> bool \<times> 'u shard_router" where
  "router_set env now key val ttl r =
     (let (ok, s) = shard_set env now key val ttl (shard_for_key r key) in (ok, put_shard r key s))"

definition router_get :: "time_point \<Rightarrow> string \<Rightarrow> 'u shard_router \<Rightarrow> string option" where
  "router_get now key r = shard_get now key (shard_for_key r key)"

definition router_del :: "string \<Rightarrow> 'u shard_router \<Rightarrow> bool \<times> 'u shard_router" where
  "router_del key r = (let (ok, s) = shard_del key (shard_for_key r key) in (ok, put_shard r key s))"

definition router_exists :: "time_point \<Rightarrow> string \<Rightarrow> 'u shard_router \<Rightarrow> bool" where
  "router_exists now key r = shard_exists now key (shard_for_key r key)"

section \<open>Routing\<close>

lemma unat_ucast_64: "unat (ucast (h :: 32 word) :: 64 word) = unat h"
proof -
  have "unat h < 2 ^ LENGTH(32)" by (rule unsigned_less)
  then have "unat h < 2 ^ LENGTH(64)" by (rule less_trans) simp
  then show ?thesis by (simp add: unsigned_ucast_eq take_bit_nat_eq_self)
qed

definition router_wf :: "'u pmr_env \<Rightarrow> 'u shard_router \<Rightarrow> bool" where
  "router_wf env r \<longleftrightarrow>
     shard_count r \<noteq> 0 \<and> shard_mask r = shard_count r - 1 \<and>
     length (shards r) = unat (shard_count r) \<and> (\<forall>s \<in> set (shards r). shard_wf env s)"

lemma unat_and_le: "unat (a AND b) \<le> unat (b :: 64 word)"
  by (metis and.commute word_and_le1 word_le_nat_alt)

lemma unat_minus_one_less: "n \<noteq> 0 \<Longrightarrow> unat (n - 1 :: 64 word) < unat n"
  by (metis measure_unat)

lemma shard_index_in_range:
  assumes "router_wf env r"
  shows "unat (shard_index r key) < length (shards r)"
proof -
  have "unat (shard_index r key) \<le> unat (shard_count r - 1)"
    using assms by (simp add: shard_index_def router_wf_def unat_and_le)
  also have "\<dots> < unat (shard_count r)"
    using assms unat_minus_one_less by (auto simp: router_wf_def)
  finally show ?thesis using assms by (simp add: router_wf_def)
qed

lemma put_shard_simps [simp]:
  "shard_count (put_shard r k s) = shard_count r" "shard_mask (put_shard r k s) = shard_mask r"
  "shard_index (put_shard r k s) k' = shard_index r k'"
  "length (shards (put_shard r k s)) = length (shards r)"
  by (simp_all add: put_shard_def shard_index_def)

lemma shard_for_key_wf: "router_wf env r \<Longrightarrow> shard_wf env (shard_for_key r k)"
  using shard_index_in_range [of env r k] by (simp add: router_wf_def shard_for_key_def)

lemma put_shard_wf: "router_wf env r \<Longrightarrow> shard_wf env s \<Longrightarrow> router_wf env (put_shard r k s)"
  by (auto simp: router_wf_def put_shard_def dest: set_update_subset_insert [THEN subsetD])

lemma shard_for_key_put_shard:
  assumes "router_wf env r"
  shows "shard_for_key (put_shard r k s) k' =
    (if shard_index r k' = shard_index r k then s else shard_for_key r k')"
proof -
  have "shards (put_shard r k s) ! unat (shard_index r k') =
      (if unat (shard_index r k') = unat (shard_index r k) then s else shards r ! unat (shard_index r k'))"
    using shard_index_in_range [OF assms, of k] by (simp add: put_shard_def nth_list_update)
  then show ?thesis by (simp add: shard_for_key_def word_unat_eq_iff)
qed

section \<open>The router provides the contract\<close>

definition router_entry :: "'u shard_router \<Rightarrow> string \<Rightarrow> cache_aligned_value option" where
  "router_entry r k = shard_entry (shard_for_key r k) k"

text \<open>A change of one entry in the shard of a key is a change of that entry in the router.\<close>

lemma router_entry_put_shard:
  assumes "router_wf env r" and "shard_entry s = (shard_entry (shard_for_key r k))(k := x)"
  shows "router_entry (put_shard r k s) = (router_entry r)(k := x)"
proof
  fix k'
  have "shard_for_key r k' = shard_for_key r k" if "shard_index r k' = shard_index r k"
    using that by (simp add: shard_for_key_def)
  then show "router_entry (put_shard r k s) k' = ((router_entry r)(k := x)) k'"
    using assms by (auto simp: router_entry_def shard_for_key_put_shard)
qed

lemma router_entry_put_shard_same:
  assumes "router_wf env r" and "shard_entry s = shard_entry (shard_for_key r k)"
  shows "router_entry (put_shard r k s) = router_entry r"
  using router_entry_put_shard [OF assms(1), of s k "router_entry r k"] assms(2)
  by (simp add: router_entry_def fun_upd_idem)

lemma router_wf_set: "router_wf env r \<Longrightarrow> router_wf env (snd (router_set env now k v ttl r))"
  by (simp add: router_set_def case_prod_beta put_shard_wf shard_wf_set shard_for_key_wf)

lemma router_wf_del: "router_wf env r \<Longrightarrow> router_wf env (snd (router_del k r))"
  by (simp add: router_del_def case_prod_beta put_shard_wf shard_wf_del shard_for_key_wf)

interpretation router_store: kv_store "router_set env" router_get router_del router_exists
  router_entry "router_wf env"
proof unfold_locales
  fix r r' :: "'a shard_router" and now k v ttl b
  assume wf: "router_wf env r"
  note swf = shard_for_key_wf [OF wf, of k]
  show "router_entry r' = (router_entry r)(k \<mapsto> mk_value now (VString v) ttl)"
    if set: "router_set env now k v ttl r = (True, r')"
  proof -
    from set obtain s where s: "shard_set env now k v ttl (shard_for_key r k) = (True, s)"
      and r': "r' = put_shard r k s" by (auto simp: router_set_def split: prod.splits)
    show ?thesis unfolding r'
      by (rule router_entry_put_shard [OF wf shard_store.set_stores [OF swf s]])
  qed
  show "router_entry r' = router_entry r" if set: "router_set env now k v ttl r = (False, r')"
  proof -
    from set obtain s where s: "shard_set env now k v ttl (shard_for_key r k) = (False, s)"
      and r': "r' = put_shard r k s" by (auto simp: router_set_def split: prod.splits)
    show ?thesis unfolding r'
      by (rule router_entry_put_shard_same [OF wf shard_store.set_refuses [OF swf s]])
  qed
  show "router_entry r' = (router_entry r)(k := None) \<and> (b \<longleftrightarrow> router_entry r k \<noteq> None)"
    if del: "router_del k r = (b, r')"
  proof -
    from del obtain s where s: "shard_del k (shard_for_key r k) = (b, s)"
      and r': "r' = put_shard r k s" by (auto simp: router_del_def split: prod.splits)
    note d = shard_store.del_removes [OF swf s]
    show ?thesis
      using router_entry_put_shard [OF wf conjunct1 [OF d]] conjunct2 [OF d]
      by (simp add: r' router_entry_def)
  qed
qed (auto simp: router_get_def router_exists_def router_entry_def shard_get_entry shard_exists_entry
    router_wf_set router_wf_del)

section \<open>Shard counts\<close>

lemma and_minus_one_power: "(2 ^ k :: 64 word) AND (2 ^ k - 1) = 0"
proof -
  have "(2 ^ k :: 64 word) AND mask k = take_bit k (2 ^ k)" by (simp add: take_bit_eq_mask)
  then show ?thesis by (simp add: mask_eq_exp_minus_1 take_bit_eq_mod)
qed

lemma bit_top: "2 ^ k \<le> m \<Longrightarrow> m < 2 ^ (k + 1) \<Longrightarrow> bit (m :: nat) k"
proof -
  assume "2 ^ k \<le> m" and "m < 2 ^ (k + 1)"
  then have "m div 2 ^ k = 1" by (intro div_nat_eqI) simp_all
  then show ?thesis by (simp add: bit_iff_odd)
qed

lemma power_if_and_minus_one:
  fixes n :: "64 word"
  assumes "n \<noteq> 0" and "n AND (n - 1) = 0"
  shows "\<exists>k < 64. n = 2 ^ k"
proof -
  from assms(1) have pos: "0 < unat n" by (simp add: unat_gt_0)
  then obtain k where k: "2 ^ k \<le> unat n" "unat n < 2 ^ (k + 1)"
    using ex_power_ivl1 [of 2 "unat n"] by auto
  have "(2 :: nat) ^ k < 2 ^ 64"
    by (rule le_less_trans [OF k(1)]) (rule unat_less_64)
  then have k64: "k < 64" by (rule power_less_imp_less_exp [rotated]) simp
  have "unat n = 2 ^ k"
  proof (rule ccontr)
    assume "unat n \<noteq> 2 ^ k"
    with k have "2 ^ k \<le> unat n - 1" "unat n - 1 < 2 ^ (k + 1)" by simp_all
    with k have b: "bit (unat n) k" "bit (unat n - 1) k" by (simp_all only: bit_top)
    have "unat (n - 1) = unat n - 1" using assms(1) by (simp add: unat_minus_one)
    with b have "bit n k \<and> bit (n - 1) k" by (metis bit_unsigned_iff)
    then have "bit (n AND (n - 1)) k" by (simp add: bit_and_iff)
    with assms(2) show False by simp
  qed
  then have "word_of_nat (unat n) = (word_of_nat (2 ^ k) :: 64 word)" by simp
  with k64 show ?thesis by auto
qed

lemma mk_shard_router_wf:
  assumes "mk_shard_router env ndebug mem n = Inr r"
    and "pool_bounded (resource_ops env) (mem div n)" and "unat mem < 2 ^ 63"
  shows "router_wf env r"
proof -
  have "unat (mem div n) \<le> unat mem" by (simp add: unat_div)
  with assms(2,3) have "shard_wf env (mk_shard env (mem div n))" by (intro shard_wf_mk_shard) simp_all
  with assms(1) show ?thesis
    by (auto simp: mk_shard_router_def router_wf_def split: if_splits)
qed

section \<open>Properties\<close>

text \<open>
  In a debug build the constructor succeeds exactly for the powers of two that fit a
  \<^verbatim>\<open>size_t\<close>: the assertion alone also lets zero through, which then fails in the division.
\<close>

theorem router_construction:
  "((\<exists>r. mk_shard_router env False mem n = Inr r) \<longleftrightarrow> (\<exists>k < 64. n = 2 ^ k)) \<and>
   mk_shard_router env False mem 0 = Inl DivisionByZero"
proof
  have "n AND (n - 1) = 0 \<and> n \<noteq> 0" if "k < 64" "n = 2 ^ k" for k
    using that by (simp add: and_minus_one_power)
  then show "(\<exists>r. mk_shard_router env False mem n = Inr r) \<longleftrightarrow> (\<exists>k < 64. n = 2 ^ k)"
    using power_if_and_minus_one [of n] by (auto simp: mk_shard_router_def Let_def)
  show "mk_shard_router env False mem 0 = Inl DivisionByZero"
    by (simp add: mk_shard_router_def)
qed

text \<open>
  C22.  Every key is routed to an existing shard, whatever count the constructor accepted, and for
  a power of two the mask computes the hash modulo the number of shards.
\<close>

theorem routing_in_range:
  assumes "mk_shard_router env ndebug mem n = Inr r"
  shows "unat (shard_index r key) < length (shards r) \<and>
    (\<forall>k < 64. n = 2 ^ k \<longrightarrow> unat (shard_index r key) = unat (murmur_hash3 key 0) mod 2 ^ k)"
proof
  from assms have n: "n \<noteq> 0" "shard_mask r = n - 1" "length (shards r) = unat n"
    by (auto simp: mk_shard_router_def Let_def split: if_splits)
  show "unat (shard_index r key) < length (shards r)"
    using unat_and_le [of _ "n - 1"] unat_minus_one_less [OF n(1)] n
    by (metis le_less_trans shard_index_def)
  show "\<forall>k < 64. n = 2 ^ k \<longrightarrow> unat (shard_index r key) = unat (murmur_hash3 key 0) mod 2 ^ k"
  proof (intro allI impI)
    fix k :: nat assume "k < 64" and "n = 2 ^ k"
    then have "shard_index r key = take_bit k (ucast (murmur_hash3 key 0))"
      using n(2) by (simp add: shard_index_def take_bit_eq_mask mask_eq_exp_minus_1)
    then have "unat (shard_index r key) = take_bit k (unat (ucast (murmur_hash3 key 0) :: 64 word))"
      by (simp only: unsigned_take_bit_eq)
    then show "unat (shard_index r key) = unat (murmur_hash3 key 0) mod 2 ^ k"
      by (simp add: unat_ucast_64 take_bit_eq_mod)
  qed
qed

text \<open>A router of two shards over the example allocator, for the witnesses.\<close>

definition demo_router :: "nat shard_router" where
  "demo_router =
     \<lparr>shard_count = 2, shard_mask = 1, shards = [mk_shard demo_env 100, mk_shard demo_env 100]\<rparr>"

lemma demo_router_built: "mk_shard_router demo_env False 200 2 = Inr demo_router"
  by (simp add: mk_shard_router_def demo_router_def upt_conv_Cons)

lemma demo_router_wf: "router_wf demo_env demo_router"
  using demo_env_wf by (simp add: router_wf_def demo_router_def)

lemmas demo_hash_simps = murmur_hash3_eq_ref murmur_ref_def byte_of_def le32_def block_step_def
  mix_k1_def fmix_def Let_def

theorem routing_in_range_witness:
  "unat (shard_index demo_router ''hello'') < 2 \<and>
   unat (shard_index demo_router ''hello'') = unat (murmur_hash3 ''hello'' 0) mod 2 \<and>
   murmur_hash3 ''hello'' 0 = 0x248bfa47"
proof -
  note rr = routing_in_range [OF demo_router_built, of "''hello''"]
  from conjunct1 [OF rr] have "unat (shard_index demo_router ''hello'') < length (shards demo_router)" .
  moreover from spec [OF conjunct2 [OF rr], of 1]
  have "unat (shard_index demo_router ''hello'') = unat (murmur_hash3 ''hello'' 0) mod 2" by simp
  moreover have "murmur_hash3 ''hello'' 0 = 0x248bfa47" by (simp add: demo_hash_simps)
  ultimately show ?thesis by (simp add: demo_router_def)
qed

text \<open>
  The memory limit is split without excess: the capacities of the shards add up to at most the
  configured total, and to all of it when the count divides it.
\<close>

theorem memory_split:
  assumes "mk_shard_router env ndebug mem n = Inr r"
  shows "(\<Sum>s \<leftarrow> shards r. unat (memory_capacity s)) = unat n * (unat mem div unat n) \<and>
    (\<Sum>s \<leftarrow> shards r. unat (memory_capacity s)) \<le> unat mem"
proof -
  from assms have "shards r = map (\<lambda>i. mk_shard env (mem div n)) [0..<unat n]"
    by (auto simp: mk_shard_router_def Let_def split: if_splits)
  then have "(\<Sum>s \<leftarrow> shards r. unat (memory_capacity s)) = unat n * (unat mem div unat n)"
    by (simp add: comp_def mk_shard_def mk_pmr_arena_def memory_capacity_def unat_div
        sum_list_triv)
  then show ?thesis by simp
qed

theorem memory_split_witness:
  "(\<Sum>s \<leftarrow> shards demo_router. unat (memory_capacity s)) = 200"
  using memory_split [OF demo_router_built] by simp

text \<open>
  Read your writes across shards: after a successful SET the key reads back the value until its
  time to live has passed, and no other key's reading changes, wherever the two keys are stored.
\<close>

theorem router_read_your_writes:
  assumes "router_wf env r" and "router_set env now k v ttl r = (True, r')" and "now \<le> later"
  shows "router_get later k r' = (if ttl < 0 \<or> later < now + ttl * ns_per_s then Some v else None) \<and>
    (\<forall>k'. k' \<noteq> k \<longrightarrow> router_get later k' r' = router_get later k' r)"
proof -
  note later = router_store.get_after_set [OF assms]
    router_store.get_after_set_expired [OF assms(1,2)]
  have "router_get later k' r' = router_get later k' r" if "k' \<noteq> k" for k'
    using router_store.get_other_after_set [OF assms(1) that, of later now v ttl] assms(2) by simp
  with later show ?thesis by (auto simp: not_less)
qed

theorem router_read_your_writes_witness:
  "router_get 4000000000 ''k'' (snd (router_set demo_env 0 ''k'' ''v'' 5 demo_router)) = Some ''v'' \<and>
   router_get 4000000000 ''other'' (snd (router_set demo_env 0 ''k'' ''v'' 5 demo_router)) =
     router_get 4000000000 ''other'' demo_router"
proof -
  have "fst (router_set demo_env 0 ''k'' ''v'' 5 demo_router)"
    by (simp add: router_set_def case_prod_beta shard_for_key_def shard_index_def demo_hash_simps
        demo_router_def demo_simps)
  from router_read_your_writes [OF demo_router_wf pair_of_fst [OF this], of 4000000000]
  show ?thesis by (simp add: ns_per_s_def)
qed

text \<open>
  DEL removes the key for every reader at every time, reports whether there was anything to
  remove, and leaves the other keys alone; EXISTS agrees with GET.
\<close>

theorem router_del_removes:
  assumes "router_wf env r" and "router_del k r = (b, r')"
  shows "router_get now k' r' = (if k' = k then None else router_get now k' r) \<and>
    (b \<longleftrightarrow> router_entry r k \<noteq> None) \<and> \<not> fst (router_del k r') \<and>
    (router_exists now k' r' \<longleftrightarrow> router_get now k' r' \<noteq> None)"
proof -
  have r': "r' = snd (router_del k r)" and wf': "router_wf env r'"
    using assms router_store.del_invar [of env r k] by simp_all
  have "router_entry r' k = None" using router_store.del_removes [OF assms] by simp
  then have "\<not> fst (router_del k r')"
    using router_store.del_removes [OF wf', of k "fst (router_del k r')" "snd (router_del k r')"] by simp
  with router_store.get_after_del [OF assms(1), of now k' k] router_store.del_removes [OF assms]
    router_store.exists_iff_get [OF wf'] show ?thesis by (simp add: r')
qed

theorem router_del_removes_witness:
  "\<not> fst (router_del ''k'' demo_router) \<and> router_get 0 ''k'' (snd (router_del ''k'' demo_router)) = None"
proof -
  have "router_del ''k'' demo_router
      = (fst (router_del ''k'' demo_router), snd (router_del ''k'' demo_router))" by simp
  from router_del_removes [OF demo_router_wf this, of 0 "''k''"]
  have "(fst (router_del ''k'' demo_router) \<longleftrightarrow> router_entry demo_router ''k'' \<noteq> None) \<and>
      router_get 0 ''k'' (snd (router_del ''k'' demo_router)) = None" by simp
  moreover have "router_entry demo_router ''k'' = None"
    by (simp add: router_entry_def shard_entry_def shard_for_key_def shard_index_def
        demo_hash_simps demo_router_def mk_shard_def)
  ultimately show ?thesis by simp
qed

end
