(* ===== verification/KV_Aof.thy ===== *)
theory KV_Aof
  imports KV_Text
begin

text \<open>
  aof_logger.h and aof_logger.cpp: the append-only log with two buffers.  The operations are
  functions on the logger; the flusher thread, the callers of \<^verbatim>\<open>log\<close> and the thread that shuts the
  logger down are a step relation with one rule per atomic action.  The theorems show that no
  interleaving loses, repeats or reorders an accepted command, and that a shutdown can be completed.
\<close>

section \<open>AofLogger\<close>

text \<open>
  The two buffers are objects and \<^verbatim>\<open>active_buffer_\<close>, \<^verbatim>\<open>flush_buffer_\<close> are pointers to them.
  \<open>written\<close> is what has been written to the stream so far.
\<close>

datatype buffer_id = BufferA | BufferB

record aof_logger =
  filepath :: string
  written :: string
  file_open :: bool
  buffer_a :: "string list"
  buffer_b :: "string list"
  active_buffer :: buffer_id
  flush_buffer :: buffer_id
  running :: bool
  is_replaying :: bool

datatype aof_error = OpenFailed string

definition mk_aof_logger :: "string \<Rightarrow> string \<Rightarrow> aof_logger" where
  "mk_aof_logger path contents =
     \<lparr>filepath = path, written = contents, file_open = False, buffer_a = [], buffer_b = [],
      active_buffer = BufferA, flush_buffer = BufferB, running = False, is_replaying = False\<rparr>"

fun buffer_get :: "buffer_id \<Rightarrow> aof_logger \<Rightarrow> string list" where
  "buffer_get BufferA l = buffer_a l"
| "buffer_get BufferB l = buffer_b l"

fun buffer_put :: "buffer_id \<Rightarrow> string list \<Rightarrow> aof_logger \<Rightarrow> aof_logger" where
  "buffer_put BufferA b l = l\<lparr>buffer_a := b\<rparr>"
| "buffer_put BufferB b l = l\<lparr>buffer_b := b\<rparr>"

definition aof_log :: "string \<Rightarrow> aof_logger \<Rightarrow> aof_logger" where
  "aof_log command l =
     (if running l
      then buffer_put (active_buffer l) (buffer_get (active_buffer l) l @ [command]) l else l)"

text \<open>\<open>can_open\<close> is whether the operating system opens the file for appending.\<close>

definition aof_start :: "bool \<Rightarrow> aof_logger \<Rightarrow> aof_error + aof_logger" where
  "aof_start can_open l =
     (if \<not> can_open then Inl (OpenFailed (''Failed to open AOF file: '' @ filepath l))
      else Inr (l\<lparr>file_open := True, running := True\<rparr>))"

definition aof_lines :: "string list \<Rightarrow> string" where
  "aof_lines cs = concat (map (\<lambda>c. c @ [newline]) cs)"

definition write_buffer_to_disk :: "buffer_id \<Rightarrow> aof_logger \<Rightarrow> aof_logger" where
  "write_buffer_to_disk b l =
     (if buffer_get b l = [] then l
      else buffer_put b [] (l\<lparr>written := written l @ aof_lines (buffer_get b l)\<rparr>))"

definition aof_flush :: "aof_logger \<Rightarrow> aof_logger" where
  "aof_flush l = write_buffer_to_disk (active_buffer l) l"

definition swap_buffers :: "aof_logger \<Rightarrow> aof_logger" where
  "swap_buffers l = l\<lparr>active_buffer := flush_buffer l, flush_buffer := active_buffer l\<rparr>"

definition set_replaying :: "bool \<Rightarrow> aof_logger \<Rightarrow> aof_logger" where
  "set_replaying v l = l\<lparr>is_replaying := v\<rparr>"

section \<open>The threads\<close>

text \<open>
  The flusher of \<^verbatim>\<open>flush_loop\<close> is about to test \<^verbatim>\<open>running_\<close>, waiting, about to swap, about to write
  the flush buffer (without the lock), or has left the loop.  \<^verbatim>\<open>shutdown\<close> clears \<^verbatim>\<open>running_\<close>, joins
  the flusher, flushes and closes the file.  \<open>accepted\<close> is the history of the commands that a call
  of \<^verbatim>\<open>log\<close> has taken.
\<close>

datatype flusher_pc = LoopTest | Waiting | Swapping | Writing | LoopDone
datatype shutdown_pc = NotShut | Joining | Flushed | Closed

record aof_system =
  logger :: aof_logger
  flusher :: flusher_pc
  shutter :: shutdown_pc
  accepted :: "string list"

text \<open>The flusher thread and the thread that shuts the logger down.\<close>

inductive log_thread_step :: "aof_system \<Rightarrow> aof_system \<Rightarrow> bool" where
  loop_on: "flusher s = LoopTest \<Longrightarrow> running (logger s) \<Longrightarrow> log_thread_step s (s\<lparr>flusher := Waiting\<rparr>)"
| loop_off: "flusher s = LoopTest \<Longrightarrow> \<not> running (logger s) \<Longrightarrow> log_thread_step s (s\<lparr>flusher := LoopDone\<rparr>)"
| wake: "flusher s = Waiting \<Longrightarrow> log_thread_step s (s\<lparr>flusher := Swapping\<rparr>)"
| swap: "flusher s = Swapping \<Longrightarrow>
     log_thread_step s (s\<lparr>logger := swap_buffers (logger s), flusher := Writing\<rparr>)"
| write_out: "flusher s = Writing \<Longrightarrow>
     log_thread_step s (s\<lparr>logger := write_buffer_to_disk (flush_buffer (logger s)) (logger s),
                          flusher := LoopTest\<rparr>)"
| shut: "shutter s = NotShut \<Longrightarrow> running (logger s) \<Longrightarrow>
     log_thread_step s (s\<lparr>logger := (logger s)\<lparr>running := False\<rparr>, shutter := Joining\<rparr>)"
| join: "shutter s = Joining \<Longrightarrow> flusher s = LoopDone \<Longrightarrow>
     log_thread_step s (s\<lparr>logger := aof_flush (logger s), shutter := Flushed\<rparr>)"
| close: "shutter s = Flushed \<Longrightarrow>
     log_thread_step s (s\<lparr>logger := (logger s)\<lparr>file_open := False\<rparr>, shutter := Closed\<rparr>)"

text \<open>The logger with its callers.\<close>

inductive aof_step :: "aof_system \<Rightarrow> aof_system \<Rightarrow> bool" where
  log: "aof_step s (s\<lparr>logger := aof_log c (logger s),
                      accepted := (if running (logger s) then accepted s @ [c] else accepted s)\<rparr>)"
| thread: "log_thread_step s t \<Longrightarrow> aof_step s t"

definition aof_started :: "string \<Rightarrow> aof_system \<Rightarrow> bool" where
  "aof_started contents s \<longleftrightarrow>
     (\<exists>path l. aof_start True (mk_aof_logger path contents) = Inr l \<and>
        s = \<lparr>logger = l, flusher = LoopTest, shutter = NotShut, accepted = []\<rparr>)"

text \<open>
  The invariant: the buffers are distinct objects; file, flush buffer and active buffer in this
  order hold exactly the accepted commands; the flush buffer is empty except when it is about to be
  written; nothing is left after the final flush.
\<close>

definition aof_inv :: "string \<Rightarrow> aof_system \<Rightarrow> bool" where
  "aof_inv contents s \<longleftrightarrow>
     active_buffer (logger s) \<noteq> flush_buffer (logger s) \<and>
     written (logger s) @ aof_lines (buffer_get (flush_buffer (logger s)) (logger s))
        @ aof_lines (buffer_get (active_buffer (logger s)) (logger s))
       = contents @ aof_lines (accepted s) \<and>
     (flusher s \<noteq> Writing \<longrightarrow> buffer_get (flush_buffer (logger s)) (logger s) = []) \<and>
     (flusher s = LoopDone \<longrightarrow> \<not> running (logger s)) \<and>
     (shutter s = NotShut \<longleftrightarrow> running (logger s)) \<and>
     (shutter s \<in> {Flushed, Closed} \<longrightarrow>
        flusher s = LoopDone \<and> buffer_get (active_buffer (logger s)) (logger s) = [])"

lemma aof_lines_simps [simp]:
  "aof_lines [] = []" "aof_lines (cs @ ds) = aof_lines cs @ aof_lines ds"
  by (simp_all add: aof_lines_def)

lemma buffer_get_put [simp]:
  "buffer_get b (buffer_put b x l) = x"
  "b \<noteq> c \<Longrightarrow> buffer_get b (buffer_put c x l) = buffer_get b l"
  by (cases b; cases c; simp)+

lemma buffer_put_simps [simp]:
  "written (buffer_put b x l) = written l" "running (buffer_put b x l) = running l"
  "active_buffer (buffer_put b x l) = active_buffer l"
  "flush_buffer (buffer_put b x l) = flush_buffer l"
  "is_replaying (buffer_put b x l) = is_replaying l"
  by (cases b; simp)+

lemma buffer_get_update [simp]:
  "buffer_get b (l\<lparr>written := f\<rparr>) = buffer_get b l"
  "buffer_get b (l\<lparr>running := r\<rparr>) = buffer_get b l"
  "buffer_get b (l\<lparr>file_open := r\<rparr>) = buffer_get b l"
  "buffer_get b (l\<lparr>active_buffer := x\<rparr>) = buffer_get b l"
  "buffer_get b (l\<lparr>flush_buffer := x\<rparr>) = buffer_get b l"
  by (cases b; simp)+

lemma write_buffer_to_disk_simps [simp]:
  "written (write_buffer_to_disk b l) = written l @ aof_lines (buffer_get b l)"
  "buffer_get b (write_buffer_to_disk b l) = []"
  "c \<noteq> b \<Longrightarrow> buffer_get c (write_buffer_to_disk b l) = buffer_get c l"
  "active_buffer (write_buffer_to_disk b l) = active_buffer l"
  "flush_buffer (write_buffer_to_disk b l) = flush_buffer l"
  "running (write_buffer_to_disk b l) = running l"
  by (simp_all add: write_buffer_to_disk_def)

lemma swap_buffers_simps [simp]:
  "written (swap_buffers l) = written l" "running (swap_buffers l) = running l"
  "active_buffer (swap_buffers l) = flush_buffer l" "flush_buffer (swap_buffers l) = active_buffer l"
  "buffer_get b (swap_buffers l) = buffer_get b l"
  by (simp_all add: swap_buffers_def)

lemma aof_log_simps [simp]:
  "written (aof_log c l) = written l" "running (aof_log c l) = running l"
  "active_buffer (aof_log c l) = active_buffer l" "flush_buffer (aof_log c l) = flush_buffer l"
  "is_replaying (aof_log c l) = is_replaying l"
  "buffer_get (active_buffer l) (aof_log c l)
     = buffer_get (active_buffer l) l @ (if running l then [c] else [])"
  "b \<noteq> active_buffer l \<Longrightarrow> buffer_get b (aof_log c l) = buffer_get b l"
  by (simp_all add: aof_log_def)

lemma log_thread_step_inv:
  assumes "aof_inv contents s" and "log_thread_step s t"
  shows "aof_inv contents t"
  using assms(2,1)
proof (induction rule: log_thread_step.induct)
  case (write_out s)
  then have "active_buffer (logger s) \<noteq> flush_buffer (logger s)" by (simp add: aof_inv_def)
  with write_out show ?case by (auto simp: aof_inv_def)
next
  case (join s)
  then have "flush_buffer (logger s) \<noteq> active_buffer (logger s)" by (auto simp: aof_inv_def)
  with join show ?case by (auto simp: aof_inv_def aof_flush_def)
qed (auto simp: aof_inv_def)

lemma aof_log_inv:
  assumes "aof_inv contents s"
  shows "aof_inv contents (s\<lparr>logger := aof_log c (logger s),
    accepted := (if running (logger s) then accepted s @ [c] else accepted s)\<rparr>)"
proof -
  have "flush_buffer (logger s) \<noteq> active_buffer (logger s)" using assms by (auto simp: aof_inv_def)
  with assms show ?thesis by (auto simp: aof_inv_def simp flip: append_assoc)
qed

lemma aof_step_inv:
  assumes "aof_inv contents s" and "aof_step s t"
  shows "aof_inv contents t"
  using assms(2,1)
proof (induction rule: aof_step.induct)
  case (log s c)
  then show ?case by (rule aof_log_inv)
next
  case (thread s t)
  then show ?case by (metis log_thread_step_inv)
qed

interpretation aof: step_invariant "aof_started contents" aof_step "aof_inv contents"
proof unfold_locales
  fix s t
  show "aof_started contents s \<Longrightarrow> aof_inv contents s"
    by (auto simp: aof_started_def aof_start_def mk_aof_logger_def aof_inv_def)
  show "aof_inv contents s \<Longrightarrow> aof_step s t \<Longrightarrow> aof_inv contents t" by (rule aof_step_inv)
qed

lemma log_thread_step_frame:
  "log_thread_step s t \<Longrightarrow> accepted t = accepted s \<and> is_replaying (logger t) = is_replaying (logger s)"
  by (induction rule: log_thread_step.induct)
    (auto simp: swap_buffers_def write_buffer_to_disk_def aof_flush_def)

lemma log_threads_run: "log_thread_step\<^sup>*\<^sup>* s t \<Longrightarrow> aof_step\<^sup>*\<^sup>* s t \<and> accepted t = accepted s"
  by (induction rule: rtranclp_induct)
    (auto dest: log_thread_step_frame intro: rtranclp.rtrancl_into_rtrancl aof_step.thread)

section \<open>Shutting down\<close>

text \<open>
  The threads of a logger whose \<^verbatim>\<open>running_\<close> has been cleared drain: the flusher goes round its loop at
  most once more, then the join returns and the file is closed.
\<close>

fun flusher_rank :: "flusher_pc \<Rightarrow> nat" where
  "flusher_rank LoopDone = 0"
| "flusher_rank LoopTest = 1"
| "flusher_rank Writing = 2"
| "flusher_rank Swapping = 3"
| "flusher_rank Waiting = 4"

fun shutter_rank :: "shutdown_pc \<Rightarrow> nat" where
  "shutter_rank Closed = 0"
| "shutter_rank Flushed = 1"
| "shutter_rank Joining = 2"
| "shutter_rank NotShut = 3"

definition shutting :: "string \<Rightarrow> aof_system \<Rightarrow> bool" where
  "shutting contents s \<longleftrightarrow> aof_inv contents s \<and> shutter s \<noteq> NotShut"

lemma shutting_not_running: "shutting contents s \<Longrightarrow> \<not> running (logger s)"
  by (auto simp: shutting_def aof_inv_def)

lemma shutting_flushes:
  assumes "shutting contents s" and "flusher s \<noteq> LoopDone"
  shows "\<exists>t. log_thread_step s t \<and> flusher_rank (flusher t) < flusher_rank (flusher s) \<and> shutter t = shutter s"
  using assms shutting_not_running [OF assms(1)]
  by (cases "flusher s")
    (auto dest: log_thread_step.loop_off log_thread_step.wake log_thread_step.swap log_thread_step.write_out)

interpretation logger_threads: draining_system "shutting contents" log_thread_step "shutting contents"
  "\<lambda>s. flusher_rank (flusher s) + shutter_rank (shutter s)" "\<lambda>s. shutter s = Closed"
proof unfold_locales
  fix s t
  show "shutting contents s \<Longrightarrow> log_thread_step s t \<Longrightarrow> shutting contents t"
    using log_thread_step_inv [of contents s t] by (auto simp: shutting_def elim: log_thread_step.cases)
  assume s: "shutting contents s" "shutter s \<noteq> Closed"
  show "\<exists>t. log_thread_step s t \<and> flusher_rank (flusher t) + shutter_rank (shutter t) < flusher_rank (flusher s) + shutter_rank (shutter s)"
  proof (cases "flusher s = LoopDone")
    case False
    from shutting_flushes [OF s(1) this] show ?thesis by auto
  next
    case True
    with s show ?thesis
      by (cases "shutter s") (auto simp: shutting_def dest: log_thread_step.join log_thread_step.close)
  qed
qed

text \<open>So the file can be closed from every state, once nobody calls \<^verbatim>\<open>log\<close> any more.\<close>

lemma logger_shuts:
  assumes "aof_inv contents s"
  shows "\<exists>t. log_thread_step\<^sup>*\<^sup>* s t \<and> shutter t = Closed"
proof (cases "shutter s = NotShut")
  case True
  let ?s = "s\<lparr>logger := (logger s)\<lparr>running := False\<rparr>, shutter := Joining\<rparr>"
  have s: "log_thread_step s ?s" using True assms by (intro log_thread_step.shut) (simp_all add: aof_inv_def)
  have "shutting contents ?s" using log_thread_step_inv [OF assms s] by (simp add: shutting_def)
  from logger_threads.drains [OF this] s show ?thesis by (metis converse_rtranclp_into_rtranclp)
qed (use assms logger_threads.drains [of contents s] in \<open>simp add: shutting_def\<close>)

section \<open>Properties\<close>

text \<open>
  C11.  However the callers, the flusher and the shutdown interleave, the file together with the two
  buffers holds exactly the accepted commands, in the order in which they were accepted; and once
  the logger is closed the file alone does.
\<close>

theorem aof_no_loss:
  assumes "aof_started contents s" and "aof_step\<^sup>*\<^sup>* s t"
  shows "written (logger t) @ aof_lines (buffer_get (flush_buffer (logger t)) (logger t))
      @ aof_lines (buffer_get (active_buffer (logger t)) (logger t))
      = contents @ aof_lines (accepted t) \<and>
    (shutter t = Closed \<longrightarrow> written (logger t) = contents @ aof_lines (accepted t))"
  using aof.reachable_inv [OF assms] by (auto simp: aof_inv_def)

theorem aof_no_loss_witness:
  "written (logger \<lparr>logger = \<lparr>filepath = ''f'', written = [], file_open = True, buffer_a = [''SET a 1 5''],
       buffer_b = [], active_buffer = BufferA, flush_buffer = BufferB, running = True,
       is_replaying = False\<rparr>, flusher = LoopTest, shutter = NotShut, accepted = [''SET a 1 5'']\<rparr>)
     @ aof_lines [] @ aof_lines [''SET a 1 5''] = [] @ aof_lines [''SET a 1 5'']"
proof -
  let ?l = "\<lparr>filepath = ''f'', written = [], file_open = True, buffer_a = [], buffer_b = [],
    active_buffer = BufferA, flush_buffer = BufferB, running = True, is_replaying = False\<rparr>"
  let ?s = "\<lparr>logger = ?l, flusher = LoopTest, shutter = NotShut, accepted = []\<rparr>"
  have "aof_started [] ?s"
    by (auto simp: aof_started_def aof_start_def mk_aof_logger_def)
  from aof_no_loss [OF this r_into_rtranclp [of aof_step, OF aof_step.log [of ?s "''SET a 1 5''"]]]
  show ?thesis by (simp add: aof_log_def)
qed

text \<open>
  Shutting down always can be completed: from every reachable state in which \<^verbatim>\<open>shutdown\<close> has
  cleared \<^verbatim>\<open>running_\<close>, the flusher leaves its loop, the join returns and the file is closed, with every
  command accepted before the shutdown in it.
\<close>

theorem aof_shutdown_completes:
  assumes "aof_started contents s" and "aof_step\<^sup>*\<^sup>* s t" and "shutter t = Joining"
  shows "\<exists>u. aof_step\<^sup>*\<^sup>* t u \<and> shutter u = Closed \<and>
    written (logger u) = contents @ aof_lines (accepted t)"
proof -
  from logger_shuts [OF aof.reachable_inv [OF assms(1,2)]] log_threads_run
  obtain u where u: "aof_step\<^sup>*\<^sup>* t u" "shutter u = Closed" "accepted u = accepted t" by blast
  from aof.reachable_inv [OF assms(1) rtranclp_trans [OF assms(2) u(1)]] u show ?thesis
    by (intro exI [of _ u]) (auto simp: aof_inv_def)
qed

theorem aof_shutdown_completes_witness:
  "\<exists>u :: aof_system. shutter u = Closed \<and> written (logger u) = []"
proof -
  let ?l = "\<lparr>filepath = ''f'', written = [], file_open = True, buffer_a = [], buffer_b = [],
    active_buffer = BufferA, flush_buffer = BufferB, running = True, is_replaying = False\<rparr>"
  let ?s = "\<lparr>logger = ?l, flusher = LoopTest, shutter = NotShut, accepted = []\<rparr>"
  have st: "aof_started [] ?s"
    by (auto simp: aof_started_def aof_start_def mk_aof_logger_def)
  have "aof_step ?s (?s\<lparr>logger := ?l\<lparr>running := False\<rparr>, shutter := Joining\<rparr>)"
    using aof_step.thread [OF log_thread_step.shut [of ?s]] by simp
  from aof_shutdown_completes [OF st r_into_rtranclp [of aof_step, OF this]] show ?thesis
    by (auto simp: aof_lines_def)
qed

end
