(* ===== verification/KV_Command.thy ===== *)
theory KV_Command
  imports KV_Router KV_Aof
begin

text \<open>
  command.h and command.cpp: the nine commands, their execution against the router and the log, their
  text form and the factory that parses tokens.  A command object is a value of a datatype;
  \<^verbatim>\<open>execute\<close> reads the clock once and returns the reply with the new router and log.  The theorems
  show that parsing inverts serialization, that every command changes at most its own key, and that
  what is logged is exactly what changed the store.
\<close>

section \<open>The command objects\<close>

datatype command =
    SetCommand string string int64_t
  | GetCommand string
  | DelCommand string
  | ExistsCommand string
  | PingCommand
  | LPushCommand string string int64_t
  | LRangeCommand string int64_t int64_t
  | HSetCommand string string string int64_t
  | HGetCommand string string

fun is_write :: "command \<Rightarrow> bool" where
  "is_write (SetCommand _ _ _) = True"
| "is_write (DelCommand _) = True"
| "is_write (LPushCommand _ _ _) = True"
| "is_write (HSetCommand _ _ _ _) = True"
| "is_write _ = False"

fun serialize :: "command \<Rightarrow> string" where
  "serialize (SetCommand k v ttl) = ''SET '' @ k @ '' '' @ v @ '' '' @ to_string ttl"
| "serialize (GetCommand k) = ''GET '' @ k"
| "serialize (DelCommand k) = ''DEL '' @ k"
| "serialize (ExistsCommand k) = ''EXISTS '' @ k"
| "serialize PingCommand = ''PING''"
| "serialize (LPushCommand k v ttl) = ''LPUSH '' @ k @ '' '' @ v"
| "serialize (LRangeCommand k i j) = ''LRANGE '' @ k @ '' '' @ to_string i @ '' '' @ to_string j"
| "serialize (HSetCommand k f v ttl) = ''HSET '' @ k @ '' '' @ f @ '' '' @ v"
| "serialize (HGetCommand k f) = ''HGET '' @ k @ '' '' @ f"

section \<open>CommandFactory\<close>

definition parse :: "string list \<Rightarrow> command option" where
  "parse tokens =
     (if tokens = [] then None else
      let cmd = to_upper (tokens ! 0); n = length tokens in
      if cmd = ''SET'' \<and> n \<ge> 3 then
        let ttl = (if n \<ge> 4 then (case stoll (tokens ! 3) of Inr t \<Rightarrow> t | Inl _ \<Rightarrow> default_ttl)
                   else default_ttl)
        in Some (SetCommand (tokens ! 1) (tokens ! 2) ttl)
      else if cmd = ''GET'' \<and> n \<ge> 2 then Some (GetCommand (tokens ! 1))
      else if cmd = ''DEL'' \<and> n \<ge> 2 then Some (DelCommand (tokens ! 1))
      else if cmd = ''EXISTS'' \<and> n \<ge> 2 then Some (ExistsCommand (tokens ! 1))
      else if cmd = ''PING'' then Some PingCommand
      else if cmd = ''LPUSH'' \<and> n \<ge> 3 then Some (LPushCommand (tokens ! 1) (tokens ! 2) default_ttl)
      else if cmd = ''LRANGE'' \<and> n \<ge> 4 then
        (case (stoll (tokens ! 2), stoll (tokens ! 3)) of
           (Inr i, Inr j) \<Rightarrow> Some (LRangeCommand (tokens ! 1) i j)
         | _ \<Rightarrow> None)
      else if cmd = ''HSET'' \<and> n \<ge> 4 then
        Some (HSetCommand (tokens ! 1) (tokens ! 2) (tokens ! 3) default_ttl)
      else if cmd = ''HGET'' \<and> n \<ge> 3 then Some (HGetCommand (tokens ! 1) (tokens ! 2))
      else None)"

section \<open>Replies\<close>

definition bulk :: "string \<Rightarrow> string" where
  "bulk v = ''$'' @ to_string (int (length v)) @ crlf @ v @ crlf"

definition nil_bulk :: string where
  "nil_bulk = ''$-1'' @ crlf"

definition int_reply :: "int \<Rightarrow> string" where
  "int_reply i = '':'' @ to_string i @ crlf"

definition empty_array :: string where
  "empty_array = ''*0'' @ crlf"

definition err_oom :: string where
  "err_oom = ''-ERR OOM command not allowed when used memory > '' @ [CHR 0x27] @ ''maxmemory''
     @ [CHR 0x27] @ crlf"

definition err_wrongtype :: string where
  "err_wrongtype =
     ''-WRONGTYPE Operation against a key holding the wrong kind of value'' @ crlf"

section \<open>Commands that hold the shard's lock themselves\<close>

text \<open>
  LPUSH and HSET on the shard of the key: the reply, whether the write took effect (and is logged),
  and the shard.  The key is copied into the arena before the lookup, so it is given back on every
  path that does not move it into the map.
\<close>

definition lpush_shard ::
  "'u pmr_env \<Rightarrow> time_point \<Rightarrow> string \<Rightarrow> string \<Rightarrow> int64_t \<Rightarrow> 'u shard \<Rightarrow> string \<times> bool \<times> 'u shard" where
  "lpush_shard env now key val ttl s =
     (if arena_is_hard_limit_reached (arena s) then (err_oom, False, s)
      else case acquire_for env [PmrString key] s of
        (Inl _, s1) \<Rightarrow> (err_oom, False, s1)
      | (Inr kb, s1) \<Rightarrow>
          (case Option.bind (map_of (data_map s1) key) (\<lambda>e. if is_live now e then Some e else None) of
             Some e \<Rightarrow>
               (case data e of
                  VList xs \<Rightarrow>
                    (case acquire_for env [EmplaceBack key val] s1 of
                       (Inl _, s2) \<Rightarrow> (err_oom, False, release_blocks env kb s2)
                     | (Inr _, s2) \<Rightarrow>
                         (int_reply (int (length (xs @ [val]))), True,
                          release_blocks env (returns env (EmplaceBack key val) (data_map s) @ kb)
                            (s2\<lparr>data_map :=
                               AList.update key (e\<lparr>data := VList (xs @ [val])\<rparr>) (data_map s2)\<rparr>)))
                | _ \<Rightarrow> (err_wrongtype, False, release_blocks env kb s1))
           | None \<Rightarrow>
               let entry = mk_value now (VList [val]) ttl in
               (case acquire_for env [NewList val, InsertOrAssign key entry] s1 of
                  (Inl _, s2) \<Rightarrow> (err_oom, False, release_blocks env kb s2)
                | (Inr _, s2) \<Rightarrow>
                    (int_reply 1, True,
                     release_blocks env (returns env (InsertOrAssign key entry) (data_map s))
                       (s2\<lparr>data_map := AList.update key entry (data_map s2)\<rparr>)))))"

definition hset_shard ::
  "'u pmr_env \<Rightarrow> time_point \<Rightarrow> string \<Rightarrow> string \<Rightarrow> string \<Rightarrow> int64_t \<Rightarrow> 'u shard
     \<Rightarrow> string \<times> bool \<times> 'u shard" where
  "hset_shard env now key fld val ttl s =
     (if arena_is_hard_limit_reached (arena s) then (err_oom, False, s)
      else case acquire_for env [PmrString key] s of
        (Inl _, s1) \<Rightarrow> (err_oom, False, s1)
      | (Inr kb, s1) \<Rightarrow>
          (case Option.bind (map_of (data_map s1) key) (\<lambda>e. if is_live now e then Some e else None) of
             Some e \<Rightarrow>
               (case data e of
                  VHash h \<Rightarrow>
                    (case acquire_for env [PmrString fld, PmrString val, HashAssign key fld val] s1 of
                       (Inl _, s2) \<Rightarrow> (err_oom, False, release_blocks env kb s2)
                     | (Inr _, s2) \<Rightarrow>
                         (int_reply (if map_of h fld = None then 1 else 0), True,
                          release_blocks env (returns env (HashAssign key fld val) (data_map s) @ kb)
                            (s2\<lparr>data_map :=
                               AList.update key (e\<lparr>data := VHash (AList.update fld val h)\<rparr>) (data_map s2)\<rparr>)))
                | _ \<Rightarrow> (err_wrongtype, False, release_blocks env kb s1))
           | None \<Rightarrow>
               let entry = mk_value now (VHash [(fld, val)]) ttl in
               (case acquire_for env [NewHash fld val, InsertOrAssign key entry] s1 of
                  (Inl _, s2) \<Rightarrow> (err_oom, False, release_blocks env kb s2)
                | (Inr _, s2) \<Rightarrow>
                    (int_reply 1, True,
                     release_blocks env (returns env (InsertOrAssign key entry) (data_map s))
                       (s2\<lparr>data_map := AList.update key entry (data_map s2)\<rparr>)))))"

text \<open>
  The index arithmetic of LRANGE: negative indices count from the end, then both are clamped.
\<close>

definition lrange_bounds :: "int64_t \<Rightarrow> int64_t \<Rightarrow> int64_t \<Rightarrow> int64_t \<times> int64_t" where
  "lrange_bounds len i j =
     (let s0 = (if i < 0 then i + len else i);
          e0 = (if j < 0 then j + len else j);
          s = (if s0 < 0 then 0 else s0);
          e = (if e0 \<ge> len then len - 1 else e0)
      in (s, e))"

definition lrange_reply :: "string list \<Rightarrow> int64_t \<Rightarrow> int64_t \<Rightarrow> string" where
  "lrange_reply xs i j =
     (let (s, e) = lrange_bounds (int (length xs)) i j in
      if s > e then empty_array
      else ''*'' @ to_string (e - s + 1) @ crlf @ concat (map (\<lambda>n. bulk (xs ! nat n)) [s..e]))"

definition lrange_shard ::
  "time_point \<Rightarrow> string \<Rightarrow> int64_t \<Rightarrow> int64_t \<Rightarrow> 'u shard \<Rightarrow> string" where
  "lrange_shard now key i j s =
     (case map_of (data_map s) key of
        None \<Rightarrow> empty_array
      | Some e \<Rightarrow>
          if tombstoned e \<or> is_expired now e then empty_array
          else (case data e of VList xs \<Rightarrow> lrange_reply xs i j | _ \<Rightarrow> err_wrongtype))"

definition hget_shard :: "time_point \<Rightarrow> string \<Rightarrow> string \<Rightarrow> 'u shard \<Rightarrow> string" where
  "hget_shard now key fld s =
     (case map_of (data_map s) key of
        None \<Rightarrow> nil_bulk
      | Some e \<Rightarrow>
          if tombstoned e \<or> is_expired now e then nil_bulk
          else (case data e of
                  VHash h \<Rightarrow> (case map_of h fld of None \<Rightarrow> nil_bulk | Some v \<Rightarrow> bulk v)
                | _ \<Rightarrow> err_wrongtype))"

section \<open>Execution\<close>

text \<open>\<^verbatim>\<open>if (aof && !aof->is_replaying()) aof->log(serialize())\<close>; the log pointer may be null.\<close>

definition log_write :: "command \<Rightarrow> aof_logger option \<Rightarrow> aof_logger option" where
  "log_write c aof =
     (case aof of None \<Rightarrow> None
      | Some l \<Rightarrow> Some (if is_replaying l then l else aof_log (serialize c) l))"

text \<open>What a command does to the router: the reply and whether a write took effect.\<close>

fun perform ::
  "'u pmr_env \<Rightarrow> time_point \<Rightarrow> command \<Rightarrow> 'u shard_router \<Rightarrow> string \<times> bool \<times> 'u shard_router" where
  "perform env now (SetCommand k v ttl) r =
     (let (ok, r') = router_set env now k v ttl r in (if ok then ''+OK'' @ crlf else err_oom, ok, r'))"
| "perform env now (GetCommand k) r =
     ((case router_get now k r of None \<Rightarrow> nil_bulk | Some v \<Rightarrow> bulk v), False, r)"
| "perform env now (DelCommand k) r =
     (let (ok, r') = router_del k r in (int_reply (if ok then 1 else 0), ok, r'))"
| "perform env now (ExistsCommand k) r =
     (int_reply (if router_exists now k r then 1 else 0), False, r)"
| "perform env now PingCommand r = (''+PONG'' @ crlf, False, r)"
| "perform env now (LPushCommand k v ttl) r =
     (let (reply, ok, s) = lpush_shard env now k v ttl (shard_for_key r k) in
      (reply, ok, put_shard r k s))"
| "perform env now (LRangeCommand k i j) r = (lrange_shard now k i j (shard_for_key r k), False, r)"
| "perform env now (HSetCommand k f v ttl) r =
     (let (reply, ok, s) = hset_shard env now k f v ttl (shard_for_key r k) in
      (reply, ok, put_shard r k s))"
| "perform env now (HGetCommand k f) r = (hget_shard now k f (shard_for_key r k), False, r)"

definition execute ::
  "'u pmr_env \<Rightarrow> time_point \<Rightarrow> command \<Rightarrow> 'u shard_router \<times> aof_logger option
     \<Rightarrow> string \<times> 'u shard_router \<times> aof_logger option" where
  "execute env now c db =
     (let (reply, ok, r) = perform env now c (fst db) in
      (reply, r, if ok then log_write c (snd db) else snd db))"

section \<open>Text form and back\<close>

text \<open>
  The contract between the writer of the log and its reader: each line is one encoded command, no
  encoding contains a newline, and decoding inverts encoding on well-formed commands.
\<close>

locale line_codec =
  fixes encode :: "'c \<Rightarrow> string"
    and decode :: "string \<Rightarrow> 'c option"
    and wf :: "'c \<Rightarrow> bool"
  assumes decode_encode: "wf c \<Longrightarrow> decode (encode c) = Some c"
    and encode_line: "wf c \<Longrightarrow> newline \<notin> set (encode c) \<and> encode c \<noteq> []"
begin

lemma decode_lines:
  "\<forall>c \<in> set cs. wf c \<Longrightarrow> map decode (getlines (aof_lines (map encode cs))) = map Some cs"
proof -
  assume wf: "\<forall>c \<in> set cs. wf c"
  then have "getlines (aof_lines (map encode cs)) = map encode cs"
    unfolding aof_lines_def by (intro getlines_concat) (auto dest: encode_line)
  with wf show ?thesis by (simp add: decode_encode)
qed

end

fun command_tokens :: "command \<Rightarrow> string list" where
  "command_tokens (SetCommand k v ttl) = [''SET'', k, v, to_string ttl]"
| "command_tokens (GetCommand k) = [''GET'', k]"
| "command_tokens (DelCommand k) = [''DEL'', k]"
| "command_tokens (ExistsCommand k) = [''EXISTS'', k]"
| "command_tokens PingCommand = [''PING'']"
| "command_tokens (LPushCommand k v ttl) = [''LPUSH'', k, v]"
| "command_tokens (LRangeCommand k i j) = [''LRANGE'', k, to_string i, to_string j]"
| "command_tokens (HSetCommand k f v ttl) = [''HSET'', k, f, v]"
| "command_tokens (HGetCommand k f) = [''HGET'', k, f]"

text \<open>
  The commands that \<^verbatim>\<open>parse\<close> can build from a line: words without white space, numbers in range, and
  the default time to live where the syntax has none.
\<close>

fun command_wf :: "command \<Rightarrow> bool" where
  "command_wf (SetCommand k v ttl) \<longleftrightarrow> is_token k \<and> is_token v \<and> in_int64 ttl"
| "command_wf (GetCommand k) \<longleftrightarrow> is_token k"
| "command_wf (DelCommand k) \<longleftrightarrow> is_token k"
| "command_wf (ExistsCommand k) \<longleftrightarrow> is_token k"
| "command_wf PingCommand \<longleftrightarrow> True"
| "command_wf (LPushCommand k v ttl) \<longleftrightarrow> is_token k \<and> is_token v \<and> ttl = default_ttl"
| "command_wf (LRangeCommand k i j) \<longleftrightarrow> is_token k \<and> in_int64 i \<and> in_int64 j"
| "command_wf (HSetCommand k f v ttl) \<longleftrightarrow> is_token k \<and> is_token f \<and> is_token v \<and> ttl = default_ttl"
| "command_wf (HGetCommand k f) \<longleftrightarrow> is_token k \<and> is_token f"

lemma serialize_join: "serialize c = join (command_tokens c)"
  by (cases c) simp_all

lemma command_tokens_are_tokens: "command_wf c \<Longrightarrow> t \<in> set (command_tokens c) \<Longrightarrow> is_token t"
proof -
  have "is_token ''SET''" "is_token ''GET''" "is_token ''DEL''" "is_token ''EXISTS''"
    "is_token ''PING''" "is_token ''LPUSH''" "is_token ''LRANGE''" "is_token ''HSET''"
    "is_token ''HGET''" by (simp_all add: is_token_def is_space_def)
  then show "command_wf c \<Longrightarrow> t \<in> set (command_tokens c) \<Longrightarrow> is_token t"
    by (cases c) (auto simp: is_token_to_string)
qed

lemma to_upper_keywords [simp]:
  "to_upper ''SET'' = ''SET''" "to_upper ''GET'' = ''GET''" "to_upper ''DEL'' = ''DEL''"
  "to_upper ''EXISTS'' = ''EXISTS''" "to_upper ''PING'' = ''PING''" "to_upper ''LPUSH'' = ''LPUSH''"
  "to_upper ''LRANGE'' = ''LRANGE''" "to_upper ''HSET'' = ''HSET''" "to_upper ''HGET'' = ''HGET''"
  by (simp_all add: to_upper_def toupper_def Let_def)

lemma parse_command_tokens: "command_wf c \<Longrightarrow> parse (command_tokens c) = Some c"
  by (cases c) (simp_all add: parse_def stoll_to_string)

definition parse_line :: "string \<Rightarrow> command option" where
  "parse_line line = parse (tokenize line)"

lemma parse_line_serialize: "command_wf c \<Longrightarrow> parse_line (serialize c) = Some c"
  using command_tokens_are_tokens
  by (simp add: parse_line_def serialize_join tokenize_join parse_command_tokens)

lemma parse_wf:
  assumes "parse tokens = Some c" and "\<forall>t \<in> set tokens. is_token t"
  shows "command_wf c"
proof -
  have nth: "is_token (tokens ! i)" if "i < length tokens" for i using that assms(2) by simp
  have dflt: "in_int64 default_ttl" by (simp add: default_ttl_def in_int64_def)
  from assms(1) show ?thesis
    by (auto simp: parse_def Let_def dflt nth split: if_splits sum.splits dest: stoll_range)
qed

lemma newline_not_in_serialize: "command_wf c \<Longrightarrow> newline \<notin> set (serialize c)"
proof -
  have sp: "is_space newline" by (simp add: is_space_def)
  have "newline \<notin> set (join ts)" if "\<forall>t \<in> set ts. is_token t" for ts
    using that sp by (induction ts rule: join.induct) (auto simp: is_token_def)
  then show "command_wf c \<Longrightarrow> newline \<notin> set (serialize c)"
    using command_tokens_are_tokens by (simp add: serialize_join)
qed

interpretation command_codec: line_codec serialize parse_line command_wf
proof unfold_locales
  fix c
  show "command_wf c \<Longrightarrow> parse_line (serialize c) = Some c" by (rule parse_line_serialize)
  have "serialize c \<noteq> []" by (cases c) simp_all
  then show "command_wf c \<Longrightarrow> newline \<notin> set (serialize c) \<and> serialize c \<noteq> []"
    using newline_not_in_serialize by blast
qed

section \<open>The abstract store\<close>

text \<open>
  The specification of the commands: a partial map from keys to values with their time to live.
  \<open>apply_write\<close> is what a write does to it when it takes effect.  As long as no entry has expired,
  the router implements this map.
\<close>

type_synonym content = "string \<Rightarrow> (value_variant \<times> int64_t) option"

fun apply_write :: "command \<Rightarrow> content \<Rightarrow> content" where
  "apply_write (SetCommand k v ttl) m = m(k \<mapsto> (VString v, ttl))"
| "apply_write (DelCommand k) m = m(k := None)"
| "apply_write (LPushCommand k v ttl) m =
     (case m k of None \<Rightarrow> m(k \<mapsto> (VList [v], ttl))
      | Some (VList xs, t) \<Rightarrow> m(k \<mapsto> (VList (xs @ [v]), t))
      | _ \<Rightarrow> m)"
| "apply_write (HSetCommand k f v ttl) m =
     (case m k of None \<Rightarrow> m(k \<mapsto> (VHash [(f, v)], ttl))
      | Some (VHash h, t) \<Rightarrow> m(k \<mapsto> (VHash (AList.update f v h), t))
      | _ \<Rightarrow> m)"
| "apply_write _ m = m"

text \<open>When the write takes effect, memory permitting.\<close>

fun admissible :: "command \<Rightarrow> content \<Rightarrow> bool" where
  "admissible (SetCommand k v ttl) m = True"
| "admissible (DelCommand k) m = (m k \<noteq> None)"
| "admissible (LPushCommand k v ttl) m =
     (case m k of None \<Rightarrow> True | Some (VList _, _) \<Rightarrow> True | _ \<Rightarrow> False)"
| "admissible (HSetCommand k f v ttl) m =
     (case m k of None \<Rightarrow> True | Some (VHash _, _) \<Rightarrow> True | _ \<Rightarrow> False)"
| "admissible _ m = False"

definition router_content :: "'u shard_router \<Rightarrow> content" where
  "router_content r k = map_option (\<lambda>e. (data e, ttl_seconds e)) (router_entry r k)"

definition fresh :: "time_point \<Rightarrow> 'u shard_router \<Rightarrow> bool" where
  "fresh now r \<longleftrightarrow> (\<forall>k e. router_entry r k = Some e \<longrightarrow> \<not> is_expired now e)"

definition shard_content :: "'u shard \<Rightarrow> content" where
  "shard_content s k = map_option (\<lambda>e. (data e, ttl_seconds e)) (shard_entry s k)"

definition visible :: "time_point \<Rightarrow> string \<Rightarrow> 'u shard \<Rightarrow> cache_aligned_value option" where
  "visible now k s = Option.bind (map_of (data_map s) k) (\<lambda>e. if is_live now e then Some e else None)"

lemma visible_entry:
  "visible now k s = (case shard_entry s k of None \<Rightarrow> None | Some e \<Rightarrow> if is_expired now e then None else Some e)"
  by (auto simp: visible_def shard_entry_def untombstoned_def is_live_def split: option.splits bind_splits)

text \<open>One lemma per self-locking write: reply, effect and new entries on every branch.\<close>

lemma lpush_shard_cases:
  assumes "lpush_shard env now k v ttl s = (reply, ok, s')"
  shows "(ok \<and> map_of (data_map s') = (map_of (data_map s))(k \<mapsto>
            (case visible now k s of
               Some e \<Rightarrow> (case data e of VList xs \<Rightarrow> e\<lparr>data := VList (xs @ [v])\<rparr> | _ \<Rightarrow> e)
             | None \<Rightarrow> mk_value now (VList [v]) ttl))
          \<and> (\<forall>e. visible now k s = Some e \<longrightarrow> (\<exists>xs. data e = VList xs))
          \<and> reply = int_reply (case visible now k s of
               Some e \<Rightarrow> (case data e of VList xs \<Rightarrow> 1 + int (length xs) | _ \<Rightarrow> 0) | None \<Rightarrow> 1))
       \<or> (\<not> ok \<and> data_map s' = data_map s \<and> reply = err_wrongtype
          \<and> (\<exists>e. visible now k s = Some e \<and> (\<forall>xs. data e \<noteq> VList xs)))
       \<or> (\<not> ok \<and> data_map s' = data_map s \<and> reply = err_oom)"
  using assms
  by (auto simp: lpush_shard_def visible_def Let_def data_map_acquire_for fun_eq_iff
      split: if_splits prod.splits sum.splits option.splits value_variant.splits)

lemma hset_shard_cases:
  assumes "hset_shard env now k f v ttl s = (reply, ok, s')"
  shows "(ok \<and> map_of (data_map s') = (map_of (data_map s))(k \<mapsto>
            (case visible now k s of
               Some e \<Rightarrow> (case data e of VHash h \<Rightarrow> e\<lparr>data := VHash (AList.update f v h)\<rparr> | _ \<Rightarrow> e)
             | None \<Rightarrow> mk_value now (VHash [(f, v)]) ttl))
          \<and> (\<forall>e. visible now k s = Some e \<longrightarrow> (\<exists>h. data e = VHash h))
          \<and> reply = int_reply (case visible now k s of
               Some e \<Rightarrow> (case data e of VHash h \<Rightarrow> if map_of h f = None then 1 else 0 | _ \<Rightarrow> 0) | None \<Rightarrow> 1))
       \<or> (\<not> ok \<and> data_map s' = data_map s \<and> reply = err_wrongtype
          \<and> (\<exists>e. visible now k s = Some e \<and> (\<forall>h. data e \<noteq> VHash h)))
       \<or> (\<not> ok \<and> data_map s' = data_map s \<and> reply = err_oom)"
  using assms
  by (auto simp: hset_shard_def visible_def Let_def data_map_acquire_for fun_eq_iff
      split: if_splits prod.splits sum.splits option.splits value_variant.splits)

lemma shard_wf_lpush:
  "shard_wf env s \<Longrightarrow> lpush_shard env now k v ttl s = (reply, ok, s') \<Longrightarrow> shard_wf env s'"
  by (auto simp: lpush_shard_def Let_def intro!: shard_wf_intros dest: shard_wf_acquire_for
      split: if_splits prod.splits sum.splits option.splits value_variant.splits)

lemma shard_wf_hset:
  "shard_wf env s \<Longrightarrow> hset_shard env now k f v ttl s = (reply, ok, s') \<Longrightarrow> shard_wf env s'"
  by (auto simp: hset_shard_def Let_def intro!: shard_wf_intros dest: shard_wf_acquire_for
      split: if_splits prod.splits sum.splits option.splits value_variant.splits)

lemma perform_wf:
  assumes "router_wf env r" and "perform env now c r = (reply, ok, r')"
  shows "router_wf env r'"
proof (cases c)
  case (SetCommand k v ttl)
  with assms show ?thesis using router_wf_set [of env r now k v ttl] by (auto split: prod.splits)
next
  case (DelCommand k)
  with assms show ?thesis using router_wf_del [of env r k] by (auto split: prod.splits)
next
  case (LPushCommand k v ttl)
  with assms show ?thesis
    by (auto split: prod.splits intro!: put_shard_wf dest: shard_wf_lpush [OF shard_for_key_wf])
next
  case (HSetCommand k f v ttl)
  with assms show ?thesis
    by (auto split: prod.splits intro!: put_shard_wf dest: shard_wf_hset [OF shard_for_key_wf])
qed (use assms in auto)

text \<open>
  What a write puts under its key: the entry afterwards, from the visible entry before.  The visible
  entry is what the lookup of the command finds: not tombstoned, not expired.
\<close>

fun new_entry ::
  "time_point \<Rightarrow> command \<Rightarrow> cache_aligned_value option \<Rightarrow> cache_aligned_value option" where
  "new_entry now (SetCommand k v ttl) x = Some (mk_value now (VString v) ttl)"
| "new_entry now (DelCommand k) x = None"
| "new_entry now (LPushCommand k v ttl) x =
     (case x of None \<Rightarrow> Some (mk_value now (VList [v]) ttl)
      | Some e \<Rightarrow> (case data e of VList xs \<Rightarrow> Some (e\<lparr>data := VList (xs @ [v])\<rparr>) | _ \<Rightarrow> Some e))"
| "new_entry now (HSetCommand k f v ttl) x =
     (case x of None \<Rightarrow> Some (mk_value now (VHash [(f, v)]) ttl)
      | Some e \<Rightarrow> (case data e of VHash h \<Rightarrow> Some (e\<lparr>data := VHash (AList.update f v h)\<rparr>) | _ \<Rightarrow> Some e))"
| "new_entry now _ x = x"

fun command_key :: "command \<Rightarrow> string" where
  "command_key (SetCommand k v ttl) = k"
| "command_key (GetCommand k) = k"
| "command_key (DelCommand k) = k"
| "command_key (ExistsCommand k) = k"
| "command_key PingCommand = []"
| "command_key (LPushCommand k v ttl) = k"
| "command_key (LRangeCommand k i j) = k"
| "command_key (HSetCommand k f v ttl) = k"
| "command_key (HGetCommand k f) = k"

definition visible_entry_at :: "time_point \<Rightarrow> string \<Rightarrow> 'u shard_router \<Rightarrow> cache_aligned_value option" where
  "visible_entry_at now k r = visible now k (shard_for_key r k)"

lemma visible_not_tombstoned: "visible now k s = Some e \<Longrightarrow> \<not> tombstoned e"
  by (auto simp: visible_def is_live_def split: bind_splits if_splits)

lemma shard_entry_update:
  "map_of (data_map s') = (map_of (data_map s))(k \<mapsto> e) \<Longrightarrow> \<not> tombstoned e \<Longrightarrow>
   shard_entry s' = (shard_entry s)(k \<mapsto> e)"
  by (auto simp: shard_entry_def fun_eq_iff)

lemma lpush_shard_entry:
  assumes "lpush_shard env now k v ttl s = (reply, ok, s')"
  shows "shard_entry s' =
    (if ok then (shard_entry s)(k := new_entry now (LPushCommand k v ttl) (visible now k s))
     else shard_entry s)"
proof (cases ok)
  case True
  from lpush_shard_cases [OF assms] True show ?thesis
    by (auto intro!: shard_entry_update simp: visible_not_tombstoned
        split: option.splits value_variant.splits)
next
  case False
  with lpush_shard_cases [OF assms] show ?thesis by (auto simp: shard_entry_def fun_eq_iff)
qed

lemma hset_shard_entry:
  assumes "hset_shard env now k f v ttl s = (reply, ok, s')"
  shows "shard_entry s' =
    (if ok then (shard_entry s)(k := new_entry now (HSetCommand k f v ttl) (visible now k s))
     else shard_entry s)"
proof (cases ok)
  case True
  from hset_shard_cases [OF assms] True show ?thesis
    by (auto intro!: shard_entry_update simp: visible_not_tombstoned
        split: option.splits value_variant.splits)
next
  case False
  with hset_shard_cases [OF assms] show ?thesis by (auto simp: shard_entry_def fun_eq_iff)
qed

text \<open>The effect of every command on the entries of the router.\<close>

lemma router_entry_put_shard_cond:
  assumes "router_wf env r"
    and "shard_entry s = (if ok then (shard_entry (shard_for_key r k))(k := x) else shard_entry (shard_for_key r k))"
  shows "router_entry (put_shard r k s) = (if ok then (router_entry r)(k := x) else router_entry r)"
  using router_entry_put_shard [OF assms(1), of s k x]
    router_entry_put_shard_same [OF assms(1), of s k] assms(2)
  by (cases ok) simp_all

lemma perform_entry:
  assumes wf: "router_wf env r" and p: "perform env now c r = (reply, ok, r')"
  shows "router_entry r' =
    (if ok then (router_entry r)(command_key c :=
                   new_entry now c (visible_entry_at now (command_key c) r))
     else router_entry r)"
proof (cases c)
  case (SetCommand k v ttl)
  with p have s: "router_set env now k v ttl r = (ok, r')" by (auto split: prod.splits)
  with router_store.set_stores [OF wf] router_store.set_refuses [OF wf] SetCommand show ?thesis
    by (cases ok) auto
next
  case (DelCommand k)
  with p have s: "router_del k r = (ok, r')" by (auto split: prod.splits)
  from router_store.del_removes [OF wf s] DelCommand show ?thesis by (auto simp: fun_upd_idem)
next
  case (LPushCommand k v ttl)
  with p obtain s where s: "lpush_shard env now k v ttl (shard_for_key r k) = (reply, ok, s)"
    and r': "r' = put_shard r k s" by (auto split: prod.splits)
  show ?thesis
    unfolding r' LPushCommand command_key.simps visible_entry_at_def
    by (rule router_entry_put_shard_cond [OF wf lpush_shard_entry [OF s]])
next
  case (HSetCommand k f v ttl)
  with p obtain s where s: "hset_shard env now k f v ttl (shard_for_key r k) = (reply, ok, s)"
    and r': "r' = put_shard r k s" by (auto split: prod.splits)
  show ?thesis
    unfolding r' HSetCommand command_key.simps visible_entry_at_def
    by (rule router_entry_put_shard_cond [OF wf hset_shard_entry [OF s]])
qed (use p in auto)

lemma new_entry_type:
  "new_entry now c (Some e) = Some e' \<Longrightarrow>
   value_type e' = value_type e \<or> (\<exists>v ttl. c = SetCommand (command_key c) v ttl \<and> value_type e' = String)"
  by (cases c) (auto simp: value_type_def mk_value_def split: value_variant.splits)

lemma new_entry_no_integer:
  "new_entry now c x = Some e \<Longrightarrow> (\<And>e. x = Some e \<Longrightarrow> value_type e \<noteq> Integer) \<Longrightarrow> value_type e \<noteq> Integer"
  by (cases c) (auto simp: value_type_def mk_value_def split: option.splits value_variant.splits)

section \<open>Refinement of the abstract store\<close>

lemma visible_fresh: "fresh now r \<Longrightarrow> visible_entry_at now k r = router_entry r k"
  by (auto simp: visible_entry_at_def visible_entry router_entry_def fresh_def split: option.splits)

lemma new_entry_content:
  "map_option (\<lambda>e. (data e, ttl_seconds e)) (new_entry now c (router_entry r (command_key c)))
     = apply_write c (router_content r) (command_key c)"
  by (cases c) (auto simp: router_content_def split: option.splits value_variant.splits)

lemma apply_write_other: "k \<noteq> command_key c \<Longrightarrow> apply_write c m k = m k"
  by (cases c) (auto split: option.splits value_variant.splits prod.splits)

lemma lpush_shard_admissible:
  assumes "lpush_shard env now k v ttl s = (reply, ok, s')" and "visible now k s = x"
  shows "(ok \<longrightarrow> (case x of None \<Rightarrow> True | Some e \<Rightarrow> (\<exists>xs. data e = VList xs))) \<and>
    (\<not> ok \<longrightarrow> reply = err_oom \<or> (\<exists>e. x = Some e \<and> (\<forall>xs. data e \<noteq> VList xs) \<and> reply = err_wrongtype))"
  using lpush_shard_cases [OF assms(1)] assms(2) by (auto split: option.splits)

lemma hset_shard_admissible:
  assumes "hset_shard env now k f v ttl s = (reply, ok, s')" and "visible now k s = x"
  shows "(ok \<longrightarrow> (case x of None \<Rightarrow> True | Some e \<Rightarrow> (\<exists>h. data e = VHash h))) \<and>
    (\<not> ok \<longrightarrow> reply = err_oom \<or> (\<exists>e. x = Some e \<and> (\<forall>h. data e \<noteq> VHash h) \<and> reply = err_wrongtype))"
  using hset_shard_cases [OF assms(1)] assms(2) by (auto split: option.splits)

text \<open>A write takes effect only when admissible, and an admissible write is refused only for memory.\<close>

lemma perform_admissible:
  assumes wf: "router_wf env r" and fr: "fresh now r" and p: "perform env now c r = (reply, ok, r')"
  shows "(ok \<longrightarrow> admissible c (router_content r)) \<and>
    (\<not> ok \<and> admissible c (router_content r) \<longrightarrow> reply = err_oom)"
proof (cases c)
  case (SetCommand k v ttl)
  with p show ?thesis by (auto split: prod.splits if_splits)
next
  case (DelCommand k)
  with p have "router_del k r = (ok, r')" by (auto split: prod.splits)
  from router_store.del_removes [OF wf this] DelCommand show ?thesis
    by (auto simp: router_content_def)
next
  case (LPushCommand k v ttl)
  with p obtain s where s: "lpush_shard env now k v ttl (shard_for_key r k) = (reply, ok, s)"
    by (auto split: prod.splits)
  have "visible now k (shard_for_key r k) = router_entry r k"
    using visible_fresh [OF fr, of k] by (simp add: visible_entry_at_def)
  from lpush_shard_admissible [OF s this] LPushCommand show ?thesis
    by (auto simp: router_content_def split: option.splits value_variant.splits)
next
  case (HSetCommand k f v ttl)
  with p obtain s where s: "hset_shard env now k f v ttl (shard_for_key r k) = (reply, ok, s)"
    by (auto split: prod.splits)
  have "visible now k (shard_for_key r k) = router_entry r k"
    using visible_fresh [OF fr, of k] by (simp add: visible_entry_at_def)
  from hset_shard_admissible [OF s this] HSetCommand show ?thesis
    by (auto simp: router_content_def split: option.splits value_variant.splits)
qed (use p in auto)

lemma perform_content:
  assumes "router_wf env r" and "fresh now r" and "perform env now c r = (reply, ok, r')"
  shows "router_content r' = (if ok then apply_write c (router_content r) else router_content r)"
proof
  fix k
  show "router_content r' k =
      (if ok then apply_write c (router_content r) else router_content r) k"
    using perform_entry [OF assms(1,3)] visible_fresh [OF assms(2)] new_entry_content [of now c r]
      apply_write_other [of k c "router_content r"]
    by (cases "k = command_key c") (auto simp: router_content_def)
qed

section \<open>LRANGE\<close>

lemma lrange_bounds_in_range:
  assumes "lrange_bounds len i j = (s, e)" and "0 \<le> len"
  shows "0 \<le> s" and "e < len" and "s = (if i < 0 then max 0 (i + len) else i)"
    and "e = min (len - 1) (if j < 0 then j + len else j)"
  using assms by (auto simp: lrange_bounds_def Let_def split: if_splits)

lemma map_nth_upto:
  assumes "0 \<le> s" and "s \<le> e" and "e < int (length xs)"
  shows "map (\<lambda>n. f (xs ! nat n)) [s..e] = map f (take (nat (e - s + 1)) (drop (nat s) xs))"
proof (rule nth_equalityI)
  have len: "length (take (nat (e - s + 1)) (drop (nat s) xs)) = nat (e - s + 1)"
    using assms by auto
  then show "length (map (\<lambda>n. f (xs ! nat n)) [s..e]) =
      length (map f (take (nat (e - s + 1)) (drop (nat s) xs)))" by simp
  fix i assume "i < length (map (\<lambda>n. f (xs ! nat n)) [s..e])"
  then have "i < nat (e - s + 1)" by simp
  then have "s + int i \<le> e" and "nat (s + int i) = nat s + i" using assms by auto
  with \<open>i < nat (e - s + 1)\<close> show "map (\<lambda>n. f (xs ! nat n)) [s..e] ! i =
      map f (take (nat (e - s + 1)) (drop (nat s) xs)) ! i"
    using assms len by simp
qed

section \<open>Properties\<close>

text \<open>
  C10.  What a client sends survives the log: a command that was parsed from any line is written by
  \<^verbatim>\<open>serialize\<close> as one line without a newline, and parsing that line gives the same command again,
  with the same key, value and time to live.
\<close>

theorem parse_serialize_roundtrip:
  assumes "parse_line line = Some c"
  shows "parse_line (serialize c) = Some c \<and> newline \<notin> set (serialize c) \<and> serialize c \<noteq> []"
proof -
  from assms have "command_wf c"
    unfolding parse_line_def by (rule parse_wf) (simp add: tokenize_tokens)
  then show ?thesis using command_codec.decode_encode command_codec.encode_line by blast
qed

lemmas parse_line_simps = parse_line_def tokenize.simps is_space_def parse_def to_upper_def toupper_def
  Let_def stoll_def strto_def read_sign_def is_digit_def digits_value_def digit_value_def in_int64_def char_of_def bit_Suc_0_iff

theorem parse_serialize_roundtrip_witness:
  "parse_line (serialize (SetCommand ''k'' ''v'' 60)) = Some (SetCommand ''k'' ''v'' 60)"
proof -
  have "parse_line ''  set k v 60s'' = Some (SetCommand ''k'' ''v'' 60)"
    by (simp add: parse_line_simps)
  from parse_serialize_roundtrip [OF this] show ?thesis by blast
qed

text \<open>
  C9.  No silent change: a command changes the entry of its own key at most, a read command changes
  nothing at all, and whenever the store has changed exactly this command has been appended to
  the log (unless the log is absent or replaying).
\<close>

theorem execute_effect:
  assumes "router_wf env r" and "execute env now c (r, aof) = (reply, r', aof')"
  shows "(\<forall>k. k \<noteq> command_key c \<longrightarrow> router_entry r' k = router_entry r k) \<and>
    (\<not> is_write c \<longrightarrow> r' = r \<and> aof' = aof) \<and>
    (router_entry r' \<noteq> router_entry r \<longrightarrow> aof' = log_write c aof) \<and>
    (aof' = aof \<or> aof' = log_write c aof) \<and> router_wf env r'"
proof -
  from assms(2) obtain ok where p: "perform env now c r = (reply, ok, r')"
    and aof': "aof' = (if ok then log_write c aof else aof)"
    by (auto simp: execute_def split: prod.splits)
  have "\<not> is_write c \<Longrightarrow> r' = r \<and> \<not> ok" using p by (cases c) auto
  with perform_entry [OF assms(1) p] perform_wf [OF assms(1) p] aof' show ?thesis by auto
qed

theorem execute_effect_witness:
  "router_entry (fst (snd (execute demo_env 0 (GetCommand ''k'') (demo_router, None)))) ''k''
     = router_entry demo_router ''k'' \<and>
   router_wf demo_env (fst (snd (execute demo_env 0 (GetCommand ''k'') (demo_router, None))))"
proof -
  let ?x = "execute demo_env 0 (GetCommand ''k'') (demo_router, None)"
  have "?x = (fst ?x, fst (snd ?x), snd (snd ?x))" by simp
  from execute_effect [OF demo_router_wf this] demo_router_wf show ?thesis by simp
qed


lemmas demo_router_simps = case_prod_beta shard_for_key_def put_shard_def shard_index_def
  demo_hash_simps demo_router_def demo_simps

lemma demo_router_empty: "router_entry demo_router k = None"
proof -
  have "unat (shard_index demo_router k) < 2"
    using shard_index_in_range [OF demo_router_wf, of k] by (simp add: demo_router_def)
  then have "shard_for_key demo_router k = mk_shard demo_env 100"
    by (auto simp: shard_for_key_def demo_router_def less_2_cases_iff)
  then show ?thesis by (simp add: router_entry_def shard_entry_def mk_shard_def)
qed

lemma demo_router_fresh: "fresh now demo_router"
  by (simp add: fresh_def demo_router_empty)


text \<open>
  The replies of the reading commands are determined by the visible entry of the key, the entry
  that is neither tombstoned nor expired: GET and EXISTS, the fields of a hash and the elements
  of a list, with a type error where the value has another type.
\<close>

theorem read_replies:
  "fst (perform env now (GetCommand k) r) =
     (case visible_entry_at now k r of None \<Rightarrow> nil_bulk | Some e \<Rightarrow> bulk (visit_to_string (data e))) \<and>
   fst (perform env now (ExistsCommand k) r) =
     int_reply (if visible_entry_at now k r = None then 0 else 1) \<and>
   fst (perform env now (HGetCommand k f) r) =
     (case visible_entry_at now k r of None \<Rightarrow> nil_bulk
      | Some e \<Rightarrow> (case data e of VHash h \<Rightarrow> (case map_of h f of None \<Rightarrow> nil_bulk | Some v \<Rightarrow> bulk v)
                  | _ \<Rightarrow> err_wrongtype)) \<and>
   fst (perform env now (LRangeCommand k i j) r) =
     (case visible_entry_at now k r of None \<Rightarrow> empty_array
      | Some e \<Rightarrow> (case data e of VList xs \<Rightarrow> lrange_reply xs i j | _ \<Rightarrow> err_wrongtype))"
  by (auto simp: visible_entry_at_def visible_def router_get_def router_exists_def shard_get_def
      shard_exists_def hget_shard_def lrange_shard_def is_live_def
      split: option.splits bind_splits value_variant.splits)

text \<open>
  C19.  Values are typed: a live value keeps its type under every command except a SET of its own key,
  which makes it a string; and the integer alternative of the variant is never stored, so the
  stored types are string, list and hash.
\<close>

theorem value_types_kept:
  assumes "router_wf env r" and "perform env now c r = (reply, ok, r')"
  shows "(\<forall>k e e'. router_entry r k = Some e \<and> \<not> is_expired now e \<and> router_entry r' k = Some e' \<longrightarrow>
       value_type e' = value_type e \<or> (\<exists>v ttl. c = SetCommand k v ttl \<and> value_type e' = String)) \<and>
    ((\<forall>k e. router_entry r k = Some e \<longrightarrow> value_type e \<noteq> Integer) \<longrightarrow>
     (\<forall>k e. router_entry r' k = Some e \<longrightarrow> value_type e \<noteq> Integer))"
proof (intro conjI allI impI)
  fix k e e'
  assume e: "router_entry r k = Some e \<and> \<not> is_expired now e \<and> router_entry r' k = Some e'"
  then have "visible_entry_at now k r = Some e"
    by (simp add: visible_entry_at_def visible_entry router_entry_def)
  with e show "value_type e' = value_type e \<or> (\<exists>v ttl. c = SetCommand k v ttl \<and> value_type e' = String)"
    using new_entry_type [of now c e e'] by (auto simp: perform_entry [OF assms] split: if_splits)
next
  fix k e
  assume no: "\<forall>k e. router_entry r k = Some e \<longrightarrow> value_type e \<noteq> Integer" and e: "router_entry r' k = Some e"
  have "visible_entry_at now k r = Some x \<Longrightarrow> router_entry r k = Some x" for k x
    by (auto simp: visible_entry_at_def visible_entry router_entry_def split: option.splits if_splits)
  with no have "value_type x \<noteq> Integer" if "visible_entry_at now k r = Some x" for k x using that by blast
  then have "value_type e \<noteq> Integer" if "new_entry now c (visible_entry_at now (command_key c) r) = Some e"
    using new_entry_no_integer [OF that] by blast
  with no e show "value_type e \<noteq> Integer" by (auto simp: perform_entry [OF assms] split: if_splits)
qed

theorem value_types_kept_witness:
  "\<exists>r' :: nat shard_router. perform demo_env 0 (LPushCommand ''l'' ''a'' 60) demo_router = (int_reply 1, True, r') \<and>
     (\<forall>k e. router_entry r' k = Some e \<longrightarrow> value_type e \<noteq> Integer)"
proof -
  let ?p = "perform demo_env 0 (LPushCommand ''l'' ''a'' 60) demo_router"
  have "fst ?p = int_reply 1" "fst (snd ?p)" by (simp_all add: lpush_shard_def demo_router_simps del: demo_router_fresh)
  then obtain r' where p: "?p = (int_reply 1, True, r')" by (metis prod.collapse)
  from value_types_kept [OF demo_router_wf p] show ?thesis by (auto simp: p demo_router_empty simp del: perform.simps)
qed

text \<open>
  C26.  LRANGE returns exactly the requested slice, with negative indices counted from the end and
  both ends clamped to the list: every element it reads exists, and its 64-bit arithmetic does
  not overflow on any arguments that parse.
\<close>

theorem lrange_slice:
  assumes "in_int64 i" and "in_int64 j" and "in_int64 (int (length xs))"
  shows "(let n = int (length xs);
             s = (if i < 0 then max 0 (i + n) else i);
             e = min (n - 1) (if j < 0 then j + n else j)
          in lrange_reply xs i j =
               (if s > e then empty_array
                else ''*'' @ to_string (e - s + 1) @ crlf
                  @ concat (map bulk (take (nat (e - s + 1)) (drop (nat s) xs)))) \<and>
             (s \<le> e \<longrightarrow> 0 \<le> s \<and> e < n \<and> in_int64 (e - s + 1)) \<and>
             (i < 0 \<longrightarrow> in_int64 (i + n)) \<and> (j < 0 \<longrightarrow> in_int64 (j + n)) \<and> in_int64 (n - 1))"
proof -
  let ?n = "int (length xs)"
  obtain s e where b: "lrange_bounds ?n i j = (s, e)" by force
  note se = lrange_bounds_in_range [OF b]
  have "lrange_reply xs i j = (if s > e then empty_array
      else ''*'' @ to_string (e - s + 1) @ crlf
        @ concat (map bulk (take (nat (e - s + 1)) (drop (nat s) xs))))"
    using map_nth_upto [of s e xs bulk] se(1,2) by (simp add: lrange_reply_def b)
  moreover have "s \<le> e \<longrightarrow> 0 \<le> s \<and> e < ?n \<and> in_int64 (e - s + 1)"
    using se(1,2) assms(3) by (simp add: in_int64_def)
  moreover have "(i < 0 \<longrightarrow> in_int64 (i + ?n)) \<and> (j < 0 \<longrightarrow> in_int64 (j + ?n)) \<and> in_int64 (?n - 1)"
    using assms by (simp add: in_int64_def)
  ultimately show ?thesis using se(3,4) by (simp add: Let_def)
qed

theorem lrange_slice_witness:
  "lrange_reply [''a'', ''bb'', ''c''] (- 2) 10 =
     ''*2'' @ crlf @ bulk ''bb'' @ bulk ''c''"
proof -
  have "in_int64 (- 2)" "in_int64 10" "in_int64 (int (length [''a'', ''bb'', ''c'']))"
    by (simp_all add: in_int64_def)
  from lrange_slice [OF this] show ?thesis
    by (simp add: Let_def to_string_def to_string_nat.simps digit_char_def char_of_def bit_Suc_0_iff)
qed

text \<open>
  LPUSH puts the new element at the end of an existing list and keeps the entry's creation time
  and time to live; LRANGE then shows the elements oldest first.
\<close>

theorem lpush_appends:
  assumes "router_wf env r" and "perform env now (LPushCommand k v ttl) r = (reply, True, r')"
    and "visible_entry_at now k r = Some e" and "data e = VList xs"
  shows "router_entry r' k = Some (e\<lparr>data := VList (xs @ [v])\<rparr>) \<and>
    reply = int_reply (1 + int (length xs))"
proof -
  have "reply = int_reply (1 + int (length xs))"
    using assms(2-4) lpush_shard_cases [of env now k v ttl "shard_for_key r k"]
    by (auto simp: visible_entry_at_def split: prod.splits)
  with perform_entry [OF assms(1,2)] assms(3,4) show ?thesis by simp
qed

text \<open>The example router with a one-element list under the key l.\<close>

definition demo_list_shard :: "int64_t \<Rightarrow> nat shard" where
  "demo_list_shard ttl = mk_shard demo_env 100\<lparr>data_map := [(''l'', mk_value 0 (VList [''a'']) ttl)]\<rparr>"

definition demo_list_router :: "int64_t \<Rightarrow> nat shard_router" where
  "demo_list_router ttl = put_shard demo_router ''l'' (demo_list_shard ttl)"

lemma demo_list_router_wf: "router_wf demo_env (demo_list_router ttl)"
proof -
  have "shard_wf demo_env (demo_list_shard ttl)"
    using demo_env_wf by (simp add: shard_wf_def demo_list_shard_def mk_shard_def)
  then show ?thesis unfolding demo_list_router_def by (rule put_shard_wf [OF demo_router_wf])
qed

lemma demo_list_router_shard: "shard_for_key (demo_list_router ttl) ''l'' = demo_list_shard ttl"
  by (simp add: demo_list_router_def shard_for_key_put_shard [OF demo_router_wf])

theorem lpush_appends_witness:
  "router_entry (snd (snd (perform demo_env 0 (LPushCommand ''l'' ''b'' 5) (demo_list_router 5)))) ''l''
     = Some (mk_value 0 (VList [''a'', ''b'']) 5)"
proof -
  let ?p = "perform demo_env 0 (LPushCommand ''l'' ''b'' 5) (demo_list_router 5)"
  have live: "is_live 0 (mk_value 0 (VList [''a'']) 5)" by (simp add: is_live_mk_value)
  have v: "visible_entry_at 0 ''l'' (demo_list_router 5) = Some (mk_value 0 (VList [''a'']) 5)"
    by (simp add: visible_entry_at_def demo_list_router_shard visible_def live demo_list_shard_def)
  have "fst (snd (lpush_shard demo_env 0 ''l'' ''b'' 5 (demo_list_shard 5)))"
    by (simp add: lpush_shard_def live case_prod_beta demo_list_shard_def demo_simps)
  then have "fst (snd ?p)" unfolding perform.simps demo_list_router_shard by (simp add: case_prod_beta)
  then have "?p = (fst ?p, True, snd (snd ?p))" by (metis prod.collapse pair_of_fst)
  from lpush_appends [OF demo_list_router_wf this v] show ?thesis by (simp add: mk_value_def)
qed

end
