(* ===== verification/KV_Worker_Pool.thy ===== *)
theory KV_Worker_Pool
  imports KV_Command
begin

text \<open>
  worker_pool.h and worker_pool.cpp: the bounded task queue, the completion queue and the worker
  threads that execute commands.  The queues are functions on a record; the threads, the reactor
  that submits and drains, and the shutdown are a step relation.  The theorems show that every
  accepted task is answered exactly once, that the workers come to rest by themselves and a shutdown
  drains the queue, and what is and is not guaranteed about the order of the log.
\<close>

section \<open>Tasks and queues\<close>

type_synonym socket = uint64_t

record task =
  task_command :: command
  task_client :: socket
  task_seq :: uint64_t

record task_result =
  result_client :: socket
  result_seq :: uint64_t
  response :: string

type_synonym completion_queue = "task_result list"

definition completion_push :: "task_result \<Rightarrow> completion_queue \<Rightarrow> completion_queue" where
  "completion_push r q = q @ [r]"

fun completion_drain :: "task_result list \<Rightarrow> completion_queue \<Rightarrow> task_result list \<times> completion_queue" where
  "completion_drain out [] = (out, [])"
| "completion_drain out (r # q) = completion_drain (out @ [r]) q"

record worker_pool =
  pool_queue :: "task list"
  pool_max_queue_size :: size_t
  pool_running :: bool
  completions :: completion_queue

definition default_max_queue_size :: size_t where
  "default_max_queue_size = 10000"

definition mk_worker_pool :: "size_t \<Rightarrow> worker_pool" where
  "mk_worker_pool max_queue_size =
     \<lparr>pool_queue = [], pool_max_queue_size = max_queue_size, pool_running = True, completions = []\<rparr>"

definition queue_size :: "worker_pool \<Rightarrow> size_t" where
  "queue_size p = word_of_nat (length (pool_queue p))"

definition is_full :: "worker_pool \<Rightarrow> bool" where
  "is_full p \<longleftrightarrow> queue_size p \<ge> pool_max_queue_size p"

definition submit :: "task \<Rightarrow> worker_pool \<Rightarrow> bool \<times> worker_pool" where
  "submit t p =
     (if \<not> pool_running p \<or> queue_size p \<ge> pool_max_queue_size p then (False, p)
      else (True, p\<lparr>pool_queue := pool_queue p @ [t]\<rparr>))"

definition post_result :: "socket \<Rightarrow> uint64_t \<Rightarrow> string \<Rightarrow> worker_pool \<Rightarrow> worker_pool" where
  "post_result c n r p =
     p\<lparr>completions := completion_push \<lparr>result_client = c, result_seq = n, response = r\<rparr> (completions p)\<rparr>"

lemma completion_drain_all: "completion_drain out q = (out @ q, [])"
  by (induction out q rule: completion_drain.induct) simp_all

section \<open>The threads\<close>

text \<open>
  A worker waits, executes its task, may still have to log it, posts the result, or has left the
  loop.  SET and DEL release the shard's lock before they log, so another worker may run in
  between; LPUSH and HSET log while they hold it.
\<close>

datatype worker_pc =
    Idle
  | Working task
  | Logging task string
  | Posting task string
  | Exited

fun logs_under_lock :: "command \<Rightarrow> bool" where
  "logs_under_lock (LPushCommand _ _ _) = True"
| "logs_under_lock (HSetCommand _ _ _ _) = True"
| "logs_under_lock _ = False"

text \<open>
  The ghost fields record the accepted tasks, the tasks handed to a worker and the results drained
  by the reactor, each in order, the commands executed with the time each one read, the client
  each was executed for, and the commands that took effect on the store and in the log.
\<close>

record 'u pool_system =
  wpool :: worker_pool
  engine_router :: "'u shard_router"
  engine_aof :: "aof_logger option"
  workers :: "worker_pc list"
  submitted :: "task list"
  taken :: "task list"
  delivered :: "task_result list"
  executed :: "(time_point \<times> command) list"
  served :: "socket list"
  applied :: "command list"
  logged :: "command list"

definition set_worker :: "nat \<Rightarrow> worker_pc \<Rightarrow> 'u pool_system \<Rightarrow> 'u pool_system" where
  "set_worker i x s = s\<lparr>workers := (workers s)[i := x]\<rparr>"

text \<open>One step of one worker: the loop of \<^verbatim>\<open>worker_loop\<close> with the command's execution.\<close>

inductive worker_step :: "'u pmr_env \<Rightarrow> 'u pool_system \<Rightarrow> 'u pool_system \<Rightarrow> bool" for env where
  take: "i < length (workers s) \<Longrightarrow> workers s ! i = Idle \<Longrightarrow> pool_queue (wpool s) = t # q \<Longrightarrow>
     worker_step env s ((set_worker i (Working t) s)
       \<lparr>wpool := (wpool s)\<lparr>pool_queue := q\<rparr>, taken := taken s @ [t]\<rparr>)"
| quit: "i < length (workers s) \<Longrightarrow> workers s ! i = Idle \<Longrightarrow> \<not> pool_running (wpool s) \<Longrightarrow>
     pool_queue (wpool s) = [] \<Longrightarrow> worker_step env s (set_worker i Exited s)"
| exec: "i < length (workers s) \<Longrightarrow> workers s ! i = Working t \<Longrightarrow> \<not> logs_under_lock (task_command t) \<Longrightarrow>
     perform env now (task_command t) (engine_router s) = (reply, ok, r) \<Longrightarrow>
     worker_step env s ((set_worker i (if ok then Logging t reply else Posting t reply) s)
       \<lparr>engine_router := r, executed := executed s @ [(now, task_command t)], served := served s @ [task_client t],
         applied := (if ok then applied s @ [task_command t] else applied s)\<rparr>)"
| exec_locked: "i < length (workers s) \<Longrightarrow> workers s ! i = Working t \<Longrightarrow> logs_under_lock (task_command t) \<Longrightarrow>
     perform env now (task_command t) (engine_router s) = (reply, ok, r) \<Longrightarrow>
     worker_step env s ((set_worker i (Posting t reply) s)
       \<lparr>engine_router := r,
         executed := executed s @ [(now, task_command t)], served := served s @ [task_client t],
         engine_aof := (if ok then log_write (task_command t) (engine_aof s) else engine_aof s),
         applied := (if ok then applied s @ [task_command t] else applied s),
         logged := (if ok then logged s @ [task_command t] else logged s)\<rparr>)"
| log: "i < length (workers s) \<Longrightarrow> workers s ! i = Logging t reply \<Longrightarrow>
     worker_step env s ((set_worker i (Posting t reply) s)
       \<lparr>engine_aof := log_write (task_command t) (engine_aof s), logged := logged s @ [task_command t]\<rparr>)"
| post: "i < length (workers s) \<Longrightarrow> workers s ! i = Posting t reply \<Longrightarrow>
     worker_step env s ((set_worker i Idle s)
       \<lparr>wpool := post_result (task_client t) (task_seq t) reply (wpool s)\<rparr>)"

text \<open>The pool with its callers: tasks are submitted, workers move, results are drained, the pool is shut down.\<close>

inductive pool_step :: "'u pmr_env \<Rightarrow> 'u pool_system \<Rightarrow> 'u pool_system \<Rightarrow> bool" for env where
  accept: "submit t (wpool s) = (True, p) \<Longrightarrow>
     pool_step env s (s\<lparr>wpool := p, submitted := submitted s @ [t]\<rparr>)"
| reject: "submit t (wpool s) = (False, p) \<Longrightarrow> pool_step env s (s\<lparr>wpool := p\<rparr>)"
| work: "worker_step env s t \<Longrightarrow> pool_step env s t"
| drain: "completion_drain [] (completions (wpool s)) = (results, q) \<Longrightarrow>
     pool_step env s (s\<lparr>wpool := (wpool s)\<lparr>completions := q\<rparr>, delivered := delivered s @ results\<rparr>)"
| shutdown: "pool_running (wpool s) \<Longrightarrow>
     pool_step env s (s\<lparr>wpool := (wpool s)\<lparr>pool_running := False\<rparr>\<rparr>)"

definition pool_start :: "nat \<Rightarrow> size_t \<Rightarrow> 'u shard_router \<Rightarrow> aof_logger option \<Rightarrow> 'u pool_system" where
  "pool_start n max_queue r aof =
     \<lparr>wpool = mk_worker_pool max_queue, engine_router = r, engine_aof = aof, workers = replicate n Idle,
      submitted = [], taken = [], delivered = [], executed = [], served = [], applied = [], logged = []\<rparr>"

section \<open>Exactly one answer\<close>

abbreviation ticket :: "task \<Rightarrow> socket \<times> uint64_t" where
  "ticket t \<equiv> (task_client t, task_seq t)"

abbreviation result_ticket :: "task_result \<Rightarrow> socket \<times> uint64_t" where
  "result_ticket r \<equiv> (result_client r, result_seq r)"

fun worker_task :: "worker_pc \<Rightarrow> task list" where
  "worker_task (Working t) = [t]"
| "worker_task (Logging t _) = [t]"
| "worker_task (Posting t _) = [t]"
| "worker_task _ = []"

fun worker_to_log :: "worker_pc \<Rightarrow> command list" where
  "worker_to_log (Logging t _) = [task_command t]"
| "worker_to_log _ = []"

abbreviation worker_tickets :: "worker_pc \<Rightarrow> (socket \<times> uint64_t) list" where
  "worker_tickets w \<equiv> map ticket (worker_task w)"

abbreviation answered :: "'u pool_system \<Rightarrow> task_result list" where
  "answered s \<equiv> delivered s @ completions (wpool s)"

text \<open>What took effect has been logged or is about to be.\<close>

definition log_balanced :: "'u pool_system \<Rightarrow> bool" where
  "log_balanced s \<longleftrightarrow> mset (applied s) = held_items worker_to_log (workers s) + mset (logged s)"

definition pool_inv :: "size_t \<Rightarrow> aof_logger option \<Rightarrow> 'u pool_system \<Rightarrow> bool" where
  "pool_inv max_queue aof s \<longleftrightarrow>
     submitted s = taken s @ pool_queue (wpool s) \<and>
     mset (map ticket (taken s)) = held_items worker_tickets (workers s) + mset (map result_ticket (answered s)) \<and>
     log_balanced s \<and>
     engine_aof s = fold log_write (logged s) aof \<and>
     (Exited \<in> set (workers s) \<longrightarrow> \<not> pool_running (wpool s) \<and> pool_queue (wpool s) = []) \<and>
     pool_max_queue_size (wpool s) = max_queue \<and> length (pool_queue (wpool s)) \<le> unat max_queue"

lemma set_worker_simps [simp]:
  "workers (set_worker i x s) = (workers s)[i := x]" "wpool (set_worker i x s) = wpool s"
  "executed (set_worker i x s) = executed s" "served (set_worker i x s) = served s" "submitted (set_worker i x s) = submitted s" "taken (set_worker i x s) = taken s"
  "delivered (set_worker i x s) = delivered s" "applied (set_worker i x s) = applied s"
  "logged (set_worker i x s) = logged s" "engine_aof (set_worker i x s) = engine_aof s"
  "engine_router (set_worker i x s) = engine_router s"
  by (simp_all add: set_worker_def)

lemma post_result_simps [simp]:
  "pool_queue (post_result c n r p) = pool_queue p" "pool_running (post_result c n r p) = pool_running p"
  "pool_max_queue_size (post_result c n r p) = pool_max_queue_size p"
  "completions (post_result c n r p) = completions p @ [\<lparr>result_client = c, result_seq = n, response = r\<rparr>]"
  by (simp_all add: post_result_def completion_push_def)

lemma submit_accepts:
  assumes "submit t p = (True, p')" and "length (pool_queue p) \<le> unat (pool_max_queue_size p)"
  shows "p' = p\<lparr>pool_queue := pool_queue p @ [t]\<rparr> \<and> pool_running p \<and>
    length (pool_queue p) < unat (pool_max_queue_size p)"
proof -
  have "unat (queue_size p) = length (pool_queue p)"
    using assms(2) unat_less_64 [of "pool_max_queue_size p"]
    by (simp add: queue_size_def unat_of_nat)
  with assms(1) show ?thesis
    by (auto simp: submit_def word_le_nat_alt not_le split: if_splits)
qed

lemma submit_rejects: "submit t p = (False, p') \<Longrightarrow> p' = p"
  by (auto simp: submit_def split: if_splits)

lemma held_same: "i < length ws \<Longrightarrow> f x = f (ws ! i) \<Longrightarrow> held_items f (ws[i := x]) = held_items f ws"
  using held_update [of i ws f x] by simp

lemma Exited_update: "Exited \<in> set (ws[i := x]) \<Longrightarrow> x \<noteq> Exited \<Longrightarrow> Exited \<in> set ws"
  by (metis insert_iff set_update_subset_insert subsetD)

lemma worker_step_balanced:
  assumes "worker_step env s t" and "log_balanced s"
  shows "log_balanced t"
  using assms
proof (induction rule: worker_step.induct)
  case (exec i s t now reply ok r)
  then show ?case
    using held_update [of i "workers s" worker_to_log "if ok then Logging t reply else Posting t reply"]
    by (auto simp: log_balanced_def)
next
  case (log i s t reply)
  then show ?case
    using held_update [of i "workers s" worker_to_log "Posting t reply"] by (simp add: log_balanced_def)
qed (simp_all add: log_balanced_def held_same)

lemma worker_step_inv:
  assumes "pool_inv mx aof s" and "worker_step env s s'"
  shows "pool_inv mx aof s'"
proof -
  have "log_balanced s'" using worker_step_balanced assms by (auto simp: pool_inv_def)
  with assms(2,1) show ?thesis
  proof (induction rule: worker_step.induct)
    case (take i s t q)
    have "held_items worker_tickets ((workers s)[i := Working t]) = held_items worker_tickets (workers s) + {#ticket t#}"
      using held_update [of i "workers s" worker_tickets "Working t"] take.hyps by simp
    with take show ?case by (auto simp: pool_inv_def dest: Exited_update)
  next
    case (quit i s)
    then show ?case by (auto simp: pool_inv_def held_same)
  next
    case (exec i s t now reply ok r)
    then show ?case by (auto simp: pool_inv_def held_same dest: Exited_update)
  next
    case (exec_locked i s t now reply ok r)
    then show ?case by (auto simp: pool_inv_def held_same dest: Exited_update)
  next
    case (log i s t reply)
    then show ?case by (auto simp: pool_inv_def held_same dest: Exited_update)
  next
    case (post i s t reply)
    have "held_items worker_tickets (workers s) = held_items worker_tickets ((workers s)[i := Idle]) + {#ticket t#}"
      using held_update [of i "workers s" worker_tickets Idle] post.hyps by simp
    with post show ?case by (auto simp: pool_inv_def dest: Exited_update)
  qed
qed

lemma pool_step_inv:
  assumes "pool_inv mx aof s" and "pool_step env s s'"
  shows "pool_inv mx aof s'"
  using assms(2,1)
proof (induction rule: pool_step.induct)
  case (accept t s p)
  then show ?case by (auto simp: pool_inv_def log_balanced_def dest!: submit_accepts)
next
  case (reject t s p)
  then show ?case by (auto simp: pool_inv_def log_balanced_def dest!: submit_rejects)
next
  case (work s t)
  then show ?case by (metis worker_step_inv)
next
  case (drain s results q)
  then show ?case by (auto simp: pool_inv_def log_balanced_def completion_drain_all)
next
  case (shutdown s)
  then show ?case by (auto simp: pool_inv_def log_balanced_def)
qed

interpretation worker_pool: step_invariant
  "\<lambda>s. \<exists>n r. s = pool_start n mx r aof" "pool_step env" "pool_inv mx aof"
proof unfold_locales
  fix s t :: "'a pool_system"
  show "\<exists>n r. s = pool_start n mx r aof \<Longrightarrow> pool_inv mx aof s"
    by (auto simp: pool_inv_def log_balanced_def pool_start_def mk_worker_pool_def intro!: held_nil)
  show "pool_inv mx aof s \<Longrightarrow> pool_step env s t \<Longrightarrow> pool_inv mx aof t" by (rule pool_step_inv)
qed

lemma worker_step_workers: "worker_step env s t \<Longrightarrow> length (workers t) = length (workers s)"
  by (induction rule: worker_step.induct) simp_all

lemma pool_step_workers: "pool_step env s t \<Longrightarrow> length (workers t) = length (workers s)"
  by (induction rule: pool_step.induct) (simp_all add: worker_step_workers)

lemma pool_run_workers: "(pool_step env)\<^sup>*\<^sup>* s t \<Longrightarrow> length (workers t) = length (workers s)"
  by (induction rule: rtranclp_induct) (auto dest: pool_step_workers)

section \<open>Shutting down\<close>

text \<open>What is left to do: five steps for a queued task, fewer the further a worker has come.\<close>

fun worker_rank :: "worker_pc \<Rightarrow> nat" where
  "worker_rank Exited = 0"
| "worker_rank Idle = 1"
| "worker_rank (Posting _ _) = 2"
| "worker_rank (Logging _ _) = 3"
| "worker_rank (Working _) = 4"

lemma worker_rank_le: "worker_rank w \<le> 4"
  by (cases w) simp_all

definition work_left :: "'u pool_system \<Rightarrow> nat" where
  "work_left s = 5 * length (pool_queue (wpool s)) + sum_list (map worker_rank (workers s))"

lemma rank_update:
  assumes "i < length ws"
  shows "sum_list (map worker_rank (ws[i := x])) + worker_rank (ws ! i) = sum_list (map worker_rank ws) + worker_rank x"
  unfolding map_update using assms
  by (simp add: sum_list_update)
    (metis add.commute add_diff_inverse_nat elem_le_sum_list length_map not_less nth_map trans_le_add1)

lemma worker_progress_by:
  assumes "i < length (workers s)" and "workers t = (workers s)[i := x]"
    and "worker_rank x < worker_rank (workers s ! i)" and "pool_queue (wpool t) = pool_queue (wpool s)"
  shows "work_left t < work_left s"
  using rank_update [OF assms(1), of x] assms(2-4) by (simp add: work_left_def)

text \<open>Every step of a worker leaves less to do, so the workers alone always come to rest.\<close>

lemma worker_step_decreases:
  assumes "worker_step env s t"
  shows "work_left t < work_left s"
  using assms
proof cases
  case (take i t' q)
  then show ?thesis using rank_update [of i "workers s" "Working t'"] by (simp add: work_left_def)
next
  case (quit i)
  then show ?thesis by (intro worker_progress_by [of i s t Exited]) auto
next
  case (exec i t' now reply ok r)
  then show ?thesis
    by (intro worker_progress_by [of i s t "if ok then Logging t' reply else Posting t' reply"]) auto
next
  case (exec_locked i t' now reply ok r)
  then show ?thesis by (intro worker_progress_by [of i s t "Posting t' reply"]) auto
next
  case (log i t' reply)
  then show ?thesis by (intro worker_progress_by [of i s t "Posting t' reply"]) auto
next
  case (post i t' reply)
  then show ?thesis by (intro worker_progress_by [of i s t Idle]) auto
qed

lemma worker_step_running:
  "worker_step env s t \<Longrightarrow> pool_running (wpool t) = pool_running (wpool s) \<and> submitted t = submitted s"
  by (induction rule: worker_step.induct) simp_all

text \<open>A worker can move unless it has left the loop or waits on the empty queue of a running pool.\<close>

definition at_rest :: "'u pool_system \<Rightarrow> worker_pc \<Rightarrow> bool" where
  "at_rest s w \<longleftrightarrow> w = Exited \<or> (w = Idle \<and> pool_running (wpool s) \<and> pool_queue (wpool s) = [])"

lemma worker_progress:
  assumes "i < length (workers s)" and "\<not> at_rest s (workers s ! i)"
  shows "\<exists>t. worker_step env s t"
proof (cases "workers s ! i")
  case Idle
  with assms show ?thesis
    by (cases "pool_queue (wpool s)") (auto simp: at_rest_def intro: worker_step.quit worker_step.take)
next
  case (Working t)
  obtain reply ok r where "perform env 0 (task_command t) (engine_router s) = (reply, ok, r)"
    by (metis surj_pair)
  with Working assms(1) show ?thesis by (blast intro: worker_step.exec worker_step.exec_locked)
qed (use assms in \<open>auto simp: at_rest_def intro: worker_step.log worker_step.post\<close>)

interpretation pool_workers: draining_system
  "\<lambda>s. \<not> pool_running (wpool s)" "worker_step env" "\<lambda>s. \<not> pool_running (wpool s)" work_left
  "\<lambda>s. \<forall>w \<in> set (workers s). w = Exited"
proof unfold_locales
  fix s t :: "'a pool_system"
  show "\<not> pool_running (wpool s) \<Longrightarrow> worker_step env s t \<Longrightarrow> \<not> pool_running (wpool t)"
    by (simp add: worker_step_running)
  assume s: "\<not> pool_running (wpool s)" "\<not> (\<forall>w \<in> set (workers s). w = Exited)"
  then obtain i where "i < length (workers s)" "\<not> at_rest s (workers s ! i)" by (metis at_rest_def in_set_conv_nth)
  from worker_progress [OF this] worker_step_decreases
  show "\<exists>t. worker_step env s t \<and> work_left t < work_left s" by blast
qed

lemma workers_run:
  "(worker_step env)\<^sup>*\<^sup>* s t \<Longrightarrow> (pool_step env)\<^sup>*\<^sup>* s t \<and> pool_running (wpool t) = pool_running (wpool s) \<and>
     submitted t = submitted s \<and> length (workers t) = length (workers s)"
proof (induction rule: rtranclp_induct)
  case (step t u)
  then show ?case
    using worker_step_running [OF step.hyps(2)] worker_step_workers [OF step.hyps(2)]
    by (auto intro: rtranclp.rtrancl_into_rtrancl pool_step.work)
qed simp

text \<open>With one worker the order of the log is the order of the effects.\<close>

lemma one_worker_step:
  assumes "pool_step env s t" and "length (workers s) = 1"
    and "applied s = logged s @ worker_to_log (workers s ! 0)"
  shows "applied t = logged t @ worker_to_log (workers t ! 0)"
  using assms
proof (induction rule: pool_step.induct)
  case (work s t)
  then show ?case by (induction rule: worker_step.induct) auto
qed auto

lemma one_worker_run:
  assumes "(pool_step env)\<^sup>*\<^sup>* s t" and "length (workers s) = 1"
    and "applied s = logged s @ worker_to_log (workers s ! 0)"
  shows "applied t = logged t @ worker_to_log (workers t ! 0)"
  using assms
proof (induction rule: rtranclp_induct)
  case (step u v)
  then show ?case using one_worker_step [of env u v] pool_run_workers [of env s u] by simp
qed simp

lemma pool_exactly_once_core:
  "(pool_step env)\<^sup>*\<^sup>* (pool_start n mx r aof) s \<Longrightarrow> submitted s = taken s @ pool_queue (wpool s)"
  using worker_pool.reachable_inv [of "pool_start n mx r aof" mx aof env s] by (auto simp: pool_inv_def)

text \<open>Without workers nothing is ever taken from the queue.\<close>

lemma no_worker_step:
  "pool_step env s t \<Longrightarrow> workers s = [] \<Longrightarrow> taken t = taken s \<and> answered t = answered s \<and> workers t = []"
proof (induction rule: pool_step.induct)
  case (work s t)
  then show ?case by (induction rule: worker_step.induct) auto
qed (auto simp: completion_drain_all submit_def split: if_splits)

section \<open>Properties\<close>

text \<open>
  C7.  Every accepted task is answered at most once and never lost: in every reachable state the
  accepted tasks are those still queued, those held by a worker and those answered, with their
  client and sequence number, and tasks are handed out in the order they were accepted.  The queue
  never grows beyond its limit.
\<close>

theorem pool_exactly_once:
  assumes "(pool_step env)\<^sup>*\<^sup>* (pool_start n mx r aof) s"
  shows "submitted s = taken s @ pool_queue (wpool s) \<and>
    mset (map ticket (submitted s)) = mset (map ticket (pool_queue (wpool s)))
      + held_items worker_tickets (workers s) + mset (map result_ticket (answered s)) \<and>
    length (pool_queue (wpool s)) \<le> unat mx"
proof -
  have "pool_inv mx aof s" using worker_pool.reachable_inv [OF _ assms] by blast
  then show ?thesis by (simp add: pool_inv_def ac_simps)
qed

text \<open>
  A shutdown drains the pool: once \<^verbatim>\<open>running_\<close> is cleared, a pool with at least one worker can
  always reach the state in which every worker has left its loop, and then every task that was
  ever accepted has its one answer in the completion queue or with the reactor.
\<close>

theorem pool_shutdown_drains:
  assumes "(pool_step env)\<^sup>*\<^sup>* (pool_start n mx r aof) s" and "0 < n" and "\<not> pool_running (wpool s)"
  shows "\<exists>t. (pool_step env)\<^sup>*\<^sup>* s t \<and> (\<forall>w \<in> set (workers t). w = Exited) \<and>
    submitted t = submitted s \<and> mset (map result_ticket (answered t)) = mset (map ticket (submitted s))"
proof -
  from pool_workers.drains [OF assms(3)] workers_run obtain t where t: "(pool_step env)\<^sup>*\<^sup>* s t"
    "\<forall>w \<in> set (workers t). w = Exited" "submitted t = submitted s" by metis
  from assms(1) t(1) have run: "(pool_step env)\<^sup>*\<^sup>* (pool_start n mx r aof) t" by simp
  have "length (workers t) = n" using pool_run_workers [OF run] by (simp add: pool_start_def)
  then have "workers t ! 0 \<in> set (workers t)" using assms(2) by simp
  with t(2) have "Exited \<in> set (workers t)" by metis
  moreover have inv: "pool_inv mx aof t" using worker_pool.reachable_inv [OF _ run] by blast
  ultimately have "pool_queue (wpool t) = []" by (simp add: pool_inv_def)
  moreover have "held_items worker_tickets (workers t) = {#}" using t(2) by (intro held_nil) auto
  ultimately have "mset (map result_ticket (answered t)) = mset (map ticket (submitted t))"
    using inv by (simp add: pool_inv_def)
  with t show ?thesis by auto
qed

text \<open>
  C12.  The workers always come to rest by themselves: from any state they can take at most five steps
  for each queued task and four for each worker.  When they can go no further each has left
  its loop or waits on the empty queue of a running pool.
\<close>

theorem workers_terminate:
  assumes "(worker_step env ^^ k) s t"
  shows "k \<le> 5 * length (pool_queue (wpool s)) + 4 * length (workers s) \<and>
    ((\<nexists>u. worker_step env t u) \<longrightarrow> (\<forall>w \<in> set (workers t). at_rest t w))"
proof -
  have "k + work_left t \<le> work_left s"
    using assms
  proof (induction k arbitrary: t)
    case (Suc k)
    then obtain u where "(worker_step env ^^ k) s u" "worker_step env u t" by auto
    with Suc.IH worker_step_decreases show ?case by fastforce
  qed simp
  moreover have "sum_list (map worker_rank ws) \<le> 4 * length ws" for ws
    by (induction ws) (auto intro: add_mono worker_rank_le)
  ultimately have "k \<le> 5 * length (pool_queue (wpool s)) + 4 * length (workers s)"
    unfolding work_left_def by (meson add_left_mono add_leD1 le_trans)
  moreover have "at_rest t w" if "\<nexists>u. worker_step env t u" "w \<in> set (workers t)" for w
    using that worker_progress by (metis in_set_conv_nth)
  ultimately show ?thesis by blast
qed

text \<open>
  Every write that took effect is logged exactly once: the commands in the log and those a worker
  is about to log are, as multisets, the commands that changed the store; the log was written by
  nothing else.  With a single worker also the order is the same.
\<close>

theorem pool_logs_writes:
  assumes "(pool_step env)\<^sup>*\<^sup>* (pool_start n mx r aof) s"
  shows "mset (applied s) = mset (logged s) + held_items worker_to_log (workers s) \<and>
    engine_aof s = fold log_write (logged s) aof \<and>
    (n = 1 \<longrightarrow> applied s = logged s @ worker_to_log (workers s ! 0))"
proof -
  have "pool_inv mx aof s" using worker_pool.reachable_inv [OF _ assms] by blast
  moreover have "n = 1 \<longrightarrow> applied s = logged s @ worker_to_log (workers s ! 0)"
  proof
    assume n: "n = 1"
    show "applied s = logged s @ worker_to_log (workers s ! 0)"
      by (rule one_worker_run [OF assms]) (simp_all add: pool_start_def n)
  qed
  ultimately show ?thesis by (simp add: pool_inv_def log_balanced_def ac_simps)
qed

text \<open>A two-worker system in which a SET and a DEL of the same key are executed.\<close>

definition demo_set :: task where
  "demo_set = \<lparr>task_command = SetCommand ''l'' ''a'' 60, task_client = 3, task_seq = 0\<rparr>"

definition demo_del :: task where
  "demo_del = \<lparr>task_command = DelCommand ''l'', task_client = 3, task_seq = 1\<rparr>"

definition demo_state ::
  "task list \<Rightarrow> worker_pc list \<Rightarrow> nat shard_router \<Rightarrow> command list \<Rightarrow> command list \<Rightarrow> nat pool_system" where
  "demo_state q ws r ap lg =
     \<lparr>wpool = (mk_worker_pool 10)\<lparr>pool_queue := q\<rparr>, engine_router = r, engine_aof = None, workers = ws,
      submitted = [demo_set, demo_del], taken = take (2 - length q) [demo_set, demo_del], delivered = [],
      executed = map (Pair 0) ap, served = replicate (length ap) 3, applied = ap, logged = lg\<rparr>"

lemmas demo_task_defs = demo_set_def demo_del_def

lemma demo_set_performs:
  "\<exists>reply r1 reply' r2. perform demo_env 0 (SetCommand ''l'' ''a'' 60) demo_router = (reply, True, r1) \<and>
     perform demo_env 0 (DelCommand ''l'') r1 = (reply', True, r2) \<and> router_entry r2 ''l'' = None"
proof -
  let ?p = "perform demo_env 0 (SetCommand ''l'' ''a'' 60) demo_router"
  have "fst (snd ?p)" by (simp add: router_set_def demo_router_simps del: demo_router_fresh)
  then obtain reply r1 where p: "?p = (reply, True, r1)" by (metis prod.collapse pair_of_fst)
  note wf1 = perform_wf [OF demo_router_wf p]
  obtain reply' ok r2 where p': "perform demo_env 0 (DelCommand ''l'') r1 = (reply', ok, r2)" by (metis surj_pair)
  then have d: "router_del ''l'' r1 = (ok, r2)" by (auto split: prod.splits)
  have "router_entry r1 ''l'' \<noteq> None" using perform_entry [OF demo_router_wf p] by simp
  with router_store.del_removes [OF wf1 d] p p' show ?thesis by auto
qed

lemma demo_accept:
  "(pool_step demo_env)\<^sup>*\<^sup>* (pool_start 2 10 r None)
     ((pool_start 2 10 r None)\<lparr>wpool := (mk_worker_pool 10)\<lparr>pool_queue := [demo_set, demo_del]\<rparr>,
        submitted := [demo_set, demo_del]\<rparr>)"
proof -
  let ?s0 = "pool_start 2 10 r None :: nat pool_system"
  let ?s1 = "?s0\<lparr>wpool := (mk_worker_pool 10)\<lparr>pool_queue := [demo_set]\<rparr>, submitted := [demo_set]\<rparr>"
  have "pool_step demo_env ?s0 ?s1"
    using pool_step.accept [of demo_set ?s0 "(mk_worker_pool 10)\<lparr>pool_queue := [demo_set]\<rparr>" demo_env]
    by (simp add: pool_start_def mk_worker_pool_def submit_def queue_size_def)
  moreover have "pool_step demo_env ?s1
      (?s0\<lparr>wpool := (mk_worker_pool 10)\<lparr>pool_queue := [demo_set, demo_del]\<rparr>, submitted := [demo_set, demo_del]\<rparr>)"
    using pool_step.accept [of demo_del ?s1 "(mk_worker_pool 10)\<lparr>pool_queue := [demo_set, demo_del]\<rparr>" demo_env]
    by (simp add: pool_start_def mk_worker_pool_def submit_def queue_size_def word_le_nat_alt)
  ultimately show ?thesis by (meson converse_rtranclp_into_rtranclp rtranclp.rtrancl_refl)
qed

text \<open>Both tasks are taken and executed before either is logged, and the second one is logged first.\<close>

lemma demo_race_run:
  assumes p1: "perform demo_env 0 (SetCommand ''l'' ''a'' 60) r = (reply, True, r1)"
    and p2: "perform demo_env 0 (DelCommand ''l'') r1 = (reply', True, r2)"
  shows "(pool_step demo_env)\<^sup>*\<^sup>* (demo_state [demo_set, demo_del] [Idle, Idle] r [] [])
    (demo_state [] [Posting demo_set reply, Posting demo_del reply'] r2
       [SetCommand ''l'' ''a'' 60, DelCommand ''l''] [DelCommand ''l'', SetCommand ''l'' ''a'' 60])"
proof -
  let ?S = demo_state and ?cs = "SetCommand ''l'' ''a'' 60" and ?cd = "DelCommand ''l''"
  let ?s1 = "?S [demo_del] [Working demo_set, Idle] r [] []"
  let ?s2 = "?S [] [Working demo_set, Working demo_del] r [] []"
  let ?s3 = "?S [] [Logging demo_set reply, Working demo_del] r1 [?cs] []"
  let ?s4 = "?S [] [Logging demo_set reply, Logging demo_del reply'] r2 [?cs, ?cd] []"
  let ?s5 = "?S [] [Logging demo_set reply, Posting demo_del reply'] r2 [?cs, ?cd] [?cd]"
  note simps = demo_state_def set_worker_def demo_task_defs log_write_def numeral_2_eq_2
  have "pool_step demo_env (?S [demo_set, demo_del] [Idle, Idle] r [] []) ?s1"
    using worker_step.take [of 0 "?S [demo_set, demo_del] [Idle, Idle] r [] []" demo_set "[demo_del]" demo_env]
    by (intro pool_step.work) (simp add: simps)
  moreover have "pool_step demo_env ?s1 ?s2"
    using worker_step.take [of 1 ?s1 demo_del "[]" demo_env] by (intro pool_step.work) (simp add: simps)
  moreover have "pool_step demo_env ?s2 ?s3"
    using worker_step.exec [of 0 ?s2 demo_set demo_env 0 reply True r1] p1 by (intro pool_step.work) (simp add: simps del: perform.simps)
  moreover have "pool_step demo_env ?s3 ?s4"
    using worker_step.exec [of 1 ?s3 demo_del demo_env 0 reply' True r2] p2 by (intro pool_step.work) (simp add: simps del: perform.simps)
  moreover have "pool_step demo_env ?s4 ?s5"
    using worker_step.log [of 1 ?s4 demo_del reply' demo_env] by (intro pool_step.work) (simp add: simps)
  moreover have "pool_step demo_env ?s5
      (?S [] [Posting demo_set reply, Posting demo_del reply'] r2 [?cs, ?cd] [?cd, ?cs])"
    using worker_step.log [of 0 ?s5 demo_set reply demo_env] by (intro pool_step.work) (simp add: simps)
  ultimately show ?thesis by (meson converse_rtranclp_into_rtranclp rtranclp.rtrancl_refl)
qed


theorem pool_exactly_once_witness:
  "\<exists>s. submitted s = [demo_set, demo_del] \<and> pool_queue (wpool s) = [demo_set, demo_del] \<and>
     mset (map ticket (submitted s)) = mset (map ticket (pool_queue (wpool s)))
       + held_items worker_tickets (workers s) + mset (map result_ticket (answered (s :: nat pool_system)))"
  using pool_exactly_once [OF demo_accept [of demo_router]]
  by (intro exI [of _ "(pool_start 2 10 demo_router None)\<lparr>wpool := (mk_worker_pool 10)\<lparr>pool_queue := [demo_set, demo_del]\<rparr>,
      submitted := [demo_set, demo_del]\<rparr>"] conjI) auto

theorem pool_shutdown_drains_witness:
  "\<exists>t :: nat pool_system. (\<forall>w \<in> set (workers t). w = Exited) \<and>
     mset (map result_ticket (answered t)) = {#(3, 0), (3, 1)#}"
proof -
  let ?s = "(pool_start 2 10 demo_router None)\<lparr>wpool := (mk_worker_pool 10)\<lparr>pool_queue := [demo_set, demo_del]\<rparr>,
    submitted := [demo_set, demo_del]\<rparr>"
  let ?t = "?s\<lparr>wpool := (wpool ?s)\<lparr>pool_running := False\<rparr>\<rparr>"
  have "pool_step demo_env ?s ?t" by (rule pool_step.shutdown) (simp add: mk_worker_pool_def)
  with demo_accept [of demo_router] have "(pool_step demo_env)\<^sup>*\<^sup>* (pool_start 2 10 demo_router None) ?t" by simp
  from pool_shutdown_drains [OF this] show ?thesis by (auto simp: demo_task_defs)
qed

theorem workers_terminate_witness:
  "at_rest (pool_start 1 10 demo_router None :: nat pool_system) Idle"
proof -
  let ?s = "pool_start 1 10 demo_router None :: nat pool_system"
  have "\<nexists>u. worker_step demo_env ?s u"
    by (auto simp: pool_start_def mk_worker_pool_def elim!: worker_step.cases)
  with workers_terminate [of 0 demo_env ?s ?s] show ?thesis by (auto simp: pool_start_def)
qed

theorem pool_logs_writes_witness:
  "\<exists>s :: nat pool_system. submitted s = [demo_set, demo_del] \<and> mset (applied s) = mset (logged s) + held_items worker_to_log (workers s)"
  using pool_logs_writes [OF demo_accept [of demo_router]]
  by (intro exI [of _ "(pool_start 2 10 demo_router None)\<lparr>wpool := (mk_worker_pool 10)\<lparr>pool_queue := [demo_set, demo_del]\<rparr>,
      submitted := [demo_set, demo_del]\<rparr>"] conjI) auto

text \<open>
  A pool that was given no worker threads, which is what \<^verbatim>\<open>main\<close> asks for where
  \<^verbatim>\<open>hardware_concurrency\<close> cannot tell and returns 0, accepts tasks but never answers one.
\<close>

theorem pool_without_workers:
  assumes "(pool_step env)\<^sup>*\<^sup>* (pool_start 0 mx r aof) s"
  shows "taken s = [] \<and> answered s = [] \<and> submitted s = pool_queue (wpool s)"
proof -
  have "taken s = [] \<and> answered s = [] \<and> workers s = []"
    using assms
  proof (induction rule: rtranclp_induct)
    case (step s t)
    then show ?case using no_worker_step [of env s t] by simp
  qed (simp add: pool_start_def mk_worker_pool_def)
  with pool_exactly_once_core [OF assms] show ?thesis by simp
qed

theorem pool_without_workers_witness:
  "\<exists>s :: nat pool_system. submitted s = [demo_set] \<and> answered s = []"
proof -
  let ?init = "pool_start 0 10 demo_router None :: nat pool_system"
  let ?next = "?init\<lparr>wpool := (mk_worker_pool 10)\<lparr>pool_queue := [demo_set]\<rparr>, submitted := [demo_set]\<rparr>"
  have "pool_step demo_env ?init ?next"
    using pool_step.accept [of demo_set ?init "(mk_worker_pool 10)\<lparr>pool_queue := [demo_set]\<rparr>" demo_env]
    by (simp add: pool_start_def mk_worker_pool_def submit_def queue_size_def)
  from pool_without_workers [OF r_into_rtranclp [of "pool_step demo_env", OF this]] show ?thesis
    by (intro exI [of _ ?next]) simp
qed

end
