(* ===== verification/KV_Pipeline.thy ===== *)
theory KV_Pipeline
  imports KV_Worker_Pool
begin

text \<open>
  rate_limiter.h, rate_limiter.cpp, pipeline.h and pipeline.cpp: the chain of handlers that takes a
  request line from the reactor to the worker pool.  A handler either answers through the completion
  queue and stops, or passes the context on.  The theorems show that every line leads to exactly one
  task or one answer, with the client and sequence number it came with.
\<close>

section \<open>RateLimiter\<close>

definition NUM_SHARDS :: size_t where
  "NUM_SHARDS = 64"

text \<open>\<^verbatim>\<open>std::hash\<close> of the platform is a parameter.\<close>

definition shard_for_ip :: "(string \<Rightarrow> size_t) \<Rightarrow> string \<Rightarrow> size_t" where
  "shard_for_ip hash ip = hash ip mod NUM_SHARDS"

text \<open>\<^verbatim>\<open>allow\<close> returns before it looks at any bucket; the token bucket below the return is dead code.\<close>

definition allow :: "string \<Rightarrow> bool" where
  "allow ip = True"

section \<open>Handlers\<close>

record pipeline_context =
  ctx_client :: socket
  ctx_line :: string
  ctx_seq_id :: uint64_t
  ctx_client_ip :: string
  ctx_tokens :: "string list"
  ctx_command :: "command option"
  ctx_pool :: worker_pool

datatype pipeline_handler = RateLimitHandler | TokenizeHandler | CommandParseHandler | DispatchHandler

definition err_rate_limit :: string where
  "err_rate_limit = ''-ERR rate limit exceeded'' @ crlf"

definition err_empty :: string where
  "err_empty = ''-ERR empty command'' @ crlf"

definition err_unknown :: string where
  "err_unknown = ''-ERR unknown command'' @ crlf"

definition err_busy :: string where
  "err_busy = ''-ERR server busy'' @ crlf"

text \<open>A handler pushes its own answer for the request of the context.\<close>

definition ctx_reply :: "string \<Rightarrow> pipeline_context \<Rightarrow> pipeline_context" where
  "ctx_reply msg ctx = ctx\<lparr>ctx_pool := post_result (ctx_client ctx) (ctx_seq_id ctx) msg (ctx_pool ctx)\<rparr>"

definition dispatch :: "pipeline_context \<Rightarrow> pipeline_context" where
  "dispatch ctx =
     (case ctx_command ctx of
        None \<Rightarrow> ctx
      | Some c \<Rightarrow>
          (case submit \<lparr>task_command = c, task_client = ctx_client ctx, task_seq = ctx_seq_id ctx\<rparr> (ctx_pool ctx) of
             (True, p) \<Rightarrow> ctx\<lparr>ctx_command := None, ctx_pool := p\<rparr>
           | (False, p) \<Rightarrow> ctx_reply err_busy (ctx\<lparr>ctx_command := None, ctx_pool := p\<rparr>)))"

text \<open>
  The chain built by \<^verbatim>\<open>set_next\<close> is the list of handlers; \<^verbatim>\<open>PipelineHandler::handle\<close> calls the next
  one, if any.
\<close>

fun handle :: "pipeline_handler list \<Rightarrow> pipeline_context \<Rightarrow> pipeline_context" where
  "handle [] ctx = ctx"
| "handle (RateLimitHandler # hs) ctx =
     (if \<not> allow (ctx_client_ip ctx) then ctx_reply err_rate_limit ctx else handle hs ctx)"
| "handle (TokenizeHandler # hs) ctx =
     (let ctx' = ctx\<lparr>ctx_tokens := ctx_tokens ctx @ tokenize (ctx_line ctx)\<rparr> in
      if ctx_tokens ctx' = [] then ctx_reply err_empty ctx' else handle hs ctx')"
| "handle (CommandParseHandler # hs) ctx =
     (let ctx' = ctx\<lparr>ctx_command := parse (ctx_tokens ctx)\<rparr> in
      if ctx_command ctx' = None then ctx_reply err_unknown ctx' else handle hs ctx')"
| "handle (DispatchHandler # hs) ctx = dispatch ctx"

definition pipeline_head :: "pipeline_handler list" where
  "pipeline_head = [RateLimitHandler, TokenizeHandler, CommandParseHandler, DispatchHandler]"

definition process :: "socket \<Rightarrow> string \<Rightarrow> uint64_t \<Rightarrow> string \<Rightarrow> worker_pool \<Rightarrow> worker_pool" where
  "process client line seq_id ip p =
     ctx_pool (handle pipeline_head
       \<lparr>ctx_client = client, ctx_line = line, ctx_seq_id = seq_id, ctx_client_ip = ip, ctx_tokens = [],
        ctx_command = None, ctx_pool = p\<rparr>)"

section \<open>What a request leads to\<close>

definition pool_tickets :: "worker_pool \<Rightarrow> (socket \<times> uint64_t) multiset" where
  "pool_tickets p = mset (map ticket (pool_queue p)) + mset (map result_ticket (completions p))"

lemma process_cases:
  "process client line seq_id ip p =
     (case parse_line line of
        None \<Rightarrow> post_result client seq_id (if tokenize line = [] then err_empty else err_unknown) p
      | Some c \<Rightarrow>
          if fst (submit \<lparr>task_command = c, task_client = client, task_seq = seq_id\<rparr> p)
          then p\<lparr>pool_queue := pool_queue p @ [\<lparr>task_command = c, task_client = client, task_seq = seq_id\<rparr>]\<rparr>
          else post_result client seq_id err_busy p)"
  by (auto simp: process_def pipeline_head_def allow_def ctx_reply_def dispatch_def parse_line_def submit_def
      Let_def parse_def split: option.splits)

lemma process_tickets:
  "pool_tickets (process client line seq_id ip p) = add_mset (client, seq_id) (pool_tickets p)"
  by (auto simp: process_cases pool_tickets_def split: option.splits)

section \<open>Properties\<close>

text \<open>
  Every request line leads to exactly one outcome with the client and the sequence number it came
  with: the parsed command is queued, or one error is answered (the line has no word, it is no
  command, the queue is full or the pool has stopped); nothing else in the pool changes.
\<close>

theorem pipeline_one_outcome:
  "(let p' = process client line seq_id ip p in
    pool_tickets p' = add_mset (client, seq_id) (pool_tickets p) \<and>
    pool_running p' = pool_running p \<and> pool_max_queue_size p' = pool_max_queue_size p \<and>
    ((\<exists>c. parse_line line = Some c \<and> completions p' = completions p \<and>
        pool_queue p' = pool_queue p @ [\<lparr>task_command = c, task_client = client, task_seq = seq_id\<rparr>]) \<or>
     (\<exists>msg \<in> {err_empty, err_unknown, err_busy}. pool_queue p' = pool_queue p \<and>
        completions p' = completions p @ [\<lparr>result_client = client, result_seq = seq_id, response = msg\<rparr>])))"
  by (auto simp: process_cases Let_def pool_tickets_def split: option.splits)

text \<open>
  Rate limiting is off: however many requests an address has made, the limiter lets the next one
  through and a request is never answered with the rate limit error.
\<close>

theorem rate_limit_disabled:
  "allow ip \<and> response ` set (completions (process client line seq_id ip p))
     \<subseteq> response ` set (completions p) \<union> {err_empty, err_unknown, err_busy}"
  by (auto simp: allow_def process_cases split: option.splits)

end
