(* ===== verification/KV_Reactor.thy ===== *)
theory KV_Reactor
  imports KV_Pipeline
begin

text \<open>
  reactor.h and reactor.cpp: the event loop's state and handlers.  What the operating system returns
  (\<^verbatim>\<open>accept\<close>, \<^verbatim>\<open>recv\<close>, \<^verbatim>\<open>send\<close>, the events of \<^verbatim>\<open>WSAPoll\<close>) is an argument of the handler that asks for
  it.  The theorems show that replies leave a connection in the order of its requests whatever order
  the workers finish in, the bounds on connections and pipeline depth, and how each line of input is
  accounted for.
\<close>

section \<open>State\<close>

record connection_state =
  read_buffer :: string
  write_buffer :: string
  write_pending :: bool
  client_ip :: string
  next_seq_issue :: uint64_t
  next_seq_expected :: uint64_t
  out_of_order_buf :: "(uint64_t \<times> string) list"
  in_flight_requests :: uint64_t

definition mk_connection_state :: "string \<Rightarrow> connection_state" where
  "mk_connection_state ip =
     \<lparr>read_buffer = [], write_buffer = [], write_pending = False, client_ip = ip, next_seq_issue = 0,
      next_seq_expected = 0, out_of_order_buf = [], in_flight_requests = 0\<rparr>"

record poll_fd =
  poll_socket :: socket
  poll_read :: bool
  poll_write :: bool

record reactor =
  reactor_port :: "16 word"
  listen_socket :: socket
  reactor_running :: bool
  poll_fds :: "poll_fd list"
  connections :: "(socket \<times> connection_state) list"
  paused_reads :: "socket set"
  total_connections :: size_t

definition MAX_CONNECTIONS :: size_t where
  "MAX_CONNECTIONS = 10000"

definition MAX_PIPELINE_DEPTH :: uint64_t where
  "MAX_PIPELINE_DEPTH = 256"

definition INVALID_SOCKET :: socket where
  "INVALID_SOCKET = - 1"

definition mk_reactor :: "16 word \<Rightarrow> reactor" where
  "mk_reactor p =
     \<lparr>reactor_port = p, listen_socket = INVALID_SOCKET, reactor_running = False, poll_fds = [],
      connections = [], paused_reads = {}, total_connections = 0\<rparr>"

definition reactor_stop :: "reactor \<Rightarrow> reactor" where
  "reactor_stop r = r\<lparr>reactor_running := False\<rparr>"

section \<open>Handlers\<close>

definition err_max_connections :: string where
  "err_max_connections = ''-ERR max connections reached'' @ crlf"

text \<open>
  \<open>incoming\<close> is the socket and the address that \<^verbatim>\<open>accept\<close> returns, or nothing for
  \<^verbatim>\<open>INVALID_SOCKET\<close>.  The first result is what is sent to a client that is turned away.
\<close>

definition accept_connection :: "(socket \<times> string) option \<Rightarrow> reactor \<Rightarrow> string \<times> reactor" where
  "accept_connection incoming r =
     (case incoming of
        None \<Rightarrow> ([], r)
      | Some (client, ip) \<Rightarrow>
          if total_connections r \<ge> MAX_CONNECTIONS then (err_max_connections, r)
          else ([], r\<lparr>connections := AList.update client (mk_connection_state ip) (connections r),
                     total_connections := total_connections r + 1\<rparr>))"

definition disconnect :: "socket \<Rightarrow> reactor \<Rightarrow> reactor" where
  "disconnect client r =
     r\<lparr>connections := AList.delete client (connections r),
       paused_reads := paused_reads r - {client},
       total_connections := (if total_connections r > 0 then total_connections r - 1 else total_connections r)\<rparr>"

definition trim_cr :: "string \<Rightarrow> string" where
  "trim_cr line = (if line \<noteq> [] \<and> last line = CHR 0x0D then butlast line else line)"

text \<open>
  The loop of \<^verbatim>\<open>handle_read\<close> over the complete lines of the buffer.  The flag tells whether it stopped
  at the depth limit or for backpressure, which pauses the socket.
\<close>

function read_lines ::
  "socket \<Rightarrow> connection_state \<Rightarrow> worker_pool \<Rightarrow> bool \<times> connection_state \<times> worker_pool" where
  "read_lines client st p =
     (if newline \<notin> set (read_buffer st) then (False, st, p)
      else
        let line = takeWhile (\<lambda>c. c \<noteq> newline) (read_buffer st);
            st1 = st\<lparr>read_buffer := drop (length line + 1) (read_buffer st)\<rparr>;
            line' = trim_cr line
        in if line' = [] then read_lines client st1 p
           else if in_flight_requests st1 \<ge> MAX_PIPELINE_DEPTH then (True, st1, p)
           else if queue_size p * 10 > pool_max_queue_size p * 9 then (True, st1, p)
           else
             let seq = next_seq_issue st1;
                 st2 = st1\<lparr>next_seq_issue := seq + 1, in_flight_requests := in_flight_requests st1 + 1\<rparr>
             in read_lines client st2 (process client line' seq (client_ip st2) p))"
  by pat_completeness auto
termination
proof (relation "measure (\<lambda>(c, st, p). length (read_buffer st))", goal_cases)
  case (2 client st p line st1 line')
  then show ?case by (cases "read_buffer st") auto
next
  case (3 client st p line st1 line' seq st2)
  then show ?case by (cases "read_buffer st") auto
qed simp

declare read_lines.simps [simp del]

text \<open>\<open>received\<close> is the data of \<^verbatim>\<open>recv\<close>, or nothing when it returns zero or an error.\<close>

definition handle_read ::
  "socket \<Rightarrow> string option \<Rightarrow> reactor \<times> worker_pool \<Rightarrow> reactor \<times> worker_pool" where
  "handle_read client received rp =
     (case received of
        None \<Rightarrow> (disconnect client (fst rp), snd rp)
      | Some bytes \<Rightarrow>
          (case map_of (connections (fst rp)) client of
             None \<Rightarrow> rp
           | Some st \<Rightarrow>
               (case read_lines client (st\<lparr>read_buffer := read_buffer st @ bytes\<rparr>) (snd rp) of
                  (paused, st', p) \<Rightarrow>
                    ((fst rp)\<lparr>connections := AList.update client st' (connections (fst rp)),
                       paused_reads := (if paused then insert client (paused_reads (fst rp))
                                        else paused_reads (fst rp))\<rparr>, p))))"

text \<open>\<open>sent\<close> is how many bytes \<^verbatim>\<open>send\<close> took, or nothing for \<^verbatim>\<open>SOCKET_ERROR\<close>.\<close>

definition handle_write :: "socket \<Rightarrow> nat option \<Rightarrow> reactor \<Rightarrow> reactor" where
  "handle_write client sent r =
     (case map_of (connections r) client of
        None \<Rightarrow> r
      | Some st \<Rightarrow>
          if write_buffer st = [] then
            r\<lparr>connections := AList.update client (st\<lparr>write_pending := False\<rparr>) (connections r)\<rparr>
          else case sent of
            None \<Rightarrow> disconnect client r
          | Some n \<Rightarrow>
              let wb = drop n (write_buffer st) in
              r\<lparr>connections := AList.update client
                   (st\<lparr>write_buffer := wb, write_pending := (if wb = [] then False else write_pending st)\<rparr>)
                   (connections r)\<rparr>)"

text \<open>The inner loop of \<^verbatim>\<open>drain_completion_queue\<close>: move the contiguous replies to the write buffer.\<close>

function flush_contiguous :: "connection_state \<Rightarrow> connection_state" where
  "flush_contiguous st =
     (case map_of (out_of_order_buf st) (next_seq_expected st) of
        None \<Rightarrow> st
      | Some reply \<Rightarrow>
          flush_contiguous
            (st\<lparr>write_buffer := write_buffer st @ reply,
               out_of_order_buf := AList.delete (next_seq_expected st) (out_of_order_buf st),
               next_seq_expected := next_seq_expected st + 1,
               in_flight_requests := (if in_flight_requests st > 0 then in_flight_requests st - 1
                                      else in_flight_requests st),
               write_pending := True\<rparr>))"
  by pat_completeness auto
termination
proof (relation "measure (\<lambda>st. length (out_of_order_buf st))", goal_cases)
  case (2 st reply)
  then have "next_seq_expected st \<in> fst ` set (out_of_order_buf st)"
    by (metis domI dom_map_of_conv_image_fst)
  then show ?case by (simp add: length_delete_less)
qed simp

declare flush_contiguous.simps [simp del]

definition absorb :: "uint64_t \<Rightarrow> string \<Rightarrow> connection_state \<Rightarrow> connection_state" where
  "absorb seq reply st =
     flush_contiguous (st\<lparr>out_of_order_buf := AList.update seq reply (out_of_order_buf st)\<rparr>)"

definition deliver_result :: "task_result \<Rightarrow> reactor \<Rightarrow> reactor" where
  "deliver_result x r =
     (case map_of (connections r) (result_client x) of
        None \<Rightarrow> r
      | Some st \<Rightarrow>
          r\<lparr>connections := AList.update (result_client x) (absorb (result_seq x) (response x) st) (connections r)\<rparr>)"

definition drain_completion_queue :: "reactor \<times> worker_pool \<Rightarrow> reactor \<times> worker_pool" where
  "drain_completion_queue rp =
     (let (results, q) = completion_drain [] (completions (snd rp))
      in (fold deliver_result results (fst rp), (snd rp)\<lparr>completions := q\<rparr>))"

section \<open>The event loop\<close>

definition relax_backpressure :: "worker_pool \<Rightarrow> reactor \<Rightarrow> reactor" where
  "relax_backpressure p r =
     (if queue_size p * 10 < pool_max_queue_size p * 7 then r\<lparr>paused_reads := {}\<rparr>
      else r\<lparr>paused_reads := {fd \<in> paused_reads r.
             case map_of (connections r) fd of
               None \<Rightarrow> True
             | Some st \<Rightarrow> \<not> in_flight_requests st < MAX_PIPELINE_DEPTH}\<rparr>)"

definition rebuild_poll_set :: "reactor \<Rightarrow> reactor" where
  "rebuild_poll_set r =
     r\<lparr>poll_fds := \<lparr>poll_socket = listen_socket r, poll_read = True, poll_write = False\<rparr> #
        map (\<lambda>(sock, st). \<lparr>poll_socket = sock, poll_read = sock \<notin> paused_reads r,
                           poll_write = write_pending st\<rparr>) (connections r)\<rparr>"

text \<open>
  One entry of the poll set with non-zero \<^verbatim>\<open>revents\<close>: the listening socket with what \<^verbatim>\<open>accept\<close> will
  return, or a client with its error flag and, for each of the two events that is set, what the
  call that follows will return.
\<close>

datatype poll_event =
    ListenEvent bool "(socket \<times> string) option"
  | ClientEvent socket bool "string option option" "nat option option"

fun handle_event :: "poll_event \<Rightarrow> reactor \<times> worker_pool \<Rightarrow> reactor \<times> worker_pool" where
  "handle_event (ListenEvent readable incoming) (r, p) =
     (if readable then (snd (accept_connection incoming r), p) else (r, p))"
| "handle_event (ClientEvent client failed readable writable) (r, p) =
     (if failed then (disconnect client r, p)
      else
        let (r1, p1) = (case readable of None \<Rightarrow> (r, p) | Some received \<Rightarrow> handle_read client received (r, p))
        in (case writable of None \<Rightarrow> (r1, p1) | Some sent \<Rightarrow> (handle_write client sent r1, p1)))"

definition prepare_poll :: "reactor \<times> worker_pool \<Rightarrow> reactor \<times> worker_pool" where
  "prepare_poll rp =
     (let (r, p) = drain_completion_queue rp in (rebuild_poll_set (relax_backpressure p r), p))"

text \<open>
  One pass of the loop of \<^verbatim>\<open>start\<close>; \<open>events\<close> is empty when \<^verbatim>\<open>WSAPoll\<close> times out or fails.
\<close>

definition loop_iteration :: "poll_event list \<Rightarrow> reactor \<times> worker_pool \<Rightarrow> reactor \<times> worker_pool" where
  "loop_iteration events rp = fold handle_event events (prepare_poll rp)"

definition reactor_finish :: "reactor \<Rightarrow> reactor" where
  "reactor_finish r = r\<lparr>connections := []\<rparr>"

section \<open>Reassembly\<close>

text \<open>
  The replies \<open>0, 1, \<dots>\<close> of a connection from sequence number \<open>b\<close> on, with the set \<open>D\<close> of those that
  have arrived: the first \<open>m\<close> are in the write buffer, the later ones of \<open>D\<close> in the reorder buffer.
\<close>

definition assembling ::
  "uint64_t \<Rightarrow> (nat \<Rightarrow> string) \<Rightarrow> nat set \<Rightarrow> nat \<Rightarrow> connection_state \<Rightarrow> connection_state \<Rightarrow> bool" where
  "assembling b reply D m st0 st \<longleftrightarrow>
     {..<m} \<subseteq> D \<and> next_seq_expected st = b + word_of_nat m \<and>
     write_buffer st = write_buffer st0 @ concat (map reply [0..<m]) \<and>
     (\<forall>i < 2 ^ 64. map_of (out_of_order_buf st) (b + word_of_nat i) = (if i \<in> D \<and> m \<le> i then Some (reply i) else None)) \<and>
     in_flight_requests st = in_flight_requests st0 - word_of_nat m \<and>
     next_seq_issue st = next_seq_issue st0 \<and> read_buffer st = read_buffer st0 \<and> client_ip st = client_ip st0"

lemma assemblingD:
  assumes "assembling b reply D m st0 st"
  shows "{..<m} \<subseteq> D" and "next_seq_expected st = b + word_of_nat m"
    and "write_buffer st = write_buffer st0 @ concat (map reply [0..<m])"
    and "in_flight_requests st = in_flight_requests st0 - word_of_nat m"
  using assms by (simp_all add: assembling_def)

lemma assembling_buf:
  "assembling b reply D m st0 st \<Longrightarrow> i < 2 ^ 64 \<Longrightarrow>
   map_of (out_of_order_buf st) (b + word_of_nat i) = (if i \<in> D \<and> m \<le> i then Some (reply i) else None)"
  unfolding assembling_def by blast

lemma word_of_nat_64_inj:
  assumes "i < 2 ^ 64" and "j < 2 ^ 64"
  shows "(word_of_nat i :: 64 word) = word_of_nat j \<longleftrightarrow> i = j"
proof -
  have "unat (word_of_nat i :: 64 word) = i" "unat (word_of_nat j :: 64 word) = j"
    using assms by (simp_all add: unat_of_nat)
  then show ?thesis by metis
qed

lemma flush_assembling:
  assumes D: "D \<subseteq> {..<n}" and n: "n < 2 ^ 64" "n \<le> unat (in_flight_requests st0)"
    and "assembling b reply D m st0 st"
  shows "\<exists>m'. assembling b reply D m' st0 (flush_contiguous st) \<and> m' \<notin> D \<and> m' \<le> n"
  using assms(4)
proof (induction st arbitrary: m rule: flush_contiguous.induct)
  case (1 st)
  note a = "1.prems" [unfolded assembling_def]
  have "{..<m} \<subseteq> {..<n}" by (rule subset_trans [OF conjunct1 [OF a] D])
  then have mn: "m \<le> n" by simp
  then have x: "map_of (out_of_order_buf st) (next_seq_expected st) = (if m \<in> D then Some (reply m) else None)"
    using a n(1) by simp
  show ?case
  proof (cases "m \<in> D")
    case False
    with x have "flush_contiguous st = st" by (subst flush_contiguous.simps) simp
    with False "1.prems" mn show ?thesis by auto
  next
    case True
    with D have m: "m < n" by auto
    have "in_flight_requests st \<noteq> 0"
    proof
      assume "in_flight_requests st = 0"
      then have "in_flight_requests st0 = word_of_nat m" using a by simp
      with m n show False by (simp add: unat_of_nat)
    qed
    then have pos: "in_flight_requests st > 0" by (simp add: word_gt_0)
    let ?st = "st\<lparr>write_buffer := write_buffer st @ reply m,
      out_of_order_buf := AList.delete (next_seq_expected st) (out_of_order_buf st),
      next_seq_expected := next_seq_expected st + 1,
      in_flight_requests := in_flight_requests st - 1, write_pending := True\<rparr>"
    have f: "flush_contiguous st = flush_contiguous ?st"
      using x True pos by (subst flush_contiguous.simps) simp
    have "map_of (AList.delete (next_seq_expected st) (out_of_order_buf st)) (b + word_of_nat i)
        = (if i \<in> D \<and> Suc m \<le> i then Some (reply i) else None)" if "i < 2 ^ 64" for i
      using a that m n(1) word_of_nat_64_inj [of i m] by auto
    with a True have "assembling b reply D (Suc m) st0 ?st"
      by (auto simp: assembling_def lessThan_Suc)
    with "1.IH" [of "reply m" "Suc m"] x True pos f show ?thesis by simp
  qed
qed

lemma absorb_assembling:
  assumes D: "insert i D \<subseteq> {..<n}" and n: "n < 2 ^ 64" "n \<le> unat (in_flight_requests st0)"
    and a: "assembling b reply D m st0 st" and i: "i \<notin> D"
  shows "\<exists>m'. assembling b reply (insert i D) m' st0 (absorb (b + word_of_nat i) (reply i) st) \<and>
    m' \<notin> insert i D \<and> m' \<le> n"
proof -
  have "m \<le> i" using a i by (auto simp: assembling_def not_le [symmetric])
  then have "assembling b reply (insert i D) m st0
      (st\<lparr>out_of_order_buf := AList.update (b + word_of_nat i) (reply i) (out_of_order_buf st)\<rparr>)"
    using a D n(1) word_of_nat_64_inj [of _ i] by (auto simp: assembling_def)
  from flush_assembling [OF D n this] show ?thesis by (simp add: absorb_def)
qed

lemma absorb_all_assembling:
  assumes "distinct is" and "set is \<inter> D = {}" and "set is \<union> D \<subseteq> {..<n}" and "n < 2 ^ 64"
    and "n \<le> unat (in_flight_requests st0)" and "assembling b reply D m st0 st" and "m \<notin> D" and "m \<le> n"
  shows "\<exists>m'. assembling b reply (set is \<union> D) m' st0 (fold (\<lambda>i. absorb (b + word_of_nat i) (reply i)) is st) \<and>
    m' \<notin> set is \<union> D \<and> m' \<le> n"
  using assms
proof (induction "is" arbitrary: D m st)
  case (Cons i "is")
  then have "insert i D \<subseteq> {..<n}" "i \<notin> D" by auto
  from absorb_assembling [OF this(1) Cons.prems(4-6) this(2)] obtain m'
    where m': "assembling b reply (insert i D) m' st0 (absorb (b + word_of_nat i) (reply i) st)"
      "m' \<notin> insert i D" "m' \<le> n" by blast
  have "set is \<inter> insert i D = {}" "set is \<union> insert i D \<subseteq> {..<n}" using Cons.prems(1-3) by auto
  from Cons.IH [OF _ this Cons.prems(4,5) m'] Cons.prems(1) show ?case by simp
qed auto

lemma deliver_results_conn:
  "map_of (connections (fold deliver_result rs r)) c =
     map_option (fold (\<lambda>x. absorb (result_seq x) (response x)) (filter (\<lambda>x. result_client x = c) rs))
       (map_of (connections r) c)"
proof (induction rs arbitrary: r)
  case Nil
  show ?case by (simp add: option.map_id [unfolded id_def])
next
  case (Cons x rs)
  show ?case
    by (simp add: Cons.IH) (auto simp: deliver_result_def split: option.splits)
qed

section \<open>Lines of input\<close>

lemma read_lines_rest: "newline \<notin> set (read_buffer st) \<Longrightarrow> read_lines c st p = (False, st, p)"
  by (subst read_lines.simps) simp

lemma read_lines_line:
  assumes "read_buffer st = line @ newline # rest" and "newline \<notin> set line"
  shows "read_lines c st p =
    (let st1 = st\<lparr>read_buffer := rest\<rparr> in
     if trim_cr line = [] then read_lines c st1 p
     else if in_flight_requests st \<ge> MAX_PIPELINE_DEPTH then (True, st1, p)
     else if queue_size p * 10 > pool_max_queue_size p * 9 then (True, st1, p)
     else read_lines c (st1\<lparr>next_seq_issue := next_seq_issue st + 1,
                            in_flight_requests := in_flight_requests st + 1\<rparr>)
            (process c (trim_cr line) (next_seq_issue st) (client_ip st) p))"
proof -
  have "takeWhile (\<lambda>c. c \<noteq> newline) (line @ newline # rest) = line"
    using assms(2) by (induction line) auto
  then show ?thesis by (subst read_lines.simps) (simp add: assms(1) Let_def)
qed

lemma read_lines_stop:
  assumes "read_buffer st = line @ newline # rest" and "newline \<notin> set line" and "trim_cr line \<noteq> []"
    and "in_flight_requests st \<ge> MAX_PIPELINE_DEPTH \<or> queue_size p * 10 > pool_max_queue_size p * 9"
  shows "read_lines c st p = (True, st\<lparr>read_buffer := rest\<rparr>, p)"
  using assms(3,4) by (auto simp: read_lines_line [OF assms(1,2)] Let_def)

lemma read_buffer_split:
  assumes "newline \<in> set s"
  obtains line rest where "s = line @ newline # rest" "newline \<notin> set line"
  using split_list_first [OF assms] by blast

text \<open>An induction over the complete lines of the buffer.\<close>

lemma read_lines_induct [case_names rest line]:
  assumes "\<And>st p. newline \<notin> set (read_buffer st) \<Longrightarrow> P st p"
    and "\<And>st p line rest. read_buffer st = line @ newline # rest \<Longrightarrow> newline \<notin> set line \<Longrightarrow>
      (\<And>st' p'. read_buffer st' = rest \<Longrightarrow> P st' p') \<Longrightarrow> P st p"
  shows "P st p"
proof (induction "length (read_buffer st)" arbitrary: st p rule: less_induct)
  case less
  show ?case
  proof (cases "newline \<in> set (read_buffer st)")
    case True
    then obtain line rest where l: "read_buffer st = line @ newline # rest" "newline \<notin> set line"
      by (rule read_buffer_split)
    show ?thesis by (rule assms(2) [OF l], rule less) (simp add: l(1))
  qed (rule assms(1))
qed

text \<open>Requests that are processed one after the other, with consecutive sequence numbers.\<close>

fun process_all :: "socket \<Rightarrow> string \<Rightarrow> uint64_t \<Rightarrow> string list \<Rightarrow> worker_pool \<Rightarrow> worker_pool" where
  "process_all c ip seq [] p = p"
| "process_all c ip seq (l # ls) p = process_all c ip (seq + 1) ls (process c l seq ip p)"

definition request_lines :: "string list \<Rightarrow> string list" where
  "request_lines ls = filter (\<lambda>l. l \<noteq> []) (map trim_cr ls)"

definition line_text :: "string list \<Rightarrow> string" where
  "line_text ls = concat (map (\<lambda>l. l @ [newline]) ls)"

lemma request_lines_simps [simp]:
  "request_lines [] = []"
  "trim_cr l = [] \<Longrightarrow> request_lines (l # ls) = request_lines ls"
  "trim_cr l \<noteq> [] \<Longrightarrow> request_lines (l # ls) = trim_cr l # request_lines ls"
  "request_lines (ls @ ls') = request_lines ls @ request_lines ls'"
  by (simp_all add: request_lines_def)

lemma line_text_simps [simp]:
  "line_text [] = []" "line_text (l # ls) = l @ newline # line_text ls"
  "line_text (ls @ ls') = line_text ls @ line_text ls'"
  by (simp_all add: line_text_def)

text \<open>
  What the loop does: it takes whole lines \<open>ls\<close> from the buffer and processes the requests \<open>reqs\<close>
  among them, within the depth limit; if it stops at a limit, one more request has been taken.
  Nothing else of the connection changes.
\<close>

definition read_effect ::
  "socket \<Rightarrow> connection_state \<Rightarrow> worker_pool \<Rightarrow> string list \<Rightarrow> string list \<Rightarrow> bool \<Rightarrow> connection_state \<Rightarrow> worker_pool \<Rightarrow> bool" where
  "read_effect c st p ls reqs paused st' p' \<longleftrightarrow>
     read_buffer st = line_text ls @ read_buffer st' \<and> (\<forall>l \<in> set ls. newline \<notin> set l) \<and>
     (if paused then \<exists>l. request_lines ls = reqs @ [l]
      else request_lines ls = reqs \<and> newline \<notin> set (read_buffer st')) \<and>
     (reqs = [] \<or> unat (in_flight_requests st) + length reqs \<le> 256) \<and>
     p' = process_all c (client_ip st) (next_seq_issue st) reqs p \<and>
     st' = st\<lparr>read_buffer := read_buffer st', next_seq_issue := next_seq_issue st + word_of_nat (length reqs),
             in_flight_requests := in_flight_requests st + word_of_nat (length reqs)\<rparr>"

lemma read_effect_skip:
  assumes "read_effect c (st\<lparr>read_buffer := rest\<rparr>) p ls reqs paused st' p'" and "trim_cr l = []"
    and "read_buffer st = l @ newline # rest" and "newline \<notin> set l"
  shows "read_effect c st p (l # ls) reqs paused st' p'"
  using assms by (simp add: read_effect_def)

lemma read_effect_stop:
  assumes "trim_cr l \<noteq> []" and "read_buffer st = l @ newline # rest" and "newline \<notin> set l"
  shows "read_effect c st p [l] [] True (st\<lparr>read_buffer := rest\<rparr>) p"
  using assms by (simp add: read_effect_def)

lemma read_effect_go:
  assumes "read_effect c (st\<lparr>read_buffer := rest, next_seq_issue := next_seq_issue st + 1,
      in_flight_requests := in_flight_requests st + 1\<rparr>) (process c (trim_cr l) (next_seq_issue st) (client_ip st) p)
      ls reqs paused st' p'"
    and "\<not> in_flight_requests st \<ge> MAX_PIPELINE_DEPTH" and "trim_cr l \<noteq> []"
    and "read_buffer st = l @ newline # rest" and "newline \<notin> set l"
  shows "read_effect c st p (l # ls) (trim_cr l # reqs) paused st' p'"
proof -
  have lt: "unat (in_flight_requests st) < 256"
    using assms(2) by (simp add: MAX_PIPELINE_DEPTH_def word_le_nat_alt)
  then have "unat (in_flight_requests st + 1) = unat (in_flight_requests st) + 1"
    by (intro unat_Suc_64) simp
  with assms lt show ?thesis by (auto simp: read_effect_def ac_simps split: if_splits)
qed

lemma read_lines_effect:
  assumes "read_lines c st p = (paused, st', p')"
  shows "\<exists>ls reqs. read_effect c st p ls reqs paused st' p'"
  using assms
proof (induction st p arbitrary: paused st' p' rule: read_lines_induct)
  case (rest st p)
  then have "read_effect c st p [] [] paused st' p'" by (auto simp: read_lines_rest read_effect_def)
  then show ?case by blast
next
  case (line st p l rest)
  note step = read_lines_line [OF line.hyps(1,2), of c p]
  consider (empty) "trim_cr l = []" | (stop) "trim_cr l \<noteq> []"
      "in_flight_requests st \<ge> MAX_PIPELINE_DEPTH \<or> queue_size p * 10 > pool_max_queue_size p * 9"
    | (go) "trim_cr l \<noteq> []" "\<not> in_flight_requests st \<ge> MAX_PIPELINE_DEPTH"
      "\<not> queue_size p * 10 > pool_max_queue_size p * 9" by blast
  then show ?case
  proof cases
    case empty
    with step line.prems have "read_lines c (st\<lparr>read_buffer := rest\<rparr>) p = (paused, st', p')" by simp
    from line.IH [OF _ this] read_effect_skip [OF _ empty line.hyps] show ?thesis by auto blast
  next
    case stop
    with read_lines_stop [OF line.hyps(1,2)] line.prems have "paused" "st' = st\<lparr>read_buffer := rest\<rparr>" "p' = p" by auto
    with read_effect_stop [OF stop(1) line.hyps, of c p] have "read_effect c st p [l] [] paused st' p'" by simp
    then show ?thesis by blast
  next
    case go
    with step line.prems have "read_lines c (st\<lparr>read_buffer := rest, next_seq_issue := next_seq_issue st + 1,
        in_flight_requests := in_flight_requests st + 1\<rparr>)
        (process c (trim_cr l) (next_seq_issue st) (client_ip st) p) = (paused, st', p')" by simp
    from line.IH [OF _ this] read_effect_go [OF _ go(2,1) line.hyps] show ?thesis by auto blast
  qed
qed

section \<open>Runs of the reactor\<close>

text \<open>
  The handlers in any order, with any change of the pool by the workers in between.  The operating
  system hands out a socket only when it is not open, and reports events only for open ones.
\<close>

inductive reactor_step :: "reactor \<times> worker_pool \<Rightarrow> reactor \<times> worker_pool \<Rightarrow> bool" where
  accept: "(\<And>c ip. incoming = Some (c, ip) \<Longrightarrow> map_of (connections r) c = None) \<Longrightarrow>
     reactor_step (r, p) (snd (accept_connection incoming r), p)"
| read: "map_of (connections r) c \<noteq> None \<Longrightarrow> reactor_step (r, p) (handle_read c received (r, p))"
| send: "reactor_step (r, p) (handle_write c sent r, p)"
| hangup: "map_of (connections r) c \<noteq> None \<Longrightarrow> reactor_step (r, p) (disconnect c r, p)"
| prepare: "reactor_step (r, p) (prepare_poll (r, p))"
| work: "reactor_step (r, p) (r, p')"

definition connection_inv :: "connection_state \<Rightarrow> bool" where
  "connection_inv st \<longleftrightarrow> unat (in_flight_requests st) \<le> 256 \<and> (write_buffer st \<noteq> [] \<longrightarrow> write_pending st)"

definition reactor_inv :: "reactor \<times> worker_pool \<Rightarrow> bool" where
  "reactor_inv rp \<longleftrightarrow>
     distinct_keys (connections (fst rp)) \<and>
     unat (total_connections (fst rp)) = length (connections (fst rp)) \<and>
     length (connections (fst rp)) \<le> 10000 \<and>
     (\<forall>c st. map_of (connections (fst rp)) c = Some st \<longrightarrow> connection_inv st)"

lemma connection_inv_flush: "connection_inv st \<Longrightarrow> connection_inv (flush_contiguous st)"
proof (induction st rule: flush_contiguous.induct)
  case (1 st)
  show ?case
  proof (cases "map_of (out_of_order_buf st) (next_seq_expected st)")
    case None
    with "1.prems" show ?thesis by (subst flush_contiguous.simps) simp
  next
    case (Some reply)
    have "unat (in_flight_requests st - 1) \<le> 256" if "in_flight_requests st \<noteq> 0"
      using that "1.prems" measure_unat [OF that] by (simp add: connection_inv_def)
    then show ?thesis using Some "1.prems" "1.IH" [OF Some]
      by (subst flush_contiguous.simps) (simp add: connection_inv_def word_gt_0)
  qed
qed

lemma connection_inv_absorb: "connection_inv st \<Longrightarrow> connection_inv (absorb seq reply st)"
  unfolding absorb_def by (rule connection_inv_flush) (simp add: connection_inv_def)

lemma connection_inv_read:
  assumes "read_effect c st p ls reqs paused st' p'" and "connection_inv st"
  shows "connection_inv st'"
proof -
  let ?k = "length reqs"
  have "unat (in_flight_requests st + word_of_nat ?k) \<le> 256"
  proof (cases "reqs = []")
    case False
    with assms(1) have k: "unat (in_flight_requests st) + ?k \<le> 256" by (simp add: read_effect_def)
    then have "unat (word_of_nat ?k :: 64 word) = ?k" by (simp add: unat_of_nat)
    with k unat_plus_no_wrap [of "in_flight_requests st" "word_of_nat ?k"] show ?thesis by simp
  qed (use assms in \<open>simp add: connection_inv_def\<close>)
  moreover have "st' = st\<lparr>read_buffer := read_buffer st', next_seq_issue := next_seq_issue st + word_of_nat ?k,
      in_flight_requests := in_flight_requests st + word_of_nat ?k\<rparr>"
    using assms(1) by (simp add: read_effect_def)
  then have "write_buffer st' = write_buffer st" "write_pending st' = write_pending st"
    "in_flight_requests st' = in_flight_requests st + word_of_nat ?k"
    by (metis connection_state.select_convs(2) connection_state.surjective connection_state.update_convs(1,5,8)
        connection_state.select_convs(3) connection_state.select_convs(8))+
  ultimately show ?thesis using assms(2) by (simp add: connection_inv_def)
qed

lemma reactor_inv_update:
  assumes "reactor_inv (r, p)" and "map_of (connections r) c \<noteq> None" and "connection_inv st"
    and "connections r' = AList.update c st (connections r)" and "total_connections r' = total_connections r"
  shows "reactor_inv (r', p')"
proof -
  have d: "distinct_keys (connections r)" using assms(1) by (simp add: reactor_inv_def)
  have "length (AList.update c st (connections r)) = length (connections r)"
    using amap.size_insert_or_assign [OF d, of c st] assms(2) by simp
  with assms show ?thesis
    by (simp add: reactor_inv_def amap.invar_insert_or_assign)
qed

lemma reactor_inv_disconnect:
  assumes "reactor_inv (r, p)" and "map_of (connections r) c \<noteq> None"
  shows "reactor_inv (disconnect c r, p')"
proof -
  let ?n = "length (connections r)"
  have d: "distinct_keys (connections r)" using assms(1) by (simp add: reactor_inv_def)
  have pos: "0 < ?n" using amap.size_pos [OF d] assms(2) by auto
  have t: "unat (total_connections r) = ?n" using assms(1) by (simp add: reactor_inv_def)
  then have nz: "total_connections r \<noteq> 0" using pos by auto
  have "unat (total_connections r - 1) = ?n - 1"
    using t nz by (simp add: unat_pred_64)
  moreover have "length (AList.delete c (connections r)) = ?n - 1"
    using amap.size_erase [OF d, of c] assms(2) by simp
  ultimately show ?thesis using assms(1) nz
    by (auto simp: reactor_inv_def disconnect_def amap.invar_erase word_gt_0 split: if_splits)
qed

lemma reactor_invI:
  "distinct_keys (connections r) \<Longrightarrow> unat (total_connections r) = length (connections r) \<Longrightarrow>
   length (connections r) \<le> 10000 \<Longrightarrow>
   (\<And>c st. map_of (connections r) c = Some st \<Longrightarrow> connection_inv st) \<Longrightarrow> reactor_inv (r, p)"
  unfolding reactor_inv_def fst_conv by blast

lemma reactor_inv_accept:
  assumes "reactor_inv (r, p)" and "\<And>c ip. incoming = Some (c, ip) \<Longrightarrow> map_of (connections r) c = None"
  shows "reactor_inv (snd (accept_connection incoming r), p)"
proof (cases "\<exists>c ip. incoming = Some (c, ip) \<and> total_connections r < MAX_CONNECTIONS")
  case False
  with assms(1) show ?thesis by (auto simp: accept_connection_def split: option.splits)
next
  case True
  then obtain c ip where i: "incoming = Some (c, ip)" and lt: "unat (total_connections r) < 10000"
    by (auto simp: MAX_CONNECTIONS_def word_less_nat_alt)
  have d: "distinct_keys (connections r)" using assms(1) by (simp add: reactor_inv_def)
  have "length (AList.update c (mk_connection_state ip) (connections r)) = Suc (length (connections r))"
    using amap.size_insert_or_assign [OF d] assms(2) [OF i] by simp
  moreover have "unat (total_connections r + 1) = Suc (unat (total_connections r))"
    using unat_Suc_64 [of "total_connections r"] lt by simp
  moreover have new: "connection_inv (mk_connection_state ip)"
    by (simp add: connection_inv_def mk_connection_state_def)
  moreover have "connection_inv st"
    if "map_of (AList.update c (mk_connection_state ip) (connections r)) c' = Some st" for c' st
    using that new assms(1) unfolding reactor_inv_def amap_simps by (auto split: if_splits)
  moreover have "snd (accept_connection incoming r) =
      r\<lparr>connections := AList.update c (mk_connection_state ip) (connections r), total_connections := total_connections r + 1\<rparr>"
    using i True by (auto simp: accept_connection_def not_le)
  moreover have "unat (total_connections r) = length (connections r)" using assms(1) by (simp add: reactor_inv_def)
  ultimately show ?thesis using d lt
    by (intro reactor_invI) (simp_all add: amap.invar_insert_or_assign del: map_of_eq_Some_iff)
qed

lemma reactor_inv_deliver:
  assumes "reactor_inv (r, p)"
  shows "reactor_inv (deliver_result x r, p')"
proof (cases "map_of (connections r) (result_client x)")
  case None
  with assms show ?thesis by (simp add: deliver_result_def reactor_inv_def)
next
  case (Some st)
  with assms have "connection_inv st" by (simp add: reactor_inv_def)
  then show ?thesis
    by (intro reactor_inv_update [OF assms, of "result_client x" "absorb (result_seq x) (response x) st"])
      (simp_all add: Some deliver_result_def connection_inv_absorb)
qed

lemma reactor_inv_prepare:
  assumes "reactor_inv (r, p)"
  shows "reactor_inv (prepare_poll (r, p))"
proof -
  have "reactor_inv (fold deliver_result rs r, p')" if "reactor_inv (r, p')" for rs p'
    using that by (induction rs arbitrary: r) (auto intro: reactor_inv_deliver)
  with assms show ?thesis
    by (simp add: prepare_poll_def drain_completion_queue_def completion_drain_all reactor_inv_def
        relax_backpressure_def rebuild_poll_set_def)
qed

lemma reactor_inv_read:
  assumes "reactor_inv (r, p)" and "map_of (connections r) c = Some st"
  shows "reactor_inv (handle_read c received (r, p))"
proof (cases received)
  case None
  with reactor_inv_disconnect [OF assms(1)] assms(2) show ?thesis by (simp add: handle_read_def)
next
  case (Some bytes)
  let ?st = "st\<lparr>read_buffer := read_buffer st @ bytes\<rparr>"
  obtain paused st' p' where rl: "read_lines c ?st p = (paused, st', p')" by (metis surj_pair)
  from read_lines_effect [OF rl] obtain ls reqs where "read_effect c ?st p ls reqs paused st' p'" by blast
  moreover have "connection_inv ?st" using assms by (simp add: reactor_inv_def connection_inv_def)
  ultimately have "connection_inv st'" by (rule connection_inv_read)
  then show ?thesis using assms(2)
    by (intro reactor_inv_update [OF assms(1), of c st', THEN subst [of _ _ reactor_inv, rotated]])
      (simp_all add: handle_read_def Some rl)
qed

lemma reactor_inv_write:
  assumes "reactor_inv (r, p)"
  shows "reactor_inv (handle_write c sent r, p)"
proof (cases "map_of (connections r) c")
  case (Some st)
  with assms have i: "connection_inv st" by (simp add: reactor_inv_def)
  note u = reactor_inv_update [OF assms, of c]
  show ?thesis
  proof (cases "write_buffer st = []")
    case True
    with i Some show ?thesis
      by (intro u [of "st\<lparr>write_pending := False\<rparr>"]) (simp_all add: handle_write_def connection_inv_def)
  next
    case False
    show ?thesis
    proof (cases sent)
      case None
      with False Some reactor_inv_disconnect [OF assms, of c p] show ?thesis by (simp add: handle_write_def)
    next
      case (Some n)
      let ?wb = "drop n (write_buffer st)"
      from False Some \<open>map_of (connections r) c = _\<close> i show ?thesis
        by (intro u [of "st\<lparr>write_buffer := ?wb, write_pending := (if ?wb = [] then False else write_pending st)\<rparr>"])
          (simp_all add: handle_write_def Let_def connection_inv_def)
    qed
  qed
qed (use assms in \<open>simp add: handle_write_def\<close>)

lemma reactor_step_inv:
  assumes "reactor_inv s" and "reactor_step s t"
  shows "reactor_inv t"
  using assms(2,1)
proof (induction rule: reactor_step.induct)
  case (accept incoming r p)
  then show ?case using reactor_inv_accept by blast
next
  case (read r c p received)
  then show ?case using reactor_inv_read by blast
next
  case (send r p c sent)
  then show ?case by (rule reactor_inv_write)
next
  case (hangup r c p)
  then show ?case using reactor_inv_disconnect by blast
next
  case (prepare r p)
  then show ?case by (rule reactor_inv_prepare)
next
  case (work r p p')
  then show ?case by (simp add: reactor_inv_def)
qed

interpretation reactor: step_invariant "\<lambda>s. \<exists>n p. s = (mk_reactor n, p)" reactor_step reactor_inv
proof unfold_locales
  fix s t
  show "\<exists>n p. s = (mk_reactor n, p) \<Longrightarrow> reactor_inv s" by (auto simp: reactor_inv_def mk_reactor_def)
  show "reactor_inv s \<Longrightarrow> reactor_step s t \<Longrightarrow> reactor_inv t" by (rule reactor_step_inv)
qed

text \<open>What a fresh connection does with a reply to number 0, and with a second one.\<close>

abbreviation answered_once :: "string \<Rightarrow> string \<Rightarrow> connection_state" where
  "answered_once ip reply \<equiv>
     (mk_connection_state ip)\<lparr>write_buffer := reply, next_seq_expected := 1, write_pending := True\<rparr>"

lemma absorb_first: "absorb 0 reply (mk_connection_state ip) = answered_once ip reply"
  unfolding absorb_def mk_connection_state_def
  by (subst flush_contiguous.simps, simp, subst flush_contiguous.simps, simp)

lemma absorb_again:
  "absorb 0 own (answered_once ip reply) = (answered_once ip reply)\<lparr>out_of_order_buf := [(0, own)]\<rparr>"
  unfolding absorb_def mk_connection_state_def by (subst flush_contiguous.simps) simp

text \<open>All complete lines, when no limit is in the way.\<close>

definition has_room :: "worker_pool \<Rightarrow> nat \<Rightarrow> bool" where
  "has_room p k \<longleftrightarrow> (length (pool_queue p) + k) * 10 \<le> unat (pool_max_queue_size p) * 9 \<and>
     unat (pool_max_queue_size p) * 9 < 2 ^ 64"

lemma has_room_not_paused:
  assumes "has_room p k"
  shows "\<not> queue_size p * 10 > pool_max_queue_size p * 9"
proof -
  let ?n = "length (pool_queue p)" and ?m = "unat (pool_max_queue_size p)"
  have le: "?n * 10 \<le> ?m * 9" and m: "?m * 9 < 2 ^ 64" using assms by (auto simp: has_room_def)
  have "queue_size p * 10 = word_of_nat (?n * 10)" by (simp add: queue_size_def)
  moreover have "pool_max_queue_size p * 9 = word_of_nat (?m * 9)" by simp
  moreover have "unat (word_of_nat (?n * 10) :: 64 word) = ?n * 10" "unat (word_of_nat (?m * 9) :: 64 word) = ?m * 9"
    using le m by (intro unat_word_of_nat_64; linarith)+
  ultimately show ?thesis using le by (simp only: word_less_nat_alt not_less)
qed

lemma has_room_process: "has_room p (Suc k) \<Longrightarrow> has_room (process c l seq ip p) k"
  by (auto simp: has_room_def process_cases split: option.splits)

lemma read_lines_all:
  assumes "read_buffer st = line_text ls @ rest" and "newline \<notin> set rest"
    and "\<forall>l \<in> set ls. newline \<notin> set l" and "unat (in_flight_requests st) + length (request_lines ls) \<le> 256"
    and "has_room p (length (request_lines ls))"
  shows "read_lines c st p =
    (False, st\<lparr>read_buffer := rest, next_seq_issue := next_seq_issue st + word_of_nat (length (request_lines ls)),
       in_flight_requests := in_flight_requests st + word_of_nat (length (request_lines ls))\<rparr>,
     process_all c (client_ip st) (next_seq_issue st) (request_lines ls) p)"
  using assms
proof (induction ls arbitrary: st p)
  case Nil
  then show ?case by (simp add: read_lines_rest)
next
  case (Cons l ls)
  let ?tail = "line_text ls @ rest"
  have buf: "read_buffer st = l @ newline # ?tail" and l: "newline \<notin> set l" using Cons.prems(1,3) by auto
  note step = read_lines_line [OF buf l, of c p]
  show ?case
  proof (cases "trim_cr l = []")
    case True
    then have "request_lines (l # ls) = request_lines ls" by simp
    with step True Cons.prems(2-5) show ?thesis by (simp add: Cons.IH)
  next
    case False
    then have req: "request_lines (l # ls) = trim_cr l # request_lines ls" by simp
    have lt: "unat (in_flight_requests st) < 256" using Cons.prems(4) req by simp
    then have one: "unat (in_flight_requests st + 1) = unat (in_flight_requests st) + 1"
      by (intro unat_Suc_64) simp
    have "\<not> in_flight_requests st \<ge> MAX_PIPELINE_DEPTH"
      using lt by (simp add: MAX_PIPELINE_DEPTH_def word_le_nat_alt)
    with step False has_room_not_paused [OF Cons.prems(5)]
    have "read_lines c st p = read_lines c (st\<lparr>read_buffer := ?tail, next_seq_issue := next_seq_issue st + 1,
        in_flight_requests := in_flight_requests st + 1\<rparr>)
        (process c (trim_cr l) (next_seq_issue st) (client_ip st) p)" by simp
    also have "\<dots> = (False, st\<lparr>read_buffer := rest,
        next_seq_issue := next_seq_issue st + 1 + word_of_nat (length (request_lines ls)),
        in_flight_requests := in_flight_requests st + 1 + word_of_nat (length (request_lines ls))\<rparr>,
        process_all c (client_ip st) (next_seq_issue st + 1) (request_lines ls)
          (process c (trim_cr l) (next_seq_issue st) (client_ip st) p))"
      using Cons.prems(2-5) req one has_room_process by (subst Cons.IH) auto
    finally show ?thesis by (simp add: req ac_simps)
  qed
qed

text \<open>Events that neither read from a socket nor open it.\<close>

fun reads_from :: "socket \<Rightarrow> poll_event \<Rightarrow> bool" where
  "reads_from c (ListenEvent readable incoming) \<longleftrightarrow> (\<exists>ip. incoming = Some (c, ip))"
| "reads_from c (ClientEvent s failed readable writable) \<longleftrightarrow> s = c \<and> readable \<noteq> None"

definition input_kept :: "connection_state \<Rightarrow> connection_state option \<Rightarrow> bool" where
  "input_kept st x \<longleftrightarrow> (case x of None \<Rightarrow> True
     | Some st' \<Rightarrow> read_buffer st' = read_buffer st \<and> next_seq_issue st' = next_seq_issue st)"

lemma flush_input: "read_buffer (flush_contiguous st) = read_buffer st \<and> next_seq_issue (flush_contiguous st) = next_seq_issue st"
proof (induction st rule: flush_contiguous.induct)
  case (1 st)
  show ?case
  proof (cases "map_of (out_of_order_buf st) (next_seq_expected st)")
    case None
    then show ?thesis by (subst (1 2) flush_contiguous.simps) simp
  next
    case (Some reply)
    with "1" [OF Some] show ?thesis by (subst (1 2) flush_contiguous.simps) simp
  qed
qed

lemma absorb_input: "read_buffer (absorb seq reply st) = read_buffer st \<and> next_seq_issue (absorb seq reply st) = next_seq_issue st"
  by (simp add: absorb_def flush_input)

lemma fold_absorb_input:
  "read_buffer (fold (\<lambda>x. absorb (f x) (g x)) xs st) = read_buffer st \<and>
   next_seq_issue (fold (\<lambda>x. absorb (f x) (g x)) xs st) = next_seq_issue st"
  by (induction xs arbitrary: st) (simp_all add: absorb_input)

lemma input_kept_prepare:
  assumes "prepare_poll (r, p) = (r', p')" and "input_kept st (map_of (connections r) c)"
  shows "input_kept st (map_of (connections r') c)"
proof -
  have "connections r' = connections (fold deliver_result (completions p) r)"
    using assms(1) by (auto simp: prepare_poll_def drain_completion_queue_def completion_drain_all
        relax_backpressure_def rebuild_poll_set_def)
  with assms(2) show ?thesis
    by (simp add: deliver_results_conn input_kept_def fold_absorb_input split: option.splits)
qed

lemma input_kept_disconnect:
  "input_kept st (map_of (connections r) c) \<Longrightarrow> input_kept st (map_of (connections (disconnect s r)) c)"
  by (simp add: disconnect_def input_kept_def)

lemma input_kept_write:
  "input_kept st (map_of (connections r) c) \<Longrightarrow> input_kept st (map_of (connections (handle_write s sent r)) c)"
  using input_kept_disconnect [of st r c s]
  by (auto simp: handle_write_def input_kept_def Let_def split: option.splits if_splits)

lemma input_kept_read:
  "s \<noteq> c \<Longrightarrow> input_kept st (map_of (connections r) c) \<Longrightarrow>
   input_kept st (map_of (connections (fst (handle_read s received (r, p)))) c)"
  using input_kept_disconnect [of st r c s]
  by (auto simp: handle_read_def input_kept_def split: option.splits prod.splits)

lemma input_kept_event:
  assumes "handle_event e (r, p) = (r', p')" and "\<not> reads_from c e" and "input_kept st (map_of (connections r) c)"
  shows "input_kept st (map_of (connections r') c)"
proof (cases e)
  case (ListenEvent readable incoming)
  with assms show ?thesis by (auto simp: accept_connection_def split: option.splits if_splits)
next
  case (ClientEvent s failed readable writable)
  have rd: "input_kept st (map_of (connections (fst (handle_read s received (r, p)))) c)" if "readable = Some received" for received
    using input_kept_read that assms(2,3) ClientEvent by auto
  from assms ClientEvent input_kept_disconnect input_kept_write rd show ?thesis
    by (auto simp: Let_def split: if_splits option.splits prod.splits)
qed

text \<open>The example reactor: one client on socket 7 with \<open>d\<close> requests in flight.\<close>

definition demo_connection :: "uint64_t \<Rightarrow> string \<Rightarrow> connection_state" where
  "demo_connection d buf = (mk_connection_state ''10.0.0.1'')\<lparr>read_buffer := buf, next_seq_issue := d, in_flight_requests := d\<rparr>"

definition demo_reactor :: "uint64_t \<Rightarrow> string \<Rightarrow> reactor" where
  "demo_reactor d buf = (mk_reactor 8080)\<lparr>connections := [(7, demo_connection d buf)], total_connections := 1\<rparr>"

lemmas demo_reactor_defs = demo_reactor_def demo_connection_def mk_reactor_def mk_connection_state_def

section \<open>Properties\<close>


text \<open>
  C21.  The limits hold in every run of the reactor: at most 10000 connections, counted exactly by
  \<^verbatim>\<open>total_connections_\<close>; at most 256 requests in flight on each; and a connection with unsent output
  is marked pending, so the next poll set asks to write on it.
\<close>

theorem reactor_limits:
  assumes "reactor_step\<^sup>*\<^sup>* (mk_reactor n, p0) (r, p)"
  shows "unat (total_connections r) = length (connections r) \<and> length (connections r) \<le> 10000 \<and>
    (\<forall>c st. map_of (connections r) c = Some st \<longrightarrow> unat (in_flight_requests st) \<le> 256 \<and>
       (write_buffer st \<noteq> [] \<longrightarrow>
          \<lparr>poll_socket = c, poll_read = (c \<notin> paused_reads r), poll_write = True\<rparr> \<in> set (poll_fds (rebuild_poll_set r))))"
proof -
  have inv: "reactor_inv (r, p)" using reactor.reachable_inv [OF _ assms] by blast
  have "\<lparr>poll_socket = c, poll_read = (c \<notin> paused_reads r), poll_write = True\<rparr> \<in> set (poll_fds (rebuild_poll_set r))"
    if "map_of (connections r) c = Some st" "write_buffer st \<noteq> []" for c st
  proof -
    have "write_pending st" using inv that by (simp add: reactor_inv_def connection_inv_def del: map_of_eq_Some_iff)
    with map_of_SomeD [OF that(1)] show ?thesis by (force simp: rebuild_poll_set_def)
  qed
  with inv show ?thesis by (simp add: reactor_inv_def connection_inv_def del: map_of_eq_Some_iff)
qed

text \<open>
  C32.  A line can be lost.  \<^verbatim>\<open>handle_read\<close> takes a line out of the buffer before it tests the limits: at
  the depth limit or under backpressure the request is neither queued nor answered nor numbered,
  and it is no longer in the buffer.
\<close>

theorem limited_line_lost:
  assumes "map_of (connections r) c = Some st" and "read_buffer st @ bytes = line @ newline # rest"
    and "newline \<notin> set line" and "trim_cr line \<noteq> []"
    and "in_flight_requests st \<ge> 256 \<or> queue_size p * 10 > pool_max_queue_size p * 9"
  shows "handle_read c (Some bytes) (r, p) =
    (r\<lparr>connections := AList.update c (st\<lparr>read_buffer := rest\<rparr>) (connections r),
       paused_reads := insert c (paused_reads r)\<rparr>, p)"
  using read_lines_stop [of "st\<lparr>read_buffer := read_buffer st @ bytes\<rparr>" line rest p c] assms
  by (simp add: handle_read_def MAX_PIPELINE_DEPTH_def)



theorem reactor_limits_witness:
  "\<exists>r :: reactor. length (connections r) = 1 \<and> unat (total_connections r) = length (connections r)"
proof -
  let ?r = "mk_reactor 8080" and ?p = "mk_worker_pool 10"
  let ?next = "snd (accept_connection (Some (7, ''10.0.0.1'')) ?r)"
  have "reactor_step (?r, ?p) (?next, ?p)" by (rule reactor_step.accept) (simp add: mk_reactor_def)
  from reactor_limits [OF r_into_rtranclp [of reactor_step, OF this]] show ?thesis
    by (intro exI [of _ ?next]) (simp add: accept_connection_def mk_reactor_def MAX_CONNECTIONS_def)
qed

theorem limited_line_lost_witness:
  "handle_read 7 (Some ''ING\<newline>'') (demo_reactor 256 ''P'', mk_worker_pool 10) =
     ((demo_reactor 256 [])\<lparr>paused_reads := {7}\<rparr>, mk_worker_pool 10)"
proof -
  have "read_buffer (demo_connection 256 ''P'') @ ''ING\<newline>'' = ''PING'' @ newline # []" by (simp add: demo_reactor_defs)
  from limited_line_lost [of "demo_reactor 256 ''P''" 7 "demo_connection 256 ''P''", OF _ this]
  show ?thesis by (simp add: demo_reactor_defs trim_cr_def)
qed


text \<open>
  C27.  The input is cut into requests as intended: with no limit in the way, whatever has been received
  of a connection is split at the newlines, a trailing carriage return is dropped, empty lines are
  skipped, each other line is processed once, in order, with consecutive sequence numbers, and an
  incomplete last line waits for the rest.
\<close>

theorem read_all_lines:
  assumes "map_of (connections r) c = Some st"
    and "read_buffer st @ bytes = line_text ls @ rest" and "newline \<notin> set rest"
    and "\<forall>l \<in> set ls. newline \<notin> set l" and "unat (in_flight_requests st) + length (request_lines ls) \<le> 256"
    and "has_room p (length (request_lines ls))"
  shows "handle_read c (Some bytes) (r, p) =
    (r\<lparr>connections := AList.update c (st\<lparr>read_buffer := rest,
         next_seq_issue := next_seq_issue st + word_of_nat (length (request_lines ls)),
         in_flight_requests := in_flight_requests st + word_of_nat (length (request_lines ls))\<rparr>) (connections r)\<rparr>,
     process_all c (client_ip st) (next_seq_issue st) (request_lines ls) p)"
  using read_lines_all [of "st\<lparr>read_buffer := read_buffer st @ bytes\<rparr>" ls rest p c] assms
  by (simp add: handle_read_def)

theorem read_all_lines_witness:
  "handle_read 7 (Some ''T k\<newline>\<newline>PI'') (demo_reactor 0 ''GE'', mk_worker_pool 10) =
     ((demo_reactor 1 ''PI''), process 7 ''GET k'' 0 ''10.0.0.1'' (mk_worker_pool 10))"
proof -
  have r: "request_lines [''GET k'', []] = [''GET k'']" by (simp add: trim_cr_def)
  have "read_buffer (demo_connection 0 ''GE'') @ ''T k\<newline>\<newline>PI'' = line_text [''GET k'', []] @ ''PI''" by (simp add: demo_reactor_defs)
  from read_all_lines [of "demo_reactor 0 ''GE''" 7 "demo_connection 0 ''GE''", OF _ this]
  show ?thesis
    by (simp add: r demo_reactor_defs has_room_def mk_worker_pool_def)
qed

text \<open>
  What is left in the buffer of a paused connection waits for the client: in a pass of the event
  loop without a read event on the socket no request is taken from its buffer, even if the buffer
  holds complete lines and the limits have been lifted meanwhile.
\<close>

theorem buffered_lines_wait:
  assumes "map_of (connections r) c = Some st" and "\<forall>e \<in> set events. \<not> reads_from c e"
    and "loop_iteration events (r, p) = (r', p')" and "map_of (connections r') c = Some st'"
  shows "read_buffer st' = read_buffer st \<and> next_seq_issue st' = next_seq_issue st"
proof -
  obtain r1 p1 where pp: "prepare_poll (r, p) = (r1, p1)" by (metis surj_pair)
  have "input_kept st (map_of (connections r) c)" by (simp add: input_kept_def assms(1) del: map_of_eq_Some_iff)
  with pp have "input_kept st (map_of (connections r1) c)" by (rule input_kept_prepare)
  moreover have "input_kept st (map_of (connections (fst (fold handle_event events (r1, p1)))) c)"
    if "input_kept st (map_of (connections r1) c)" for r1 p1
    using that assms(2)
  proof (induction events arbitrary: r1 p1)
    case (Cons e events)
    obtain r2 p2 where e: "handle_event e (r1, p1) = (r2, p2)" by (metis surj_pair)
    have "input_kept st (map_of (connections r2) c)"
      using input_kept_event [OF e] Cons.prems by simp
    with Cons.IH Cons.prems(2) e show ?case by simp
  qed simp
  ultimately have "input_kept st (map_of (connections r') c)"
    using assms(3) pp by (metis fst_conv loop_iteration_def)
  then show ?thesis by (simp add: input_kept_def assms(4) del: map_of_eq_Some_iff)
qed

theorem buffered_lines_wait_witness:
  "\<exists>st. map_of (connections (fst (loop_iteration [] (demo_reactor 0 ''PING\<newline>'', mk_worker_pool 10)))) 7 = Some st \<and>
     read_buffer st = ''PING\<newline>''"
proof -
  let ?x = "loop_iteration [] (demo_reactor 0 ''PING\<newline>'', mk_worker_pool 10)"
  have x: "?x = (fst ?x, snd ?x)" by simp
  have c: "map_of (connections (demo_reactor 0 ''PING\<newline>'')) 7 = Some (demo_connection 0 ''PING\<newline>'')"
    by (simp add: demo_reactor_def)
  have "connections (fst ?x) = connections (demo_reactor 0 ''PING\<newline>'')"
    by (simp add: loop_iteration_def prepare_poll_def drain_completion_queue_def mk_worker_pool_def
        relax_backpressure_def rebuild_poll_set_def)
  with c have "map_of (connections (fst ?x)) 7 = Some (demo_connection 0 ''PING\<newline>'')" by simp
  with buffered_lines_wait [OF c _ x this] show ?thesis by (simp add: demo_reactor_defs)
qed

end
