(* ===== verification/KV_Server.thy ===== *)
theory KV_Server
  imports KV_Command
begin

text \<open>
  server_builder.h and server_builder.cpp: the configuration, the parser of memory limits and the
  replay of the log at startup.  A run of the engine is a sequence of executed commands with the
  times at which they read the clock; the main theorem says that the log of a run, replayed into a
  fresh router of any shape, restores the content of the store.
\<close>

section \<open>The builder\<close>

type_synonym uint16_t = "16 word"

record server_builder =
  port :: uint16_t
  worker_threads :: size_t
  max_memory :: size_t
  builder_shard_count :: size_t
  aof_path :: string

definition mk_server_builder :: server_builder where
  "mk_server_builder =
     \<lparr>port = 8080, worker_threads = 4, max_memory = 512 * 1024 * 1024, builder_shard_count = 64,
      aof_path = ''appendonly.aof''\<rparr>"

datatype builder_error = InvalidMemoryLimit string

definition ends_with :: "string \<Rightarrow> string \<Rightarrow> bool" where
  "ends_with s u \<longleftrightarrow> length u \<le> length s \<and> drop (length s - length u) s = u"

definition parse_memory_limit :: "string \<Rightarrow> builder_error + size_t" where
  "parse_memory_limit limit =
     (let upper = to_upper limit;
          strip = take (length upper - 2) upper;
          (multiplier, numeric) =
            (if ends_with upper ''GB'' then (1024 * 1024 * 1024, strip)
             else if ends_with upper ''MB'' then (1024 * 1024, strip)
             else if ends_with upper ''KB'' then (1024, strip)
             else (1, upper))
      in case stoull numeric of
           Inr n \<Rightarrow> Inr (n * multiplier)
         | Inl _ \<Rightarrow> Inl (InvalidMemoryLimit (''Invalid memory limit: '' @ limit)))"

definition setPort :: "uint16_t \<Rightarrow> server_builder \<Rightarrow> server_builder" where
  "setPort p b = b\<lparr>port := p\<rparr>"

definition setWorkerThreads :: "size_t \<Rightarrow> server_builder \<Rightarrow> server_builder" where
  "setWorkerThreads n b = b\<lparr>worker_threads := n\<rparr>"

definition setMaxMemoryLimit :: "string \<Rightarrow> server_builder \<Rightarrow> builder_error + server_builder" where
  "setMaxMemoryLimit limit b =
     (case parse_memory_limit limit of Inl e \<Rightarrow> Inl e | Inr n \<Rightarrow> Inr (b\<lparr>max_memory := n\<rparr>))"

definition setShardCount :: "size_t \<Rightarrow> server_builder \<Rightarrow> server_builder" where
  "setShardCount n b = b\<lparr>builder_shard_count := n\<rparr>"

definition setAofPath :: "string \<Rightarrow> server_builder \<Rightarrow> server_builder" where
  "setAofPath p b = b\<lparr>aof_path := p\<rparr>"

section \<open>Replay\<close>

text \<open>
  The log is written in binary mode but read back by \<^verbatim>\<open>std::ifstream aof_file(aof_path_)\<close> in text
  mode, which on the program's only platform (it is built on Winsock) ends the input at the
  character 0x1A and turns CR LF into LF.
\<close>

abbreviation ctrl_z :: char where
  "ctrl_z \<equiv> CHR 0x1A"

abbreviation carriage_return :: char where
  "carriage_return \<equiv> CHR 0x0D"

fun crlf_to_lf :: "string \<Rightarrow> string" where
  "crlf_to_lf (c # d # s) =
     (if c = carriage_return \<and> d = newline then newline # crlf_to_lf s else c # crlf_to_lf (d # s))"
| "crlf_to_lf s = s"

definition text_mode :: "string \<Rightarrow> string" where
  "text_mode s = crlf_to_lf (takeWhile (\<lambda>c. c \<noteq> ctrl_z) s)"

text \<open>
  The loop over the lines: the number of commands replayed, the router and the log.  \<open>clock i\<close> is
  the time that the \<open>i\<close>-th replayed command reads.
\<close>

fun replay_lines ::
  "'u pmr_env \<Rightarrow> (nat \<Rightarrow> time_point) \<Rightarrow> string list \<Rightarrow> nat \<times> 'u shard_router \<times> aof_logger
     \<Rightarrow> nat \<times> 'u shard_router \<times> aof_logger" where
  "replay_lines env clock [] st = st"
| "replay_lines env clock (line # lines) (replayed, r, aof) =
     (if line = [] then replay_lines env clock lines (replayed, r, aof)
      else case parse (tokenize line) of
             None \<Rightarrow> replay_lines env clock lines (replayed, r, aof)
           | Some c \<Rightarrow>
               (case execute env (clock replayed) c (r, Some aof) of
                  (_, r', aof') \<Rightarrow> replay_lines env clock lines (replayed + 1, r', the aof')))"

definition replay ::
  "'u pmr_env \<Rightarrow> (nat \<Rightarrow> time_point) \<Rightarrow> string option \<Rightarrow> 'u shard_router \<times> aof_logger
     \<Rightarrow> nat \<times> 'u shard_router \<times> aof_logger" where
  "replay env clock aof_file db =
     (case aof_file of
        None \<Rightarrow> (0, db)
      | Some contents \<Rightarrow>
          (case replay_lines env clock (getlines (text_mode contents))
                  (0, fst db, set_replaying True (snd db)) of
             (n, r, aof) \<Rightarrow> (n, r, set_replaying False aof)))"

section \<open>Memory limits\<close>

lemma toupper_digit: "is_digit c \<Longrightarrow> toupper c = c"
  by (auto simp: toupper_def is_digit_def Let_def)

lemma to_upper_to_string_nat: "to_upper (to_string_nat n) = to_string_nat n"
  using to_string_nat_chars [of _ n] digit_char_props(1) toupper_digit
  by (metis (no_types, lifting) map_idI to_upper_def)

lemma to_upper_append: "to_upper (s @ u) = to_upper s @ to_upper u"
  by (simp add: to_upper_def)

lemma ends_with_append: "ends_with (s @ u) v \<longleftrightarrow> u = v" if "length u = length v"
  using that by (simp add: ends_with_def)

lemma stoull_to_string_nat: "n < 2 ^ 64 \<Longrightarrow> stoull (to_string_nat n) = Inr (word_of_nat n)"
  using strto_to_string [of "int n"] by (simp add: stoull_def to_string_def)

lemma last_to_string_nat: "is_digit (last (to_string_nat n))"
  using to_string_nat_chars [of "last (to_string_nat n)" n] digit_char_props(1) by auto

lemma ends_with_last: "ends_with s u \<Longrightarrow> u \<noteq> [] \<Longrightarrow> last s = last u"
proof -
  assume "ends_with s u" and u: "u \<noteq> []"
  then have "s = take (length s - length u) s @ u" by (metis append_take_drop_id ends_with_def)
  with u show "last s = last u" by (metis last_appendR)
qed

lemma to_string_nat_no_unit: "u \<noteq> [] \<Longrightarrow> \<not> is_digit (last u) \<Longrightarrow> \<not> ends_with (to_string_nat n) u"
  using ends_with_last last_to_string_nat by metis

lemmas memory_limit_simps = parse_memory_limit_def to_upper_append to_upper_to_string_nat ends_with_append
  stoull_to_string_nat

lemma memory_limit_GB:
  "n < 2 ^ 64 \<Longrightarrow> to_upper u = ''GB'' \<Longrightarrow> parse_memory_limit (to_string_nat n @ u) = Inr (word_of_nat (n * 2 ^ 30))"
  by (auto simp: memory_limit_simps)

section \<open>Runs of the engine\<close>

text \<open>
  A run executes commands one after the other, each at its own time.  \<open>effective\<close> lists the commands
  that took effect, which are the ones that are logged.
\<close>

type_synonym history = "(time_point \<times> command) list"

fun run_commands ::
  "'u pmr_env \<Rightarrow> history \<Rightarrow> 'u shard_router \<times> aof_logger option
     \<Rightarrow> string list \<times> 'u shard_router \<times> aof_logger option" where
  "run_commands env [] db = ([], db)"
| "run_commands env ((now, c) # h) db =
     (let (reply, db') = execute env now c db; (replies, db'') = run_commands env h db'
      in (reply # replies, db''))"

fun effective :: "'u pmr_env \<Rightarrow> history \<Rightarrow> 'u shard_router \<Rightarrow> command list" where
  "effective env [] r = []"
| "effective env ((now, c) # h) r =
     (let (_, ok, r') = perform env now c r in (if ok then [c] else []) @ effective env h r')"

definition timed :: "(nat \<Rightarrow> time_point) \<Rightarrow> nat \<Rightarrow> command list \<Rightarrow> history" where
  "timed clock n cs = zip (map clock [n..<n + length cs]) cs"

lemma timed_simps [simp]:
  "timed clock n [] = []" "timed clock n (c # cs) = (clock n, c) # timed clock (Suc n) cs"
  by (simp_all add: timed_def upt_conv_Cons del: upt_Suc)

lemma log_write_Some [simp]:
  "log_write c (Some l) = Some (if is_replaying l then l else aof_log (serialize c) l)"
  by (simp add: log_write_def)

lemma aof_log_active:
  "buffer_get (active_buffer (aof_log x l)) (aof_log x l)
     = buffer_get (active_buffer l) l @ (if running l then [x] else [])"
  by simp

text \<open>What a run leaves in the active buffer.\<close>

lemma run_commands_log:
  assumes "run_commands env h (r, Some l) = (replies, r', aof')" and "running l" and "\<not> is_replaying l"
  shows "\<exists>l'. aof' = Some l' \<and> written l' = written l \<and> active_buffer l' = active_buffer l \<and>
    buffer_get (active_buffer l) l' = buffer_get (active_buffer l) l @ map serialize (effective env h r)"
  using assms
proof (induction h arbitrary: r l replies)
  case (Cons tc h)
  obtain now c where tc: "tc = (now, c)" by (cases tc)
  obtain reply ok r1 where p: "perform env now c r = (reply, ok, r1)" by (metis surj_pair)
  let ?l = "if ok then aof_log (serialize c) l else l"
  have e: "execute env now c (r, Some l) = (reply, r1, Some ?l)"
    using Cons.prems(3) by (simp add: execute_def p)
  with Cons.prems(1) tc obtain replies' where h: "run_commands env h (r1, Some ?l) = (replies', r', aof')"
    by (auto split: prod.splits)
  have "running ?l" "\<not> is_replaying ?l" using Cons.prems(2,3) by auto
  from Cons.IH [OF h this] Cons.prems(2) show ?case by (auto simp: tc p)
qed auto

text \<open>
  Replaying well-formed lines is a run without a log: the flag keeps the commands from being logged
  again.
\<close>

lemma replay_lines_run:
  assumes "map parse_line lines = map Some cs" and "[] \<notin> set lines" and "is_replaying aof"
  shows "replay_lines env clock lines (n, r, aof) =
    (n + length cs, fst (snd (run_commands env (timed clock n cs) (r, None))), aof)"
  using assms
proof (induction lines arbitrary: cs n r)
  case (Cons line lines)
  then obtain c cs' where cs: "cs = c # cs'" and c: "parse (tokenize line) = Some c"
    by (auto simp: parse_line_def)
  obtain reply ok r1 where p: "perform env (clock n) c r = (reply, ok, r1)" by (metis surj_pair)
  have "execute env (clock n) c (r, Some aof) = (reply, r1, Some aof)"
    using Cons.prems(3) by (simp add: execute_def p)
  moreover have "execute env (clock n) c (r, None) = (reply, r1, None)"
    by (simp add: execute_def p log_write_def)
  moreover have "replay_lines env clock lines (Suc n, r1, aof) =
      (Suc n + length cs', fst (snd (run_commands env (timed clock (Suc n) cs') (r1, None))), aof)"
    using Cons.prems cs by (intro Cons.IH) auto
  moreover have "line \<noteq> []" using Cons.prems(2) by auto
  ultimately show ?case by (simp add: c cs split: prod.splits)
qed simp

section \<open>Nothing expires in the window\<close>

text \<open>
  Entries created at \<open>t0\<close> or later whose time to live is infinite or at least \<open>w\<close> seconds are not
  expired before \<open>t0 + w\<close> seconds.
\<close>

definition lasting :: "time_point \<Rightarrow> int64_t \<Rightarrow> 'u shard_router \<Rightarrow> bool" where
  "lasting t0 w r \<longleftrightarrow> (\<forall>k e. router_entry r k = Some e \<longrightarrow>
     t0 \<le> created_at e \<and> (ttl_seconds e < 0 \<or> w \<le> ttl_seconds e))"

fun command_lasting :: "int64_t \<Rightarrow> command \<Rightarrow> bool" where
  "command_lasting w (SetCommand k v ttl) \<longleftrightarrow> ttl < 0 \<or> w \<le> ttl"
| "command_lasting w (LPushCommand k v ttl) \<longleftrightarrow> ttl < 0 \<or> w \<le> ttl"
| "command_lasting w (HSetCommand k f v ttl) \<longleftrightarrow> ttl < 0 \<or> w \<le> ttl"
| "command_lasting w _ \<longleftrightarrow> True"

definition in_window :: "time_point \<Rightarrow> int64_t \<Rightarrow> time_point \<Rightarrow> bool" where
  "in_window t0 w now \<longleftrightarrow> t0 \<le> now \<and> now < t0 + w * ns_per_s"

lemma not_expired_in_window:
  assumes "t0 \<le> created_at e" and "ttl_seconds e < 0 \<or> w \<le> ttl_seconds e" and "in_window t0 w now"
    and "0 < w"
  shows "\<not> is_expired now e"
proof (cases "ttl_seconds e < 0")
  case False
  have "w * ns_per_s \<le> ttl_seconds e * ns_per_s"
    using False assms(2) by (intro mult_right_mono) (auto simp: ns_per_s_def)
  then have "now - created_at e < ttl_seconds e * ns_per_s" "0 < ttl_seconds e"
    using assms False by (auto simp: in_window_def)
  then show ?thesis unfolding is_expired_def duration_cast_seconds_def ns_per_s_def
    by (auto simp: sgn_if)
qed (simp add: is_expired_def)

lemma lasting_fresh: "lasting t0 w r \<Longrightarrow> in_window t0 w now \<Longrightarrow> 0 < w \<Longrightarrow> fresh now r"
  unfolding fresh_def lasting_def using not_expired_in_window by blast

lemma new_entry_lasting:
  assumes "new_entry now c x = Some e" and "command_lasting w c" and "t0 \<le> now"
    and "\<And>e. x = Some e \<Longrightarrow> t0 \<le> created_at e \<and> (ttl_seconds e < 0 \<or> w \<le> ttl_seconds e)"
  shows "t0 \<le> created_at e \<and> (ttl_seconds e < 0 \<or> w \<le> ttl_seconds e)"
  using assms by (cases c) (auto split: option.splits value_variant.splits)

lemma perform_lasting:
  assumes wf: "router_wf env r" and l: "lasting t0 w r" and c: "command_lasting w c"
    and w: "in_window t0 w now" "0 < w" and p: "perform env now c r = (reply, ok, r')"
  shows "lasting t0 w r'"
proof -
  have "visible_entry_at now k r = router_entry r k" for k
    by (rule visible_fresh [OF lasting_fresh [OF l w]])
  moreover have "t0 \<le> created_at e \<and> (ttl_seconds e < 0 \<or> w \<le> ttl_seconds e)"
    if "new_entry now c (router_entry r k) = Some e" for k e
    using new_entry_lasting [OF that c] l w by (auto simp: lasting_def in_window_def)
  ultimately show ?thesis using l unfolding lasting_def perform_entry [OF wf p]
    by (auto split: if_splits)
qed

section \<open>Runs refine the abstract store\<close>

fun admissible_all :: "command list \<Rightarrow> content \<Rightarrow> bool" where
  "admissible_all [] m = True"
| "admissible_all (c # cs) m = (admissible c m \<and> admissible_all cs (apply_write c m))"

definition run_in_window :: "time_point \<Rightarrow> int64_t \<Rightarrow> history \<Rightarrow> bool" where
  "run_in_window t0 w h \<longleftrightarrow> 0 < w \<and> (\<forall>(now, c) \<in> set h. in_window t0 w now \<and> command_lasting w c)"

lemma run_in_window_Cons:
  "run_in_window t0 w ((now, c) # h) \<longleftrightarrow>
     in_window t0 w now \<and> command_lasting w c \<and> 0 < w \<and> run_in_window t0 w h"
  by (auto simp: run_in_window_def)

text \<open>The content after a run is the effect of its effective commands, each admissible in its turn.\<close>

lemma run_commands_content:
  assumes "router_wf env r" and "lasting t0 w r" and "run_in_window t0 w h"
    and "run_commands env h (r, aof) = (replies, r', aof')"
  shows "router_content r' = fold apply_write (effective env h r) (router_content r) \<and>
    admissible_all (effective env h r) (router_content r)"
  using assms
proof (induction h arbitrary: r aof replies)
  case (Cons tc h)
  obtain now c where tc: "tc = (now, c)" by (cases tc)
  with Cons.prems(3) have w: "in_window t0 w now" "0 < w" "command_lasting w c" "run_in_window t0 w h"
    by (auto simp: run_in_window_Cons)
  obtain reply ok r1 where p: "perform env now c r = (reply, ok, r1)" by (metis surj_pair)
  note fr = lasting_fresh [OF Cons.prems(2) w(1,2)]
  note wf1 = perform_wf [OF Cons.prems(1) p]
    and l1 = perform_lasting [OF Cons.prems(1,2) w(3,1,2) p]
  from Cons.prems(4) tc p obtain aof1 replies'
    where h: "run_commands env h (r1, aof1) = (replies', r', aof')"
    by (auto simp: execute_def split: prod.splits)
  from Cons.IH [OF wf1 l1 w(4) h] perform_content [OF Cons.prems(1) fr p]
    perform_admissible [OF Cons.prems(1) fr p]
  show ?case by (auto simp: tc p)
qed simp

text \<open>An admissible run in which memory never runs out takes effect completely.\<close>

lemma run_commands_complete:
  assumes "router_wf env r" and "lasting t0 w r" and "run_in_window t0 w h"
    and "run_commands env h (r, aof) = (replies, r', aof')"
    and "admissible_all (map snd h) (router_content r)" and "err_oom \<notin> set replies"
  shows "effective env h r = map snd h"
  using assms
proof (induction h arbitrary: r aof replies)
  case (Cons tc h)
  obtain now c where tc: "tc = (now, c)" by (cases tc)
  with Cons.prems(3) have w: "in_window t0 w now" "0 < w" "command_lasting w c" "run_in_window t0 w h"
    by (auto simp: run_in_window_Cons)
  obtain reply ok r1 where p: "perform env now c r = (reply, ok, r1)" by (metis surj_pair)
  note fr = lasting_fresh [OF Cons.prems(2) w(1,2)]
  note wf1 = perform_wf [OF Cons.prems(1) p]
    and l1 = perform_lasting [OF Cons.prems(1,2) w(3,1,2) p]
  from Cons.prems(4) tc p obtain aof1 replies'
    where h: "run_commands env h (r1, aof1) = (replies', r', aof')" and rs: "replies = reply # replies'"
    by (auto simp: execute_def split: prod.splits)
  have ok: ok using perform_admissible [OF Cons.prems(1) fr p] Cons.prems(5,6) by (auto simp: tc rs)
  then have "router_content r1 = apply_write c (router_content r)"
    using perform_content [OF Cons.prems(1) fr p] by simp
  with Cons.prems(5) tc have a: "admissible_all (map snd h) (router_content r1)" by simp
  have "err_oom \<notin> set replies'" using Cons.prems(6) rs by simp
  from Cons.IH [OF wf1 l1 w(4) h a this] ok show ?case by (simp add: tc p)
qed simp

section \<open>The log as text\<close>

lemma white_space_in_serialize:
  assumes "command_wf c" and "is_space x" and "x \<in> set (serialize c)"
  shows "x = CHR '' ''"
proof -
  have "x = CHR '' ''" if "\<forall>t \<in> set ts. is_token t" and "x \<in> set (join ts)" for ts
    using that assms(2) by (induction ts rule: join.induct) (auto simp: is_token_def)
  from this [of "command_tokens c"] show ?thesis
    using command_tokens_are_tokens [OF assms(1)] assms(3) by (simp add: serialize_join)
qed

lemma crlf_to_lf_id: "carriage_return \<notin> set s \<Longrightarrow> crlf_to_lf s = s"
  by (induction s rule: crlf_to_lf.induct) auto

lemma no_carriage_return:
  "\<forall>c \<in> set cs. command_wf c \<Longrightarrow> carriage_return \<notin> set (aof_lines (map serialize cs))"
proof -
  have "is_space carriage_return" by (simp add: is_space_def)
  then show "\<forall>c \<in> set cs. command_wf c \<Longrightarrow> carriage_return \<notin> set (aof_lines (map serialize cs))"
    using white_space_in_serialize [of _ carriage_return] by (auto simp: aof_lines_def)
qed

lemma text_mode_log:
  assumes "\<forall>c \<in> set cs. command_wf c \<and> ctrl_z \<notin> set (serialize c)"
  shows "text_mode (aof_lines (map serialize cs)) = aof_lines (map serialize cs)"
proof -
  have "carriage_return \<notin> set (aof_lines (map serialize cs))" using assms no_carriage_return by blast
  moreover have "takeWhile (\<lambda>c. c \<noteq> ctrl_z) (aof_lines (map serialize cs)) = aof_lines (map serialize cs)"
    using assms by (subst takeWhile_eq_all_conv) (auto simp: aof_lines_def)
  ultimately show ?thesis unfolding text_mode_def by (metis crlf_to_lf_id)
qed

lemma effective_subset: "c \<in> set (effective env h r) \<Longrightarrow> \<exists>now. (now, c) \<in> set h"
proof (induction h arbitrary: r)
  case (Cons tc h)
  then show ?case by (cases tc) (auto split: prod.splits if_splits)
qed simp

lemma replay_log:
  assumes "\<forall>c \<in> set cs. command_wf c \<and> ctrl_z \<notin> set (serialize c)"
  shows "replay env clock (Some (aof_lines (map serialize cs))) (r, aof) =
    (length cs, fst (snd (run_commands env (timed clock 0 cs) (r, None))), aof\<lparr>is_replaying := False\<rparr>)"
proof -
  let ?ls = "getlines (aof_lines (map serialize cs))"
  have wf: "\<forall>c \<in> set cs. command_wf c" using assms by blast
  have "?ls = map serialize cs"
    unfolding aof_lines_def using wf command_codec.encode_line by (intro getlines_concat) auto
  with wf have "[] \<notin> set ?ls" using command_codec.encode_line by force
  from replay_lines_run [OF command_codec.decode_lines [OF wf] this, of "set_replaying True aof" env clock 0 r]
  show ?thesis using text_mode_log [OF assms] by (simp add: replay_def set_replaying_def)
qed

text \<open>A partial last line that does not parse, and creation times during a replay.\<close>

lemma getlines_concat_rest:
  assumes "\<forall>l \<in> set ls. newline \<notin> set l" and "newline \<notin> set s" and "s \<noteq> []"
  shows "getlines (concat (map (\<lambda>l. l @ [newline]) ls) @ s) = ls @ [s]"
  using assms(1)
proof (induction ls)
  case Nil
  let ?nl = "\<lambda>c. c \<noteq> newline"
  have "getlines s = takeWhile ?nl s # getlines (drop 1 (dropWhile ?nl s))"
    using assms(3) by (subst getlines.simps) (rule if_not_P)
  moreover have "takeWhile ?nl s = s" using assms(2) by (auto simp: takeWhile_eq_all_conv)
  moreover have "dropWhile ?nl s = []" using assms(2) by (auto simp: dropWhile_eq_Nil_conv)
  ultimately show ?case by (simp only: list.map concat.simps append_Nil drop_Nil getlines_Nil)
qed (auto simp: getlines_line)

lemma replay_lines_unparsed:
  "parse (tokenize line) = None \<Longrightarrow>
   replay_lines env clock (lines @ [line]) st = replay_lines env clock lines st"
  by (induction env clock lines st rule: replay_lines.induct)
    (auto split: option.splits prod.splits)

definition created_since :: "time_point \<Rightarrow> 'u shard_router \<Rightarrow> bool" where
  "created_since t r \<longleftrightarrow> (\<forall>k e. router_entry r k = Some e \<longrightarrow> t \<le> created_at e)"

lemma perform_created_since:
  assumes wf: "router_wf env r" and l: "created_since t r" and "t \<le> now"
    and p: "perform env now c r = (reply, ok, r')"
  shows "created_since t r'"
proof -
  have "t \<le> created_at e" if "visible_entry_at now k r = Some e" for k e
    using that l by (auto simp: visible_entry_at_def visible_entry created_since_def router_entry_def
        split: option.splits if_splits)
  then have "t \<le> created_at e" if "new_entry now c (visible_entry_at now k r) = Some e" for k e
    using that \<open>t \<le> now\<close> by (cases c) (auto split: option.splits value_variant.splits)
  then show ?thesis using l unfolding created_since_def perform_entry [OF wf p]
    by (auto split: if_splits)
qed

lemma replay_lines_created_since:
  assumes "router_wf env r" and "created_since t r" and "\<forall>i. t \<le> clock i"
    and "replay_lines env clock lines (n, r, aof) = (n', r', aof')"
  shows "created_since t r' \<and> router_wf env r'"
  using assms
proof (induction lines arbitrary: n r aof)
  case (Cons line lines)
  show ?case
  proof (cases "line = [] \<or> parse (tokenize line) = None")
    case True
    with Cons.prems(4) have "replay_lines env clock lines (n, r, aof) = (n', r', aof')"
      by (auto split: if_splits)
    from Cons.IH [OF Cons.prems(1-3) this] show ?thesis .
  next
    case False
    then obtain c where c: "parse (tokenize line) = Some c" by auto
    obtain reply ok r1 where p: "perform env (clock n) c r = (reply, ok, r1)" by (metis surj_pair)
    have "t \<le> clock n" using Cons.prems(3) by blast
    note p1 = perform_created_since [OF Cons.prems(1,2) this p] perform_wf [OF Cons.prems(1) p]
    from Cons.prems(4) False obtain aof1 where "replay_lines env clock lines (Suc n, r1, aof1) = (n', r', aof')"
      by (auto simp: c execute_def p)
    from Cons.IH [OF p1(2,1) Cons.prems(3) this] show ?thesis .
  qed
qed simp

section \<open>Properties\<close>

text \<open>
  Recovery.  A run of commands against an empty store, flushed to the log and replayed at the
  next start into any empty router, of the same or of another shape, restores the content: the
  same keys with the same values and times to live, and nothing is logged again.  Both the run and
  the replay must be over before the shortest finite time to live has passed, no command may
  contain the character that ends a text file, and memory must not run out during the replay.
\<close>

theorem replay_restores:
  assumes "router_wf env r0" and "router_entry r0 = Map.empty"
    and "aof_start True (mk_aof_logger path []) = Inr l0"
    and "run_commands env h (r0, Some l0) = (replies, r, Some l)"
    and "run_in_window t0 w h" and "\<forall>(now, c) \<in> set h. command_wf c \<and> ctrl_z \<notin> set (serialize c)"
    and "router_wf env' s0" and "router_entry s0 = Map.empty"
    and "replay env' clock (Some (written (aof_flush l))) (s0, aof) = (n, s, aof')"
    and "\<forall>i < length (effective env h r0). in_window t1 w (clock i)"
    and "err_oom \<notin> set (fst (run_commands env' (timed clock 0 (effective env h r0)) (s0, None)))"
  shows "router_content s = router_content r \<and> n = length (effective env h r0) \<and>
    aof' = aof\<lparr>is_replaying := False\<rparr>"
proof -
  let ?cs = "effective env h r0" and ?h = "timed clock 0 (effective env h r0)"
  have l0: "running l0" "\<not> is_replaying l0" "written l0 = []" "buffer_get (active_buffer l0) l0 = []"
    using assms(3) by (auto simp: aof_start_def mk_aof_logger_def)
  from run_commands_log [OF assms(4) l0(1,2)] l0 have log: "written (aof_flush l) = aof_lines (map serialize ?cs)"
    by (auto simp: aof_flush_def)
  have wf: "\<forall>c \<in> set ?cs. command_wf c \<and> ctrl_z \<notin> set (serialize c)" and cl: "\<forall>c \<in> set ?cs. command_lasting w c"
    using effective_subset [of _ env h r0] assms(5,6) by (fastforce simp: run_in_window_def)+
  have l: "lasting t0 w r0" "lasting t1 w s0" by (simp_all add: lasting_def assms(2,8))
  have c0: "router_content r0 = Map.empty" "router_content s0 = Map.empty"
    by (simp_all add: router_content_def fun_eq_iff assms(2,8))
  from run_commands_content [OF assms(1) l(1) assms(5,4)] have
    r: "router_content r = fold apply_write ?cs Map.empty" and adm: "admissible_all ?cs Map.empty"
    by (simp_all add: c0)
  have snd: "map snd ?h = ?cs" by (simp add: timed_def)
  have win: "run_in_window t1 w ?h"
    using assms(5,10) cl by (auto simp: run_in_window_def timed_def set_zip)
  obtain replies' s' aof1 where run: "run_commands env' ?h (s0, None) = (replies', s', aof1)"
    by (metis surj_pair)
  from replay_log [OF wf, of env' clock s0 aof] assms(9) log run have s: "s = s'" "n = length ?cs" "aof' = aof\<lparr>is_replaying := False\<rparr>"
    by simp_all
  have "effective env' ?h s0 = ?cs"
    using run_commands_complete [OF assms(7) l(2) win run] adm assms(11) by (simp add: c0 snd run)
  with run_commands_content [OF assms(7) l(2) win run] r s show ?thesis by (simp add: c0)
qed

lemma demo_lpush:
  "\<exists>q. perform demo_env now (LPushCommand ''l'' ''a'' ttl) demo_router = (int_reply 1, True, q)"
proof -
  let ?p = "perform demo_env now (LPushCommand ''l'' ''a'' ttl) demo_router"
  have "fst ?p = int_reply 1" "fst (snd ?p)"
    by (simp_all add: lpush_shard_def demo_router_simps del: demo_router_fresh)
  then show ?thesis by (metis prod.collapse)
qed

theorem replay_restores_witness:
  "router_content (fst (snd (replay demo_env (\<lambda>i. 7)
     (Some (aof_lines [''LPUSH l a''])) (demo_router, mk_aof_logger ''f'' [])))) ''l''
   = Some (VList [''a''], 86400)"
proof -
  let ?c = "LPushCommand ''l'' ''a'' 86400"
  let ?l0 = "\<lparr>filepath = ''f'', written = [], file_open = True, buffer_a = [], buffer_b = [],
    active_buffer = BufferA, flush_buffer = BufferB, running = True, is_replaying = False\<rparr>"
  let ?x = "replay demo_env (\<lambda>i. 7) (Some (aof_lines [''LPUSH l a''])) (demo_router, mk_aof_logger ''f'' [])"
  obtain r q where p: "perform demo_env 0 ?c demo_router = (int_reply 1, True, r)"
    and q: "perform demo_env 7 ?c demo_router = (int_reply 1, True, q)" using demo_lpush by blast
  have run: "run_commands demo_env [(0, ?c)] (demo_router, Some ?l0) =
      ([int_reply 1], r, Some (aof_log (serialize ?c) ?l0))"
    by (simp add: execute_def p del: perform.simps)
  have eff: "effective demo_env [(0, ?c)] demo_router = [?c]" by (simp add: p del: perform.simps)
  have nooom: "err_oom \<notin> set (fst (run_commands demo_env
      (timed (\<lambda>i. 7) 0 (effective demo_env [(0, ?c)] demo_router)) (demo_router, None)))"
    unfolding eff by (simp add: execute_def q int_reply_def err_oom_def del: perform.simps)
  have l0: "aof_start True (mk_aof_logger ''f'' []) = Inr ?l0" by (simp add: aof_start_def mk_aof_logger_def)
  have win: "run_in_window 0 86400 [(0, ?c)]" by (simp add: run_in_window_def in_window_def ns_per_s_def)
  have x: "replay demo_env (\<lambda>i. 7) (Some (written (aof_flush (aof_log (serialize ?c) ?l0))))
      (demo_router, mk_aof_logger ''f'' []) = (fst ?x, fst (snd ?x), snd (snd ?x))"
    by (simp add: aof_flush_def aof_log_def)
  have cs: "\<forall>(now :: int, c) \<in> set [(0, ?c)]. command_wf c \<and> ctrl_z \<notin> set (serialize c)"
    by (simp add: is_token_def is_space_def default_ttl_def)
  have e: "router_entry demo_router = Map.empty" by (simp add: fun_eq_iff demo_router_empty)
  have "router_content (fst (snd ?x)) = router_content r"
    using replay_restores [OF demo_router_wf e l0 run win cs demo_router_wf e x _ nooom, of 0]
    by (simp add: in_window_def ns_per_s_def)
  moreover have "router_content r ''l'' = Some (VList [''a''], 86400)"
    using perform_content [OF demo_router_wf demo_router_fresh p]
    by (simp add: router_content_def demo_router_empty)
  ultimately show ?thesis by simp
qed

text \<open>
  A memory limit is read as intended as long as it fits 64 bits: a decimal number with one of
  the units in any case gives the number times the unit.  Beyond that the product silently wraps
  around instead of being refused.
\<close>

theorem memory_limit_value:
  assumes "n < 2 ^ 64"
  shows "(\<forall>u. to_upper u = ''GB'' \<longrightarrow> parse_memory_limit (to_string_nat n @ u) = Inr (word_of_nat (n * 2 ^ 30))) \<and>
    (\<forall>u. to_upper u = ''MB'' \<longrightarrow> parse_memory_limit (to_string_nat n @ u) = Inr (word_of_nat (n * 2 ^ 20))) \<and>
    (\<forall>u. to_upper u = ''KB'' \<longrightarrow> parse_memory_limit (to_string_nat n @ u) = Inr (word_of_nat (n * 2 ^ 10))) \<and>
    parse_memory_limit (to_string_nat n) = Inr (word_of_nat n)"
proof -
  have "\<not> ends_with (to_string_nat n) ''GB''" "\<not> ends_with (to_string_nat n) ''MB''"
    "\<not> ends_with (to_string_nat n) ''KB''" by (rule to_string_nat_no_unit; simp add: is_digit_def)+
  then show ?thesis using assms by (auto simp: memory_limit_simps)
qed

theorem memory_limit_value_witness:
  "parse_memory_limit ''512mb'' = Inr 536870912 \<and> parse_memory_limit ''17179869184GB'' = Inr 0"
proof -
  have "to_string_nat 512 = ''512''" "to_string_nat 17179869184 = ''17179869184''"
    by (simp_all add: to_string_nat.simps digit_char_def char_of_def bit_Suc_0_iff)
  moreover have "to_upper ''mb'' = ''MB''" "to_upper ''GB'' = ''GB''"
    by (simp_all add: to_upper_def toupper_def Let_def char_of_def bit_Suc_0_iff)
  ultimately show ?thesis
    using memory_limit_value [of 512] memory_limit_value [of 17179869184] by auto
qed

text \<open>
  C31.  Replay restarts every time to live: whatever the log holds, each entry of the restored store
  has a creation time at or after the restart, so a key written just before the shutdown lives for
  its full time to live once more.
\<close>

theorem replay_restarts_ttl:
  assumes "router_wf env r" and "router_entry r = Map.empty" and "\<forall>i. t \<le> clock i"
    and "replay env clock contents (r, aof) = (n, r', aof')" and "router_entry r' k = Some e"
  shows "t \<le> created_at e \<and>
    (\<forall>now. t \<le> now \<and> now < t + ttl_seconds e * ns_per_s \<longrightarrow> \<not> is_expired now e)"
proof -
  have "created_since t r" by (simp add: created_since_def assms(2))
  then have "created_since t r'"
    using assms(4) replay_lines_created_since [OF assms(1) _ assms(3)]
    by (auto simp: replay_def split: option.splits prod.splits)
  then have t: "t \<le> created_at e" using assms(5) by (simp add: created_since_def)
  have "\<not> is_expired now e" if "t \<le> now \<and> now < t + ttl_seconds e * ns_per_s" for now
    using not_expired_in_window [OF t, of "ttl_seconds e" now] that
    by (cases "0 < ttl_seconds e") (auto simp: in_window_def ns_per_s_def)
  with t show ?thesis by blast
qed

theorem replay_restarts_ttl_witness:
  "\<exists>e. router_entry (fst (snd (replay demo_env (\<lambda>i. 7) (Some (aof_lines [''LPUSH l a'']))
       (demo_router, mk_aof_logger ''f'' [])))) ''l'' = Some e \<and> 7 \<le> created_at e"
proof -
  let ?x = "replay demo_env (\<lambda>i. 7) (Some (aof_lines [''LPUSH l a''])) (demo_router, mk_aof_logger ''f'' [])"
  have e: "router_entry demo_router = Map.empty" by (simp add: fun_eq_iff demo_router_empty)
  have c: "\<forall>c \<in> set [LPushCommand ''l'' ''a'' default_ttl]. command_wf c \<and> ctrl_z \<notin> set (serialize c)"
    by (simp add: is_token_def is_space_def)
  obtain q where q: "perform demo_env 7 (LPushCommand ''l'' ''a'' default_ttl) demo_router = (int_reply 1, True, q)"
    using demo_lpush by blast
  have "fst (snd ?x) = q"
    using replay_log [OF c, of demo_env "\<lambda>i. 7" demo_router "mk_aof_logger ''f'' []"]
    by (simp add: execute_def q del: perform.simps)
  moreover obtain e where "router_entry q ''l'' = Some e"
    using perform_entry [OF demo_router_wf q] visible_fresh [OF demo_router_fresh]
    by (simp add: demo_router_empty)
  moreover have "?x = (fst ?x, fst (snd ?x), snd (snd ?x))" by simp
  ultimately show ?thesis
    using replay_restarts_ttl [OF demo_router_wf e, of 7 "\<lambda>i. 7" "Some (aof_lines [''LPUSH l a''])"
        "mk_aof_logger ''f'' []" "fst ?x" "fst (snd ?x)" "snd (snd ?x)" "''l''" e] by auto
qed

text \<open>
  The log is written in binary but read as text: once a value that begins with the character
  0x1A has been logged, that SET and everything logged after it are not replayed.
\<close>

theorem replay_truncated:
  assumes "\<forall>c \<in> set cs. command_wf c \<and> ctrl_z \<notin> set (serialize c)" and "is_token k"
    and "ctrl_z \<notin> set k"
  shows "replay env clock (Some (aof_lines (map serialize (cs @ SetCommand k (ctrl_z # v) ttl # ds)))) db =
    replay env clock (Some (aof_lines (map serialize cs))) db"
proof -
  let ?p = "aof_lines (map serialize cs)" and ?s = "''SET '' @ k @ '' ''"
  let ?log = "aof_lines (map serialize (cs @ SetCommand k (ctrl_z # v) ttl # ds))"
  have ns: "x \<noteq> carriage_return" "x \<noteq> newline" if "x \<in> set k" for x
    using assms(2) that by (auto simp: is_token_def is_space_def)
  have wf: "\<forall>c \<in> set cs. command_wf c" using assms(1) by blast
  have "takeWhile (\<lambda>c. c \<noteq> ctrl_z) ?log = ?p @ ?s"
    using assms(1,3) by (subst aof_lines_def, simp add: takeWhile_append)
      (auto simp: aof_lines_def takeWhile_append)
  moreover have "carriage_return \<notin> set (?p @ ?s)" using no_carriage_return [OF wf] ns by auto
  ultimately have log: "text_mode ?log = ?p @ ?s" unfolding text_mode_def by (metis crlf_to_lf_id)
  have nl: "\<forall>l \<in> set (map serialize cs). newline \<notin> set l" using wf command_codec.encode_line by auto
  have "getlines (?p @ ?s) = map serialize cs @ [?s]"
    unfolding aof_lines_def using ns by (intro getlines_concat_rest nl) auto
  moreover have "getlines ?p = map serialize cs" unfolding aof_lines_def by (rule getlines_concat [OF nl])
  moreover have "parse (tokenize ?s) = None"
  proof -
    have "tokenize ?s = [''SET'', k]"
      using tokenize_token [of "''SET''" "'' '' @ k @ '' ''"] tokenize_token [OF assms(2), of "'' ''"]
      by (simp add: is_token_def is_space_def)
    then show ?thesis by (simp add: parse_def)
  qed
  ultimately show ?thesis
    unfolding replay_def option.case log text_mode_log [OF assms(1)] by (simp add: replay_lines_unparsed)
qed

theorem replay_truncated_witness:
  "replay demo_env (\<lambda>i. 0) (Some (aof_lines (map serialize
       ([] @ SetCommand ''a'' (ctrl_z # []) 5 # [SetCommand ''b'' ''1'' 5])))) (demo_router, mk_aof_logger ''f'' [])
   = (0, demo_router, mk_aof_logger ''f'' [])"
proof (subst replay_truncated)
  show "\<forall>c \<in> set []. command_wf c \<and> ctrl_z \<notin> set (serialize c)" by simp
  show "is_token ''a''" "ctrl_z \<notin> set ''a''" by (simp_all add: is_token_def is_space_def)
  show "replay demo_env (\<lambda>i. 0) (Some (aof_lines (map serialize []))) (demo_router, mk_aof_logger ''f'' [])
      = (0, demo_router, mk_aof_logger ''f'' [])"
    by (simp add: replay_def text_mode_def set_replaying_def mk_aof_logger_def)
qed

end
