(* ===== verification/KV_History.thy ===== *)
theory KV_History
  imports KV_Server KV_Worker_Pool
begin

text \<open>
  The history of a run: the commands in the order in which the store saw them.  The router of a server
  is what its history makes of the router it started with, and a reply is what the command at
  its place in the history answers.
\<close>

section \<open>The history of executed commands\<close>

text \<open>The router after a run, without the log.\<close>

definition run_router :: "'u pmr_env \<Rightarrow> history \<Rightarrow> 'u shard_router \<Rightarrow> 'u shard_router" where
  "run_router env h r = fst (snd (run_commands env h (r, None)))"

lemma run_router_simps [simp]:
  "run_router env [] r = r"
  "run_router env ((now, c) # h) r = run_router env h (snd (snd (perform env now c r)))"
  by (simp_all add: run_router_def execute_def log_write_def split: prod.splits)

lemma run_router_snoc:
  "run_router env (h @ [(now, c)]) r = snd (snd (perform env now c (run_router env h r)))"
proof (induction h arbitrary: r)
  case (Cons x h)
  then show ?case by (cases x) simp
qed simp

lemma effective_snoc:
  "effective env (h @ [(now, c)]) r =
     effective env h r @ (if fst (snd (perform env now c (run_router env h r))) then [c] else [])"
proof (induction h arbitrary: r)
  case (Cons x h)
  then show ?case by (cases x) (simp split: prod.splits)
qed (simp split: prod.splits)

lemma run_router_wf: "router_wf env r \<Longrightarrow> router_wf env (run_router env h r)"
proof (induction h arbitrary: r)
  case (Cons x h)
  obtain now c where x: "x = (now, c)" by (cases x)
  obtain reply ok r1 where p: "perform env now c r = (reply, ok, r1)" by (metis surj_pair)
  from Cons.IH [OF perform_wf [OF Cons.prems p]] show ?case by (simp add: x p)
qed simp

lemma run_router_lasting:
  assumes "router_wf env r" and "lasting t0 w r" and "run_in_window t0 w h"
  shows "lasting t0 w (run_router env h r)"
  using assms
proof (induction h arbitrary: r)
  case (Cons x h)
  obtain now c where x: "x = (now, c)" by (cases x)
  obtain reply ok r1 where p: "perform env now c r = (reply, ok, r1)" by (metis surj_pair)
  from Cons.prems(3) have w: "in_window t0 w now" "0 < w" "command_lasting w c" "run_in_window t0 w h"
    by (auto simp: x run_in_window_Cons)
  from Cons.IH [OF perform_wf [OF Cons.prems(1) p] perform_lasting [OF Cons.prems(1,2) w(3,1,2) p] w(4)]
  show ?case by (simp add: x p)
qed simp

lemma run_router_content:
  assumes "router_wf env r" and "lasting t0 w r" and "run_in_window t0 w h"
  shows "router_content (run_router env h r) = fold apply_write (effective env h r) (router_content r) \<and>
    admissible_all (effective env h r) (router_content r)"
  using run_commands_content [OF assms, of None] unfolding run_router_def by (metis prod.collapse)

section \<open>Replies and the history\<close>

text \<open>
  The \<open>j\<close>-th command of the history was \<open>cmd\<close>, executed for the client \<open>c\<close> and answered by \<open>reply\<close>.
\<close>

definition served_at ::
  "'u pmr_env \<Rightarrow> 'u shard_router \<Rightarrow> 'u pool_system \<Rightarrow> socket \<Rightarrow> nat \<Rightarrow> command \<Rightarrow> string \<Rightarrow> bool" where
  "served_at env r0 b c j cmd reply \<longleftrightarrow>
     j < length (executed b) \<and> served b ! j = c \<and> snd (executed b ! j) = cmd \<and>
     reply = fst (perform env (fst (executed b ! j)) cmd (run_router env (take j (executed b)) r0))"

definition history_ok :: "'u pmr_env \<Rightarrow> 'u shard_router \<Rightarrow> 'u pool_system \<Rightarrow> bool" where
  "history_ok env r0 b \<longleftrightarrow>
     engine_router b = run_router env (executed b) r0 \<and> length (served b) = length (executed b)"

text \<open>A step of a worker leaves the history as it is or executes one command at its end.\<close>

definition extends_history :: "'u pool_system \<Rightarrow> 'u pool_system \<Rightarrow> bool" where
  "extends_history b b' \<longleftrightarrow> (\<exists>h cs. executed b' = executed b @ h \<and> served b' = served b @ cs)"

lemma served_at_mono:
  assumes "extends_history b b'" and "history_ok env r0 b" and "served_at env r0 b c j cmd reply"
  shows "served_at env r0 b' c j cmd reply"
  using assms by (auto simp: extends_history_def history_ok_def served_at_def nth_append)

lemma worker_step_history_ok:
  assumes "worker_step env b b'" and "history_ok env r0 b"
  shows "history_ok env r0 b' \<and> extends_history b b'"
  using assms by (induction rule: worker_step.induct) (simp_all add: history_ok_def run_router_snoc extends_history_def)

lemma served_at_last:
  assumes "history_ok env r0 b" and "executed b' = executed b @ [(now, cmd)]" and "served b' = served b @ [c]"
    and "perform env now cmd (engine_router b) = (reply, ok, r)"
  shows "served_at env r0 b' c (length (executed b)) cmd reply"
  using assms by (simp add: served_at_def history_ok_def nth_append)

end
