(* ===== verification/KV_System.thy ===== *)
theory KV_System
  imports KV_Reactor KV_History "HOL-Library.Sublist"
begin

text \<open>
  The server as a whole: the reactor with its pipeline on one side, the worker threads with the engine
  on the other, and the two queues between them, as one step relation.  Ghost fields record what
  each connection has received, which requests were issued for it and what has been sent on it.
  The main theorem is the contract a client sees: the bytes sent on a connection are the replies to
  its requests, in order, and the requests of all clients take effect one after the other, each at a
  point between its arrival and its reply.
\<close>

declare map_of_eq_Some_iff [simp del]

section \<open>What a request is waiting for\<close>

text \<open>A request that has been issued is still to be executed, or has its reply.\<close>

datatype progress = ToDo command | Done string

type_synonym item = "socket \<times> uint64_t \<times> progress"

definition task_item :: "task \<Rightarrow> item" where
  "task_item t = (task_client t, task_seq t, ToDo (task_command t))"

definition result_item :: "task_result \<Rightarrow> item" where
  "result_item x = (result_client x, result_seq x, Done (response x))"

fun worker_items :: "worker_pc \<Rightarrow> item list" where
  "worker_items (Working t) = [task_item t]"
| "worker_items (Logging t reply) = [(task_client t, task_seq t, Done reply)]"
| "worker_items (Posting t reply) = [(task_client t, task_seq t, Done reply)]"
| "worker_items _ = []"

definition pool_items :: "worker_pool \<Rightarrow> item multiset" where
  "pool_items p = mset (map task_item (pool_queue p)) + mset (map result_item (completions p))"

definition pending :: "'u pool_system \<Rightarrow> item multiset" where
  "pending b = pool_items (wpool b) + held_items worker_items (workers b)"

lemma result_item_simps [simp]:
  "fst (result_item x) = result_client x" "snd (result_item x) = (result_seq x, Done (response x))"
  by (simp_all add: result_item_def)

text \<open>The items of one client, without the client.\<close>

definition items_of :: "socket \<Rightarrow> item multiset \<Rightarrow> (uint64_t \<times> progress) multiset" where
  "items_of c P = image_mset snd (filter_mset (\<lambda>x. fst x = c) P)"

lemma items_of_simps [simp]:
  "items_of c {#} = {#}" "items_of c (P + Q) = items_of c P + items_of c Q"
  "items_of c (add_mset x P) = (if fst x = c then add_mset (snd x) (items_of c P) else items_of c P)"
  by (simp_all add: items_of_def)

text \<open>
  A request line comes with the length of the history at the time it was issued.  Its reply comes from the
  reactor, or it is the reply at a later place of the history; \<open>H\<close> tells which places there are.
\<close>

type_synonym issued_line = "string \<times> nat"

fun justified :: "(nat \<Rightarrow> command \<Rightarrow> string \<Rightarrow> bool) \<Rightarrow> issued_line \<Rightarrow> string \<Rightarrow> nat option \<Rightarrow> bool" where
  "justified H (line, n) reply None \<longleftrightarrow>
     reply = (case parse_line line of None \<Rightarrow> if tokenize line = [] then err_empty else err_unknown | Some _ \<Rightarrow> err_busy)"
| "justified H (line, n) reply (Some j) \<longleftrightarrow> (\<exists>cmd. parse_line line = Some cmd \<and> n \<le> j \<and> H j cmd reply)"

fun fits :: "(nat \<Rightarrow> command \<Rightarrow> string \<Rightarrow> bool) \<Rightarrow> issued_line \<Rightarrow> progress \<Rightarrow> nat option \<Rightarrow> bool" where
  "fits H ln (ToDo cmd) p \<longleftrightarrow> parse_line (fst ln) = Some cmd \<and> p = None"
| "fits H ln (Done reply) p \<longleftrightarrow> justified H ln reply p"

lemma justified_mono: "justified H ln reply p \<Longrightarrow> H \<le> H' \<Longrightarrow> justified H' ln reply p"
  by (induction H ln reply p rule: justified.induct) (auto simp: le_fun_def)

lemma fits_mono: "fits H ln x p \<Longrightarrow> H \<le> H' \<Longrightarrow> fits H' ln x p"
  by (cases x) (auto intro: justified_mono)

text \<open>No two requests have the same place.\<close>

definition distinct_places :: "'a list \<Rightarrow> (nat \<Rightarrow> nat option) \<Rightarrow> bool" where
  "distinct_places xs pos \<longleftrightarrow> inj_on pos {i. i < length xs \<and> pos i \<noteq> None}"

lemma justified_place: "justified H ln reply (Some j) \<Longrightarrow> \<exists>cmd. H j cmd reply"
  by (cases ln) auto

lemma process_items:
  "\<exists>x. fits H (line, n) x None \<and> pool_items (process c line seq ip p) = add_mset (c, seq, x) (pool_items p)"
  unfolding process_cases
  by (auto simp: pool_items_def task_item_def result_item_def split: option.splits intro!: exI [of _ "ToDo _"])

text \<open>
  A step of a worker leaves all items as they are or turns one command into a reply of which \<open>R\<close> holds.
\<close>

definition item_step :: "(socket \<Rightarrow> command \<Rightarrow> string \<Rightarrow> bool) \<Rightarrow> item multiset \<Rightarrow> item multiset \<Rightarrow> bool" where
  "item_step R P P' \<longleftrightarrow>
     P' = P \<or> (\<exists>Q c n cmd reply. P = add_mset (c, n, ToDo cmd) Q \<and> P' = add_mset (c, n, Done reply) Q \<and> R c cmd reply)"

lemma item_step_exec:
  assumes "i < length ws" and "ws ! i = Working t" and "R (task_client t) (task_command t) reply"
    and "worker_items x = [(task_client t, task_seq t, Done reply)]"
  shows "item_step R (P + held_items worker_items ws) (P + held_items worker_items (ws[i := x]))"
proof -
  let ?todo = "(task_client t, task_seq t, ToDo (task_command t))" and ?done = "(task_client t, task_seq t, Done reply)"
  have h: "add_mset ?todo (held_items worker_items (ws[i := x])) = add_mset ?done (held_items worker_items ws)"
    using held_update [OF assms(1), of worker_items x] assms(2,4) by (simp add: task_item_def)
  then have "?todo \<in># held_items worker_items ws"
    by (metis (no_types, lifting) insert_noteq_member prod.inject progress.distinct(1))
  then obtain Q where Q: "held_items worker_items ws = add_mset ?todo Q" by (metis multi_member_split)
  with h have "held_items worker_items (ws[i := x]) = add_mset ?done Q" by simp
  with Q assms(3) show ?thesis unfolding item_step_def by (metis union_mset_add_mset_right)
qed

definition engine_ok :: "'u pmr_env \<Rightarrow> 'u shard_router \<Rightarrow> 'u pool_system \<Rightarrow> bool" where
  "engine_ok env r0 b \<longleftrightarrow> router_wf env (engine_router b) \<and> history_ok env r0 b"

lemma worker_step_router_wf: "worker_step env b b' \<Longrightarrow> router_wf env (engine_router b) \<Longrightarrow> router_wf env (engine_router b')"
  by (induction rule: worker_step.induct) (auto intro: perform_wf)

lemma worker_step_engine_ok: "worker_step env b b' \<Longrightarrow> engine_ok env r0 b \<Longrightarrow> engine_ok env r0 b'"
  unfolding engine_ok_def using worker_step_history_ok worker_step_router_wf by blast

lemma worker_step_items:
  assumes "worker_step env b b'" and "history_ok env r0 b"
  shows "item_step (\<lambda>c. served_at env r0 b' c (length (executed b))) (pending b) (pending b')"
  using assms
proof (induction rule: worker_step.induct)
  case (take i b t q)
  have "held_items worker_items ((workers b)[i := Working t]) = add_mset (task_item t) (held_items worker_items (workers b))"
    using held_update [OF take.hyps(1), of worker_items "Working t"] take.hyps by simp
  with take show ?case by (simp add: pending_def pool_items_def item_step_def)
next
  case (quit i b)
  then show ?case by (simp add: pending_def held_same item_step_def)
next
  case (exec i b t now reply ok r)
  let ?b = "(set_worker i (if ok then Logging t reply else Posting t reply) b)\<lparr>engine_router := r,
    executed := executed b @ [(now, task_command t)], served := served b @ [task_client t],
    applied := (if ok then applied b @ [task_command t] else applied b)\<rparr>"
  have "served_at env r0 ?b (task_client t) (length (executed b)) (task_command t) reply"
    using served_at_last [OF exec.prems _ _ exec.hyps(4)] by simp
  from item_step_exec [where R = "\<lambda>c. served_at env r0 ?b c (length (executed b))", OF exec.hyps(1,2) this] show ?case by (simp add: pending_def)
next
  case (exec_locked i b t now reply ok r)
  let ?b = "(set_worker i (Posting t reply) b)\<lparr>engine_router := r,
    executed := executed b @ [(now, task_command t)], served := served b @ [task_client t],
    engine_aof := (if ok then log_write (task_command t) (engine_aof b) else engine_aof b),
    applied := (if ok then applied b @ [task_command t] else applied b),
    logged := (if ok then logged b @ [task_command t] else logged b)\<rparr>"
  have "served_at env r0 ?b (task_client t) (length (executed b)) (task_command t) reply"
    using served_at_last [OF exec_locked.prems _ _ exec_locked.hyps(4)] by simp
  from item_step_exec [where R = "\<lambda>c. served_at env r0 ?b c (length (executed b))", OF exec_locked.hyps(1,2) this] show ?case by (simp add: pending_def)
next
  case (log i b t reply)
  then show ?case by (simp add: pending_def held_same item_step_def)
next
  case (post i b t reply)
  have "add_mset (task_client t, task_seq t, Done reply) (held_items worker_items ((workers b)[i := Idle]))
      = held_items worker_items (workers b)"
    using held_update [OF post.hyps(1), of worker_items Idle] post.hyps by simp
  then have "pending ((set_worker i Idle b)\<lparr>wpool := post_result (task_client t) (task_seq t) reply (wpool b)\<rparr>) = pending b"
    by (simp add: pending_def pool_items_def result_item_def flip: union_mset_add_mset_right)
  then show ?case by (simp add: item_step_def)
qed

section \<open>One connection\<close>

text \<open>
  A connection for which \<open>lines\<close> have been issued and \<open>sent\<close> has been sent, with the items \<open>M\<close> in the
  pool: the first \<open>length rs\<close> requests have their replies \<open>rs\<close> in the output, in order; each of
  the others has exactly one item, in the pool or in the reorder buffer.  No two requests have the same
  place in the history.
\<close>

definition order_ok ::
  "(nat \<Rightarrow> command \<Rightarrow> string \<Rightarrow> bool) \<Rightarrow> issued_line list \<Rightarrow> string \<Rightarrow> (uint64_t \<times> progress) multiset \<Rightarrow>
   connection_state \<Rightarrow> string list \<Rightarrow> (nat \<Rightarrow> progress) \<Rightarrow> (nat \<Rightarrow> nat option) \<Rightarrow> bool" where
  "order_ok H lines sent M st rs prog pos \<longleftrightarrow>
     (\<forall>i < length rs. justified H (lines ! i) (rs ! i) (pos i)) \<and>
     sent @ write_buffer st = concat rs \<and>
     next_seq_issue st = word_of_nat (length lines) \<and> next_seq_expected st = word_of_nat (length rs) \<and>
     length lines = length rs + unat (in_flight_requests st) \<and> unat (in_flight_requests st) \<le> 256 \<and>
     (\<forall>i \<in> {length rs..<length lines}. fits H (lines ! i) (prog i) (pos i)) \<and>
     distinct_places lines pos \<and>
     M + mset (map (\<lambda>(k, v). (k, Done v)) (out_of_order_buf st)) =
       image_mset (\<lambda>i. (word_of_nat i, prog i)) (mset_set {length rs..<length lines})"

definition in_order ::
  "(nat \<Rightarrow> command \<Rightarrow> string \<Rightarrow> bool) \<Rightarrow> issued_line list \<Rightarrow> string \<Rightarrow> (uint64_t \<times> progress) multiset \<Rightarrow>
   connection_state \<Rightarrow> bool" where
  "in_order H lines sent M st \<longleftrightarrow> (\<exists>rs prog pos. order_ok H lines sent M st rs prog pos)"

lemma order_ok_justified:
  "order_ok H lines sent M st rs prog pos \<Longrightarrow> i < length rs \<Longrightarrow> justified H (lines ! i) (rs ! i) (pos i)"
  by (simp only: order_ok_def)

lemma order_ok_fits:
  "order_ok H lines sent M st rs prog pos \<Longrightarrow> length rs \<le> i \<Longrightarrow> i < length lines \<Longrightarrow> fits H (lines ! i) (prog i) (pos i)"
  by (simp add: order_ok_def)

lemma order_ok_mono: "order_ok H lines sent M st rs prog pos \<Longrightarrow> H \<le> H' \<Longrightarrow> order_ok H' lines sent M st rs prog pos"
  using order_ok_justified order_ok_fits justified_mono fits_mono unfolding order_ok_def by (metis atLeastLessThan_iff)

lemma order_ok_place:
  assumes "order_ok H lines sent M st rs prog pos" and "i < length lines" and "pos i = Some j"
  shows "\<exists>cmd reply. H j cmd reply"
proof (cases "i < length rs")
  case True
  from order_ok_justified [OF assms(1) this] assms(3) justified_place [of H "lines ! i" "rs ! i" j] show ?thesis by auto
next
  case False
  then have "fits H (lines ! i) (prog i) (Some j)" using order_ok_fits [OF assms(1) _ assms(2)] assms(3) by simp
  then show ?thesis using justified_place by (cases "prog i") (simp, metis fits.simps(2))
qed

lemma window_inj:
  assumes "e \<le> i" and "i < e + 2 ^ 64" and "e \<le> j" and "j < e + 2 ^ 64"
  shows "(word_of_nat i :: 64 word) = word_of_nat j \<longleftrightarrow> i = j"
proof
  assume "(word_of_nat i :: 64 word) = word_of_nat j"
  then have "(word_of_nat e + word_of_nat (i - e) :: 64 word) = word_of_nat e + word_of_nat (j - e)"
    using assms by (simp flip: of_nat_add)
  then have "(word_of_nat (i - e) :: 64 word) = word_of_nat (j - e)" by simp
  then have "i - e = j - e" using word_of_nat_64_inj [of "i - e" "j - e"] assms by simp
  with assms show "i = j" by simp
qed simp

lemma order_ok_window:
  assumes "order_ok H lines sent M st rs prog pos" and "i \<in> {length rs..<length lines}" and "j \<in> {length rs..<length lines}"
  shows "(word_of_nat i :: 64 word) = word_of_nat j \<longleftrightarrow> i = j"
  using assms by (intro window_inj [of "length rs"]) (auto simp: order_ok_def)

text \<open>The numbers of the outstanding requests are distinct, in the pool and in the reorder buffer.\<close>

lemma order_ok_distinct:
  assumes "order_ok H lines sent M st rs prog pos"
  shows "distinct_keys (out_of_order_buf st)"
    and "add_mset (seq, x) N \<subseteq># M \<Longrightarrow> seq \<notin> fst ` set (out_of_order_buf st)"
proof -
  let ?buf = "out_of_order_buf st" and ?W = "{length rs..<length lines}"
  let ?f = "word_of_nat :: nat \<Rightarrow> 64 word"
  have "inj_on ?f ?W" unfolding inj_on_def using order_ok_window [OF assms] by blast
  then have "image_mset ?f (mset_set ?W) = mset_set (?f ` ?W)" by (rule image_mset_mset_set)
  moreover have "image_mset fst (M + mset (map (\<lambda>(k, v). (k, Done v)) ?buf)) = image_mset ?f (mset_set ?W)"
    using assms by (simp only: order_ok_def) (simp add: multiset.map_comp comp_def)
  then have "image_mset fst M + mset (map fst ?buf) = image_mset ?f (mset_set ?W)"
    by (simp add: multiset.map_comp comp_def case_prod_beta)
  ultimately have eq: "image_mset fst M + mset (map fst ?buf) = mset_set (?f ` ?W)" by simp
  have d: "count (image_mset fst M) k + count (mset (map fst ?buf)) k \<le> 1" for k
  proof -
    have "count (image_mset fst M) k + count (mset (map fst ?buf)) k = count (mset_set (?f ` ?W)) k"
      unfolding eq [symmetric] by simp
    then show ?thesis by (cases "k \<in> ?f ` ?W") auto
  qed
  have "count (mset (map fst ?buf)) k = 1" if "k \<in> set (map fst ?buf)" for k
    using d [of k] that by (metis One_nat_def add_leD2 count_mset_0_iff le_antisym less_one not_le not_less_eq_eq)
  then show "distinct_keys ?buf" unfolding distinct_count_atmost_1 by (metis count_mset_0_iff)
  assume "add_mset (seq, x) N \<subseteq># M"
  then have "seq \<in># image_mset fst M" by (metis fst_conv image_eqI insert_subset_eq_iff set_image_mset)
  then have "0 < count (image_mset fst M) seq" by (simp only: count_greater_zero_iff)
  with d [of seq] have "count (mset (map fst ?buf)) seq = 0" by linarith
  then show "seq \<notin> fst ` set ?buf" by (metis count_mset_0_iff list.set_map)
qed

text \<open>Issuing one more request.\<close>

lemma order_ok_issue:
  assumes "order_ok H lines sent M st rs prog pos" and "unat (in_flight_requests st) < 256" and "fits H ln x None"
  shows "order_ok H (lines @ [ln]) sent (add_mset (next_seq_issue st, x) M)
    (st\<lparr>next_seq_issue := next_seq_issue st + 1, in_flight_requests := in_flight_requests st + 1\<rparr>)
    rs (prog(length lines := x)) (pos(length lines := None))"
proof -
  let ?n = "length lines"
  have u: "unat (in_flight_requests st + 1) = unat (in_flight_requests st) + 1"
    using assms(2) by (intro unat_Suc_64) simp
  have "length rs \<le> ?n" using assms(1) by (simp add: order_ok_def)
  then have "mset_set {length rs..<Suc ?n} = add_mset ?n (mset_set {length rs..<?n})"
    by (simp add: atLeastLessThanSuc)
  moreover have "image_mset (\<lambda>i. (word_of_nat i :: 64 word, (prog(?n := x)) i)) (mset_set {length rs..<?n})
      = image_mset (\<lambda>i. (word_of_nat i, prog i)) (mset_set {length rs..<?n})"
    by (intro image_mset_cong) auto
  moreover have "distinct_places (lines @ [ln]) (pos(?n := None))"
    using assms(1) unfolding order_ok_def distinct_places_def inj_on_def by (auto simp: less_Suc_eq)
  ultimately show ?thesis using assms u by (auto simp: order_ok_def nth_append)
qed

text \<open>Executing one at the end of the history: the item in the pool changes from the command to its reply.\<close>

lemma order_ok_exec:
  assumes "order_ok H lines sent (add_mset (n, ToDo c) M) st rs prog pos"
    and "H \<le> H'" and "H' k c reply"
    and "\<And>cmd reply. \<not> H k cmd reply" and "\<forall>ln \<in> set lines. snd ln \<le> k"
  shows "\<exists>prog pos. order_ok H' lines sent (add_mset (n, Done reply) M) st rs prog pos"
proof -
  let ?W = "{length rs..<length lines}" and ?buf = "mset (map (\<lambda>(k, v). (k, Done v)) (out_of_order_buf st))"
  let ?g = "\<lambda>prog i. (word_of_nat i :: 64 word, prog i)"
  note ok = order_ok_mono [OF assms(1,2)]
  have eq: "add_mset (n, ToDo c) M + ?buf = image_mset (?g prog) (mset_set ?W)"
    using ok by (simp only: order_ok_def)
  have "(n, ToDo c) \<in># add_mset (n, ToDo c) M + ?buf" by simp
  then have "(n, ToDo c) \<in># image_mset (?g prog) (mset_set ?W)" unfolding eq .
  then obtain i where i: "i \<in> ?W" "n = word_of_nat i" "prog i = ToDo c" by auto
  then have W: "mset_set ?W = add_mset i (mset_set (?W - {i}))"
    by (simp add: mset_set.remove)
  have "image_mset (?g (prog(i := Done reply))) (mset_set (?W - {i})) = image_mset (?g prog) (mset_set (?W - {i}))"
    by (intro image_mset_cong) auto
  with eq i have "add_mset (n, Done reply) M + ?buf = image_mset (?g (prog(i := Done reply))) (mset_set ?W)"
    by (simp add: W)
  moreover
  have f: "fits H' (lines ! i) (prog i) (pos i)" using ok i(1) by (simp only: order_ok_def)
  moreover have "snd (lines ! i) \<le> k" using assms(5) i(1) by simp
  with f i(3) assms(3) have "fits H' (lines ! i) (Done reply) (Some k)" by (cases "lines ! i") auto
  moreover have "pos l \<noteq> Some k" if "l < length lines" for l
    using order_ok_place [OF assms(1) that] assms(4) by blast
  then have "distinct_places lines (pos(i := Some k))"
    using ok unfolding order_ok_def distinct_places_def inj_on_def by (metis (mono_tags, lifting) fun_upd_apply mem_Collect_eq)
  moreover have "i \<ge> length rs" using i(1) by simp
  ultimately have "order_ok H' lines sent (add_mset (n, Done reply) M) st rs (prog(i := Done reply)) (pos(i := Some k))"
    using ok by (simp add: order_ok_def)
  then show ?thesis by blast
qed

text \<open>Writing the next reply: the inner loop of the drain.\<close>

lemma mset_delete:
  assumes "distinct_keys m" and "map_of m k = Some v"
  shows "mset m = add_mset (k, v) (mset (AList.delete k m))"
  using assms
proof (induction m)
  case (Cons x m)
  show ?case
  proof (cases "fst x = k")
    case True
    with Cons.prems(1) have "k \<notin> fst ` set m" by auto
    then have "AList.delete k m = m" by (induction m) (auto simp: AList.delete_eq)
    with True Cons.prems show ?thesis by (cases x) (auto simp: AList.delete_eq)
  next
    case False
    with Cons show ?thesis by (cases x) (simp add: AList.delete_eq)
  qed
qed simp

lemma order_ok_next:
  assumes "order_ok H lines sent M st rs prog pos" and "map_of (out_of_order_buf st) (next_seq_expected st) = Some reply"
  shows "in_flight_requests st > 0" and "order_ok H lines sent M
    (st\<lparr>write_buffer := write_buffer st @ reply,
       out_of_order_buf := AList.delete (next_seq_expected st) (out_of_order_buf st),
       next_seq_expected := next_seq_expected st + 1,
       in_flight_requests := in_flight_requests st - 1, write_pending := True\<rparr>) (rs @ [reply]) prog pos"
proof -
  let ?e = "length rs" and ?n = "length lines"
  let ?g = "\<lambda>i. (word_of_nat i :: 64 word, prog i)" and ?d = "\<lambda>(k, v). (k :: 64 word, Done v)"
  let ?rest = "AList.delete (next_seq_expected st) (out_of_order_buf st)"
  have e: "next_seq_expected st = word_of_nat ?e" using assms(1) by (simp only: order_ok_def)
  have buf: "mset (out_of_order_buf st) = add_mset (word_of_nat ?e, reply) (mset ?rest)"
    using mset_delete [OF order_ok_distinct(1) [OF assms(1)] assms(2)] by (simp only: e)
  have eq: "M + mset (map ?d (out_of_order_buf st)) = image_mset ?g (mset_set {?e..<?n})"
    using assms(1) by (simp only: order_ok_def)
  then have eq': "add_mset (word_of_nat ?e, Done reply) (M + mset (map ?d ?rest)) = image_mset ?g (mset_set {?e..<?n})"
    by (simp add: buf)
  have "(word_of_nat ?e, Done reply) \<in># image_mset ?g (mset_set {?e..<?n})" unfolding eq' [symmetric] by simp
  then obtain i where i: "i \<in> {?e..<?n}" "(word_of_nat ?e :: 64 word) = word_of_nat i" "prog i = Done reply" by auto
  then have "?e \<in> {?e..<?n}" by simp
  from order_ok_window [OF assms(1) this i(1)] i(2) have [simp]: "i = ?e" by simp
  have len: "?n = ?e + unat (in_flight_requests st)" using assms(1) by (simp only: order_ok_def)
  with i(1) have nz: "in_flight_requests st \<noteq> 0" by auto
  then show "in_flight_requests st > 0" by (simp add: word_gt_0)
  have u: "unat (in_flight_requests st - 1) = unat (in_flight_requests st) - 1" by (rule unat_pred_64 [OF nz])
  have "{?e..<?n} = insert ?e {Suc ?e..<?n}" using i(1) by auto
  then have "mset_set {?e..<?n} = add_mset ?e (mset_set {Suc ?e..<?n})" by simp
  with eq' i(3) have "M + mset (map ?d ?rest) = image_mset ?g (mset_set {Suc ?e..<?n})" by simp
  moreover have "fits H (lines ! ?e) (prog ?e) (pos ?e)" using assms(1) i(1) by (simp add: order_ok_def)
  then have "justified H (lines ! ?e) reply (pos ?e)" using i(3) by simp
  ultimately show "order_ok H lines sent M
    (st\<lparr>write_buffer := write_buffer st @ reply, out_of_order_buf := ?rest,
       next_seq_expected := next_seq_expected st + 1,
       in_flight_requests := in_flight_requests st - 1, write_pending := True\<rparr>) (rs @ [reply]) prog pos"
    using assms(1) u len i(1)
    by (auto simp: order_ok_def nth_append less_Suc_eq)
qed

definition flushed :: "connection_state \<Rightarrow> bool" where
  "flushed st \<longleftrightarrow> map_of (out_of_order_buf st) (next_seq_expected st) = None"

lemma in_order_flush:
  "in_order H lines sent M st \<Longrightarrow> in_order H lines sent M (flush_contiguous st) \<and> flushed (flush_contiguous st)"
proof (induction st rule: flush_contiguous.induct)
  case (1 st)
  show ?case
  proof (cases "map_of (out_of_order_buf st) (next_seq_expected st)")
    case None
    then have "flush_contiguous st = st" by (subst flush_contiguous.simps) simp
    with None "1.prems" show ?thesis by (simp add: flushed_def)
  next
    case (Some reply)
    from "1.prems" obtain rs prog pos where ok: "order_ok H lines sent M st rs prog pos" by (auto simp: in_order_def)
    let ?st = "st\<lparr>write_buffer := write_buffer st @ reply,
       out_of_order_buf := AList.delete (next_seq_expected st) (out_of_order_buf st),
       next_seq_expected := next_seq_expected st + 1,
       in_flight_requests := in_flight_requests st - 1, write_pending := True\<rparr>"
    have pos: "in_flight_requests st > 0" and ok': "in_order H lines sent M ?st"
      using order_ok_next [OF ok Some] unfolding in_order_def by blast+
    have "flush_contiguous st = flush_contiguous ?st" using Some pos by (subst flush_contiguous.simps) simp
    with "1.IH" [OF Some] ok' pos show ?thesis by simp
  qed
qed

text \<open>With nothing left in the pool and nothing to flush, everything has been answered.\<close>

lemma order_ok_drained:
  assumes "order_ok H lines sent M st rs prog pos" and "flushed st" and "M = {#}"
  shows "length rs = length lines"
proof (rule ccontr)
  let ?e = "length rs" and ?W = "{length rs..<length lines}"
  assume "?e \<noteq> length lines"
  then have "?e \<in> ?W" using assms(1) by (auto simp: order_ok_def)
  then have "(word_of_nat ?e, prog ?e) \<in># image_mset (\<lambda>i. (word_of_nat i :: 64 word, prog i)) (mset_set ?W)" by auto
  moreover have "mset (map (\<lambda>(k, v). (k, Done v)) (out_of_order_buf st))
      = image_mset (\<lambda>i. (word_of_nat i :: 64 word, prog i)) (mset_set ?W)"
    using assms(1,3) by (simp only: order_ok_def empty_neutral)
  ultimately have "(word_of_nat ?e, prog ?e) \<in># mset (map (\<lambda>(k, v). (k, Done v)) (out_of_order_buf st))" by metis
  then have "word_of_nat ?e \<in> fst ` set (out_of_order_buf st)" by force
  moreover have "map_of (out_of_order_buf st) (word_of_nat ?e) = None"
    using assms(1,2) by (simp add: order_ok_def flushed_def)
  ultimately show False by (simp add: map_of_eq_None_iff)
qed

lemma in_order_absorb:
  assumes "in_order H lines sent (add_mset (seq, Done reply) M) st"
  shows "in_order H lines sent M (absorb seq reply st) \<and> flushed (absorb seq reply st)"
proof -
  from assms obtain rs prog pos where ok: "order_ok H lines sent (add_mset (seq, Done reply) M) st rs prog pos"
    by (auto simp: in_order_def)
  have "AList.update k v m = m @ [(k, v)]" if "k \<notin> fst ` set m" for k :: uint64_t and v :: string and m
    using that by (induction m) auto
  moreover have "seq \<notin> fst ` set (out_of_order_buf st)"
    using order_ok_distinct(2) [OF ok, of seq "Done reply" M] by simp
  ultimately have "AList.update seq reply (out_of_order_buf st) = out_of_order_buf st @ [(seq, reply)]" by simp
  with ok have "order_ok H lines sent M (st\<lparr>out_of_order_buf := AList.update seq reply (out_of_order_buf st)\<rparr>) rs prog pos"
    by (simp add: order_ok_def)
  then show ?thesis unfolding absorb_def by (intro in_order_flush) (auto simp: in_order_def)
qed

lemma in_order_issue_all:
  assumes "in_order H lines sent (items_of c (pool_items p) + N) st"
    and "reqs = [] \<or> unat (in_flight_requests st) + length reqs \<le> 256"
  shows "in_order H (lines @ map (\<lambda>l. (l, k)) reqs) sent
    (items_of c (pool_items (process_all c ip (next_seq_issue st) reqs p)) + N)
    (st\<lparr>next_seq_issue := next_seq_issue st + word_of_nat (length reqs),
       in_flight_requests := in_flight_requests st + word_of_nat (length reqs)\<rparr>)"
  using assms
proof (induction reqs arbitrary: lines st p)
  case (Cons l reqs)
  let ?seq = "next_seq_issue st" and ?d = "in_flight_requests st"
  let ?st = "st\<lparr>next_seq_issue := ?seq + 1, in_flight_requests := ?d + 1\<rparr>" and ?p = "process c l ?seq ip p"
  from Cons.prems(1) obtain rs prog pos where ok: "order_ok H lines sent (items_of c (pool_items p) + N) st rs prog pos"
    by (auto simp: in_order_def)
  have lt: "unat ?d < 256" using Cons.prems(2) by simp
  obtain x where "fits H (l, k) x None" "pool_items ?p = add_mset (c, ?seq, x) (pool_items p)"
    using process_items by blast
  with order_ok_issue [OF ok lt, of "(l, k)"] have "in_order H (lines @ [(l, k)]) sent (items_of c (pool_items ?p) + N) ?st"
    by (auto simp: in_order_def)
  moreover have "unat (?d + 1) = unat ?d + 1" using lt by (intro unat_Suc_64) simp
  ultimately have "in_order H ((lines @ [(l, k)]) @ map (\<lambda>l. (l, k)) reqs) sent
    (items_of c (pool_items (process_all c ip (next_seq_issue ?st) reqs ?p)) + N)
    (?st\<lparr>next_seq_issue := next_seq_issue ?st + word_of_nat (length reqs),
       in_flight_requests := in_flight_requests ?st + word_of_nat (length reqs)\<rparr>)"
    using Cons.prems(2) by (intro Cons.IH) auto
  then show ?case by (simp add: ac_simps)
qed simp

lemma process_all_other:
  "c' \<noteq> c \<Longrightarrow> items_of c' (pool_items (process_all c ip seq reqs p)) = items_of c' (pool_items p)"
proof (induction reqs arbitrary: seq p)
  case (Cons l reqs)
  obtain x where "pool_items (process c l seq ip p) = add_mset (c, seq, x) (pool_items p)"
    using process_items by blast
  with Cons show ?case by simp
qed simp

lemma in_order_mono:
  "in_order H lines sent M st \<Longrightarrow> H \<le> H' \<Longrightarrow> in_order H' lines sent M st"
  unfolding in_order_def using order_ok_mono by meson

lemma in_order_delivered:
  assumes "in_order H lines sent (items_of c (mset (map result_item xs)) + M) st" and "flushed st"
  shows "in_order H lines sent M (fold (\<lambda>x. absorb (result_seq x) (response x)) (filter (\<lambda>x. result_client x = c) xs) st) \<and>
    flushed (fold (\<lambda>x. absorb (result_seq x) (response x)) (filter (\<lambda>x. result_client x = c) xs) st)"
  using assms
proof (induction xs arbitrary: st)
  case (Cons x xs)
  show ?case
  proof (cases "result_client x = c")
    case True
    with Cons.prems(1) have "in_order H lines sent
        (add_mset (result_seq x, Done (response x)) (items_of c (mset (map result_item xs)) + M)) st"
      by simp
    from in_order_absorb [OF this] Cons.IH True show ?thesis by simp
  qed (use Cons in simp)
qed simp

text \<open>A connection does not see what the workers do, except that its commands turn into replies.\<close>

lemma in_order_item_step:
  assumes "item_step R P P'" and "in_order H lines sent (items_of c P) st"
    and "H \<le> H'" and "\<And>cmd reply. R c cmd reply \<Longrightarrow> H' k cmd reply"
    and "\<And>cmd reply. \<not> H k cmd reply" and "\<forall>ln \<in> set lines. snd ln \<le> k"
  shows "in_order H' lines sent (items_of c P') st"
proof (cases "P' = P")
  case False
  with assms(1) obtain Q c' n cmd reply where P: "P = add_mset (c', n, ToDo cmd) Q" "P' = add_mset (c', n, Done reply) Q"
    and r: "R c' cmd reply" by (auto simp: item_step_def)
  show ?thesis
  proof (cases "c' = c")
    case True
    with P assms(2) obtain rs prog pos where "order_ok H lines sent (add_mset (n, ToDo cmd) (items_of c Q)) st rs prog pos"
      by (auto simp: in_order_def)
    from order_ok_exec [OF this assms(3) _ assms(5,6), of reply] assms(4) r True P show ?thesis
      unfolding in_order_def by auto
  next
    case False
    with P in_order_mono [OF assms(2,3)] show ?thesis by simp
  qed
qed (use in_order_mono [OF assms(2,3)] in simp)

section \<open>The server\<close>

record 'u server =
  front_end :: reactor
  back_end :: "'u pool_system"
  received_bytes :: "socket \<Rightarrow> string"
  requested :: "socket \<Rightarrow> issued_line list"
  wire :: "socket \<Rightarrow> string"
  reactor_joined :: bool
  log_flusher :: flusher_pc
  log_shutter :: shutdown_pc
  clean :: "socket \<Rightarrow> bool"

text \<open>The lines of a text that are complete.\<close>

fun complete_lines_from :: "string \<Rightarrow> string \<Rightarrow> string list" where
  "complete_lines_from line [] = []"
| "complete_lines_from line (c # s) =
     (if c = newline then line # complete_lines_from [] s else complete_lines_from (line @ [c]) s)"

definition complete_lines :: "string \<Rightarrow> string list" where
  "complete_lines s = complete_lines_from [] s"

text \<open>The requests a call of \<^verbatim>\<open>handle_read\<close> issued: as many as sequence numbers were given out.\<close>

definition issued :: "connection_state \<Rightarrow> string option \<Rightarrow> connection_state option \<Rightarrow> string list" where
  "issued st received st1 =
     (case (received, st1) of
        (Some bytes, Some st') \<Rightarrow>
          take (unat (next_seq_issue st' - next_seq_issue st)) (request_lines (complete_lines (read_buffer st @ bytes)))
      | _ \<Rightarrow> [])"

definition set_pool :: "worker_pool \<Rightarrow> 'u pool_system \<Rightarrow> 'u pool_system" where
  "set_pool p b = b\<lparr>wpool := p\<rparr>"

text \<open>The logger with its threads; the commands it has accepted are those the workers have logged.\<close>

definition aof_view :: "'u server \<Rightarrow> aof_logger \<Rightarrow> aof_system" where
  "aof_view s l = \<lparr>logger = l, flusher = log_flusher s, shutter = log_shutter s,
     accepted = map serialize (logged (back_end s))\<rparr>"

definition set_logger :: "aof_logger \<Rightarrow> 'u pool_system \<Rightarrow> 'u pool_system" where
  "set_logger l b = b\<lparr>engine_aof := Some l\<rparr>"

text \<open>
  The reactor's thread runs its handlers until it has been stopped and has closed its connections;
  then it is joined, the pool is told to stop, and when its workers have been joined the logger is
  shut down.  A step of the reactor is one of its handlers, so the relation contains the passes of its loop.
  A socket that is opened starts a new history; it is clean if no reply to an earlier connection with the
  same number is still under way.
\<close>

inductive server_step :: "'u pmr_env \<Rightarrow> 'u server \<Rightarrow> 'u server \<Rightarrow> bool" for env where
  accept: "\<not> reactor_joined s \<Longrightarrow> map_of (connections (front_end s)) c = None \<Longrightarrow>
     server_step env s (s\<lparr>front_end := snd (accept_connection (Some (c, ip)) (front_end s)),
       received_bytes := (received_bytes s)(c := []), requested := (requested s)(c := []), wire := (wire s)(c := []),
       clean := (clean s)(c := (items_of c (pending (back_end s)) = {#}))\<rparr>)"
| read: "\<not> reactor_joined s \<Longrightarrow> map_of (connections (front_end s)) c = Some st \<Longrightarrow>
     handle_read c received (front_end s, wpool (back_end s)) = (r, p) \<Longrightarrow>
     server_step env s (s\<lparr>front_end := r, back_end := set_pool p (back_end s),
       received_bytes := (received_bytes s)(c := received_bytes s c @ (case received of None \<Rightarrow> [] | Some bytes \<Rightarrow> bytes)),
       requested := (requested s)(c := requested s c @
         map (\<lambda>l. (l, length (executed (back_end s)))) (issued st received (map_of (connections r) c)))\<rparr>)"
| send: "\<not> reactor_joined s \<Longrightarrow> map_of (connections (front_end s)) c = Some st \<Longrightarrow> (\<forall>n. sent = Some n \<longrightarrow> n \<le> length (write_buffer st)) \<Longrightarrow>
     server_step env s (s\<lparr>front_end := handle_write c sent (front_end s),
       wire := (wire s)(c := wire s c @ (case sent of None \<Rightarrow> [] | Some n \<Rightarrow> take n (write_buffer st)))\<rparr>)"
| hangup: "\<not> reactor_joined s \<Longrightarrow> map_of (connections (front_end s)) c = Some st \<Longrightarrow> server_step env s (s\<lparr>front_end := disconnect c (front_end s)\<rparr>)"
| poll: "\<not> reactor_joined s \<Longrightarrow> prepare_poll (front_end s, wpool (back_end s)) = (r, p) \<Longrightarrow>
     server_step env s (s\<lparr>front_end := r, back_end := set_pool p (back_end s)\<rparr>)"
| work: "worker_step env (back_end s) b \<Longrightarrow> server_step env s (s\<lparr>back_end := b\<rparr>)"
| log_thread: "engine_aof (back_end s) = Some l \<Longrightarrow> log_thread_step (aof_view s l) t \<Longrightarrow>
     (shutter t \<noteq> NotShut \<Longrightarrow> \<forall>w \<in> set (workers (back_end s)). w = Exited) \<Longrightarrow>
     server_step env s (s\<lparr>back_end := set_logger (logger t) (back_end s), log_flusher := flusher t, log_shutter := shutter t\<rparr>)"
| stop: "server_step env s (s\<lparr>front_end := reactor_stop (front_end s)\<rparr>)"
| finish: "\<not> reactor_joined s \<Longrightarrow> \<not> reactor_running (front_end s) \<Longrightarrow>
     server_step env s (s\<lparr>front_end := reactor_finish (front_end s), reactor_joined := True\<rparr>)"
| shutdown: "reactor_joined s \<Longrightarrow> server_step env s (s\<lparr>back_end := set_pool ((wpool (back_end s))\<lparr>pool_running := False\<rparr>) (back_end s)\<rparr>)"

definition server_start :: "16 word \<Rightarrow> nat \<Rightarrow> 'u shard_router \<Rightarrow> aof_logger option \<Rightarrow> 'u server" where
  "server_start listen_port n r aof =
     \<lparr>front_end = (mk_reactor listen_port)\<lparr>reactor_running := True\<rparr>, back_end = pool_start n default_max_queue_size r aof, received_bytes = (\<lambda>_. []),
      requested = (\<lambda>_. []), wire = (\<lambda>_. []), reactor_joined = False, log_flusher = LoopTest, log_shutter = NotShut, clean = (\<lambda>_. True)\<rparr>"

text \<open>The workers' own runs are runs of the server.\<close>

lemma server_run_workers:
  "(worker_step env)\<^sup>*\<^sup>* (back_end s) b \<Longrightarrow> (server_step env)\<^sup>*\<^sup>* s (s\<lparr>back_end := b\<rparr>)"
proof (induction rule: rtranclp_induct)
  case (step b c)
  have "server_step env (s\<lparr>back_end := b\<rparr>) (s\<lparr>back_end := c\<rparr>)"
    using server_step.work [of env "s\<lparr>back_end := b\<rparr>" c] step.hyps(2) by simp
  with step.IH show ?case by (rule rtranclp.rtrancl_into_rtrancl)
qed simp

section \<open>The invariant\<close>

definition connection_ok :: "'u pmr_env \<Rightarrow> 'u shard_router \<Rightarrow> 'u server \<Rightarrow> socket \<Rightarrow> connection_state \<Rightarrow> bool" where
  "connection_ok env r0 s c st \<longleftrightarrow>
     in_order (served_at env r0 (back_end s) c) (requested s c) (wire s c) (items_of c (pending (back_end s))) st \<and>
     flushed st \<and> (\<forall>ln \<in> set (requested s c). snd ln \<le> length (executed (back_end s))) \<and>
     (\<exists>ls. received_bytes s c = line_text ls @ read_buffer st \<and> subseq (map fst (requested s c)) (request_lines ls))"

definition server_inv :: "'u pmr_env \<Rightarrow> 'u shard_router \<Rightarrow> 'u server \<Rightarrow> bool" where
  "server_inv env r0 s \<longleftrightarrow>
     engine_ok env r0 (back_end s) \<and>
     (\<forall>c st. map_of (connections (front_end s)) c = Some st \<longrightarrow> clean s c \<longrightarrow> connection_ok env r0 s c st)"

lemma server_invI:
  "engine_ok env r0 (back_end s) \<Longrightarrow>
   (\<And>c st. map_of (connections (front_end s)) c = Some st \<Longrightarrow> clean s c \<Longrightarrow> connection_ok env r0 s c st) \<Longrightarrow>
   server_inv env r0 s"
  unfolding server_inv_def by blast

lemma server_invD:
  "server_inv env r0 s \<Longrightarrow> map_of (connections (front_end s)) c = Some st \<Longrightarrow> clean s c \<Longrightarrow> connection_ok env r0 s c st"
  unfolding server_inv_def by blast

lemma server_inv_engine: "server_inv env r0 s \<Longrightarrow> engine_ok env r0 (back_end s)"
  unfolding server_inv_def by blast

lemma set_pool_simps [simp]:
  "wpool (set_pool p b) = p" "workers (set_pool p b) = workers b" "engine_router (set_pool p b) = engine_router b"
  "executed (set_pool p b) = executed b" "served (set_pool p b) = served b" "applied (set_pool p b) = applied b"
  "logged (set_pool p b) = logged b" "engine_aof (set_pool p b) = engine_aof b"
  by (simp_all add: set_pool_def)

lemma set_logger_simps [simp]:
  "wpool (set_logger l b) = wpool b" "workers (set_logger l b) = workers b" "engine_router (set_logger l b) = engine_router b"
  "executed (set_logger l b) = executed b" "served (set_logger l b) = served b" "applied (set_logger l b) = applied b"
  "logged (set_logger l b) = logged b" "engine_aof (set_logger l b) = Some l"
  by (simp_all add: set_logger_def)

lemma engine_simps [simp]:
  "engine_ok env r0 (set_pool p b) = engine_ok env r0 b" "engine_ok env r0 (set_logger l b) = engine_ok env r0 b"
  "served_at env r0 (set_pool p b) = served_at env r0 b" "served_at env r0 (set_logger l b) = served_at env r0 b"
  by (simp_all add: engine_ok_def history_ok_def served_at_def fun_eq_iff)

lemma pending_set_pool: "pending (set_pool p b) = pool_items p + held_items worker_items (workers b)"
  by (simp add: pending_def)

lemma in_order_new: "in_order H [] [] {#} (mk_connection_state ip) \<and> flushed (mk_connection_state ip)"
  by (auto simp: in_order_def order_ok_def flushed_def mk_connection_state_def distinct_places_def)

lemma complete_lines_from_line:
  "newline \<notin> set l \<Longrightarrow> complete_lines_from xs (l @ newline # s) = (xs @ l) # complete_lines s"
  by (induction l arbitrary: xs) (auto simp: complete_lines_def)

lemma complete_lines_text:
  "\<forall>l \<in> set ls. newline \<notin> set l \<Longrightarrow> complete_lines (line_text ls @ s) = ls @ complete_lines s"
proof (induction ls)
  case (Cons l ls)
  then show ?case using complete_lines_from_line [of l "[]"] by (simp add: complete_lines_def)
qed simp

lemma server_inv_accept:
  assumes "server_inv env r0 s" and "map_of (connections (front_end s)) c = None"
  shows "server_inv env r0 (s\<lparr>front_end := snd (accept_connection (Some (c, ip)) (front_end s)),
    received_bytes := (received_bytes s)(c := []), requested := (requested s)(c := []), wire := (wire s)(c := []),
    clean := (clean s)(c := (items_of c (pending (back_end s)) = {#}))\<rparr>)"
  (is "server_inv env r0 ?s")
proof (rule server_invI)
  show "engine_ok env r0 (back_end ?s)" using server_inv_engine [OF assms(1)] by simp
  fix c' st
  assume "map_of (connections (front_end ?s)) c' = Some st" and "clean ?s c'"
  then have st: "map_of (connections (snd (accept_connection (Some (c, ip)) (front_end s)))) c' = Some st"
    and cl: "if c' = c then items_of c (pending (back_end s)) = {#} else clean s c'" by (simp_all split: if_splits)
  show "connection_ok env r0 ?s c' st"
  proof (cases "c' = c")
    case True
    with st assms(2) have "st = mk_connection_state ip" by (auto simp: accept_connection_def split: if_splits)
    with True cl in_order_new [of _ ip] show ?thesis
      by (auto simp: connection_ok_def mk_connection_state_def intro: exI [of _ "[]"])
  next
    case False
    with st have "map_of (connections (front_end s)) c' = Some st"
      by (auto simp: accept_connection_def split: if_splits)
    with server_invD [OF assms(1) this] cl False show ?thesis by (simp add: connection_ok_def)
  qed
qed

lemma server_inv_disconnect:
  assumes "server_inv env r0 s" and "\<And>c'. c' \<noteq> c \<Longrightarrow> w c' = wire s c'"
  shows "server_inv env r0 (s\<lparr>front_end := disconnect c (front_end s), wire := w\<rparr>)"
proof (rule server_invI)
  fix c' st
  assume "map_of (connections (front_end (s\<lparr>front_end := disconnect c (front_end s), wire := w\<rparr>))) c' = Some st"
    and cl: "clean (s\<lparr>front_end := disconnect c (front_end s), wire := w\<rparr>) c'"
  then have "c' \<noteq> c" and st: "map_of (connections (front_end s)) c' = Some st"
    by (auto simp: disconnect_def split: if_splits)
  with server_invD [OF assms(1) st] cl assms(2)
  show "connection_ok env r0 (s\<lparr>front_end := disconnect c (front_end s), wire := w\<rparr>) c' st"
    by (simp add: connection_ok_def)
qed (use server_inv_engine [OF assms(1)] in simp)

text \<open>Updating one connection.\<close>

lemma server_inv_update:
  assumes "server_inv env r0 s" and "engine_ok env r0 (back_end s')" and "clean s' = clean s"
    and "connections (front_end s') = AList.update c st' (connections (front_end s))"
    and "clean s c \<Longrightarrow> connection_ok env r0 s' c st'"
    and "\<And>c'. c' \<noteq> c \<Longrightarrow> requested s' c' = requested s c' \<and> wire s' c' = wire s c' \<and>
      received_bytes s' c' = received_bytes s c' \<and> items_of c' (pending (back_end s')) = items_of c' (pending (back_end s))"
    and "executed (back_end s') = executed (back_end s)" and "served (back_end s') = served (back_end s)"
  shows "server_inv env r0 s'"
proof (rule server_invI)
  fix c' st
  assume "map_of (connections (front_end s')) c' = Some st" and cl: "clean s' c'"
  then have st: "(if c' = c then Some st' else map_of (connections (front_end s)) c') = Some st"
    by (simp add: assms(4))
  show "connection_ok env r0 s' c' st"
  proof (cases "c' = c")
    case True
    with st cl assms(3,5) show ?thesis by simp
  next
    case False
    with st have "map_of (connections (front_end s)) c' = Some st" by simp
    with server_invD [OF assms(1) this] cl assms(3,7,8) assms(6) [OF False] show ?thesis
      by (simp add: connection_ok_def served_at_def [abs_def])
  qed
qed (rule assms(2))

lemma read_effect_issued:
  assumes "read_effect c (st\<lparr>read_buffer := read_buffer st @ bytes\<rparr>) p ls reqs paused st' p'"
  shows "issued st (Some bytes) (Some st') = reqs"
proof -
  note e = assms [unfolded read_effect_def]
  from e have ls: "read_buffer st @ bytes = line_text ls @ read_buffer st'" "\<forall>l \<in> set ls. newline \<notin> set l" by simp_all
  have k: "length reqs \<le> 256" using e by auto
  have "next_seq_issue st' - next_seq_issue st = word_of_nat (length reqs)"
    using e by (metis (no_types, lifting) add_diff_cancel_left' connection_state.select_convs(5)
      connection_state.surjective connection_state.update_convs(1,5,8))
  then have "unat (next_seq_issue st' - next_seq_issue st) = length reqs"
    using k by (simp add: unat_word_of_nat_64)
  moreover have "take (length reqs) (request_lines ls @ xs) = reqs" for xs
    using e by (cases paused) auto
  moreover have "complete_lines (read_buffer st @ bytes) = ls @ complete_lines (read_buffer st')"
    unfolding ls(1) by (rule complete_lines_text [OF ls(2)])
  ultimately show ?thesis by (simp add: issued_def del: take_append)
qed

lemma server_inv_read:
  assumes "server_inv env r0 s" and st: "map_of (connections (front_end s)) c = Some st"
    and "handle_read c (Some bytes) (front_end s, wpool (back_end s)) = (r, p)"
  shows "server_inv env r0 (s\<lparr>front_end := r, back_end := set_pool p (back_end s),
    received_bytes := (received_bytes s)(c := received_bytes s c @ bytes),
    requested := (requested s)(c := requested s c @
      map (\<lambda>l. (l, length (executed (back_end s)))) (issued st (Some bytes) (map_of (connections r) c)))\<rparr>)"
  (is "server_inv env r0 ?s")
proof -
  let ?st = "st\<lparr>read_buffer := read_buffer st @ bytes\<rparr>" and ?H = "served_at env r0 (back_end s) c"
  obtain paused st' where rl: "read_lines c ?st (wpool (back_end s)) = (paused, st', p)"
    and r: "connections r = AList.update c st' (connections (front_end s))"
    using assms(3) st by (auto simp: handle_read_def split: prod.splits)
  from read_lines_effect [OF rl] obtain ls reqs
    where e: "read_effect c ?st (wpool (back_end s)) ls reqs paused st' p" by blast
  note e' = e [unfolded read_effect_def]
  have i: "issued st (Some bytes) (map_of (connections r) c) = reqs" using read_effect_issued [OF e] by (simp add: r)
  have p: "p = process_all c (client_ip st) (next_seq_issue st) reqs (wpool (back_end s))" using e' by simp
  show ?thesis
  proof (rule server_inv_update [OF assms(1), of ?s c st'])
    assume "clean s c"
    from server_invD [OF assms(1) st this]
    have ok: "in_order ?H (requested s c) (wire s c) (items_of c (pending (back_end s))) st" "flushed st"
      "\<forall>ln \<in> set (requested s c). snd ln \<le> length (executed (back_end s))"
      and "\<exists>xs. received_bytes s c = line_text xs @ read_buffer st \<and> subseq (map fst (requested s c)) (request_lines xs)"
      by (simp_all add: connection_ok_def)
    then obtain xs where xs: "received_bytes s c = line_text xs @ read_buffer st" "subseq (map fst (requested s c)) (request_lines xs)"
      by blast
    let ?new = "st\<lparr>next_seq_issue := next_seq_issue st + word_of_nat (length reqs),
       in_flight_requests := in_flight_requests st + word_of_nat (length reqs)\<rparr>"
    have new: "in_order ?H (requested s c @ map (\<lambda>l. (l, length (executed (back_end s)))) reqs) (wire s c)
        (items_of c (pool_items p) + items_of c (held_items worker_items (workers (back_end s)))) ?new"
      unfolding p using ok(1) e' by (intro in_order_issue_all) (auto simp: pending_def)
    have "st' = ?st\<lparr>read_buffer := read_buffer st', next_seq_issue := next_seq_issue st + word_of_nat (length reqs),
       in_flight_requests := in_flight_requests st + word_of_nat (length reqs)\<rparr>" using e' by simp
    then have st': "st' = ?new\<lparr>read_buffer := read_buffer st'\<rparr>" by (cases st; cases st') simp
    have "in_order ?H l w M (x\<lparr>read_buffer := b\<rparr>) = in_order ?H l w M x" for l w M x b
      by (simp add: in_order_def order_ok_def)
    then have "in_order ?H l w M st' = in_order ?H l w M ?new" for l w M using st' by metis
    moreover have "flushed st'" using ok(2) st' by (metis flushed_def connection_state.select_convs(6,7)
      connection_state.surjective connection_state.update_convs(1,5,8))
    moreover have "received_bytes s c @ bytes = line_text (xs @ ls) @ read_buffer st'" using xs(1) e' by simp
    moreover have "subseq reqs (request_lines ls)" using e' by (auto split: if_splits)
    then have "subseq (map fst (requested s c) @ reqs) (request_lines (xs @ ls))"
      unfolding request_lines_simps using xs(2) by (intro list_emb_append_mono)
    ultimately show "connection_ok env r0 ?s c st'"
      using new ok(3) unfolding connection_ok_def by (auto simp: i pending_set_pool comp_def intro!: exI [of _ "xs @ ls"])
  qed (use server_inv_engine [OF assms(1)] in \<open>simp_all add: r pending_set_pool p process_all_other pending_def\<close>)
qed

lemma server_inv_send:
  assumes "server_inv env r0 s" and st: "map_of (connections (front_end s)) c = Some st"
    and n: "\<forall>n. sent = Some n \<longrightarrow> n \<le> length (write_buffer st)"
  shows "server_inv env r0 (s\<lparr>front_end := handle_write c sent (front_end s),
    wire := (wire s)(c := wire s c @ (case sent of None \<Rightarrow> [] | Some n \<Rightarrow> take n (write_buffer st)))\<rparr>)"
  (is "server_inv env r0 ?s")
proof -
  have new: "in_order H l (w @ take n (write_buffer st)) M (st\<lparr>write_buffer := drop n (write_buffer st), write_pending := b\<rparr>)"
    if "in_order H l w M st" for H l w M n b
    using that by (simp add: in_order_def order_ok_def)
  have update: "server_inv env r0 ?s"
    if "connections (handle_write c sent (front_end s)) =
        AList.update c (st\<lparr>write_buffer := drop k (write_buffer st), write_pending := b\<rparr>) (connections (front_end s))"
      "(case sent of None \<Rightarrow> [] | Some n \<Rightarrow> take n (write_buffer st)) = take k (write_buffer st)" for k b
  proof (rule server_inv_update [OF assms(1), of ?s c "st\<lparr>write_buffer := drop k (write_buffer st), write_pending := b\<rparr>"])
    assume "clean s c"
    from server_invD [OF assms(1) st this] new
    show "connection_ok env r0 ?s c (st\<lparr>write_buffer := drop k (write_buffer st), write_pending := b\<rparr>)"
      by (simp add: connection_ok_def flushed_def that(2))
  qed (use server_inv_engine [OF assms(1)] that(1) in simp_all)
  show ?thesis
  proof (cases "write_buffer st = []")
    case True
    have "connections (handle_write c sent (front_end s)) =
        AList.update c (st\<lparr>write_buffer := drop 0 (write_buffer st), write_pending := False\<rparr>) (connections (front_end s))"
      using True st by (cases st) (simp add: handle_write_def)
    then show ?thesis by (rule update) (simp add: True split: option.splits)
  next
    case False
    show ?thesis
    proof (cases sent)
      case None
      with False st server_inv_disconnect [OF assms(1), of c "wire ?s"] show ?thesis by (simp add: handle_write_def)
    next
      case (Some k)
      show ?thesis by (rule update [where k = k]) (simp_all add: handle_write_def False st Some Let_def)
    qed
  qed
qed

lemma prepare_poll_result:
  assumes "prepare_poll (r, p) = (r', p')"
  shows "connections r' = connections (fold deliver_result (completions p) r) \<and> p' = p\<lparr>completions := []\<rparr>"
  using assms by (auto simp: prepare_poll_def drain_completion_queue_def completion_drain_all
      relax_backpressure_def rebuild_poll_set_def)

lemma server_inv_poll:
  assumes "server_inv env r0 s" and "prepare_poll (front_end s, wpool (back_end s)) = (r, p)"
  shows "server_inv env r0 (s\<lparr>front_end := r, back_end := set_pool p (back_end s)\<rparr>)"
  (is "server_inv env r0 ?s")
proof (rule server_invI)
  let ?xs = "completions (wpool (back_end s))"
  note pp = prepare_poll_result [OF assms(2)]
  have P: "pending (back_end s) = mset (map result_item ?xs) + pending (set_pool p (back_end s))"
    using pp by (simp add: pending_def pool_items_def)
  fix c st'
  assume "map_of (connections (front_end ?s)) c = Some st'" and cl: "clean ?s c"
  then obtain st where st: "map_of (connections (front_end s)) c = Some st"
    and st': "st' = fold (\<lambda>x. absorb (result_seq x) (response x)) (filter (\<lambda>x. result_client x = c) ?xs) st"
    using pp by (auto simp: deliver_results_conn)
  have "connection_ok env r0 s c st" using server_invD [OF assms(1) st] cl by simp
  then have "in_order (served_at env r0 (back_end s) c) (requested s c) (wire s c)
      (items_of c (mset (map result_item ?xs)) + items_of c (pending (set_pool p (back_end s)))) st" "flushed st"
    and "\<forall>ln \<in> set (requested s c). snd ln \<le> length (executed (back_end s))"
    and "\<exists>ls. received_bytes s c = line_text ls @ read_buffer st \<and> subseq (map fst (requested s c)) (request_lines ls)"
    by (simp_all add: connection_ok_def P)
  with in_order_delivered [OF this(1,2)] show "connection_ok env r0 ?s c st'"
    by (simp add: connection_ok_def st' fold_absorb_input)
qed (use server_inv_engine [OF assms(1)] in simp)

lemma server_inv_work:
  assumes "server_inv env r0 s" and "worker_step env (back_end s) b"
  shows "server_inv env r0 (s\<lparr>back_end := b\<rparr>)"
proof (rule server_invI)
  let ?b = "back_end s" and ?k = "length (executed (back_end s))"
  note e = server_inv_engine [OF assms(1)]
  then have ok: "history_ok env r0 ?b" by (simp add: engine_ok_def)
  note ext = worker_step_history_ok [OF assms(2) ok] and items = worker_step_items [OF assms(2) ok]
  show "engine_ok env r0 (back_end (s\<lparr>back_end := b\<rparr>))" using worker_step_engine_ok [OF assms(2) e] by simp
  fix c st
  assume "map_of (connections (front_end (s\<lparr>back_end := b\<rparr>))) c = Some st" "clean (s\<lparr>back_end := b\<rparr>) c"
  with server_invD [OF assms(1), of c st] have c: "connection_ok env r0 s c st" by simp
  have "served_at env r0 ?b c \<le> served_at env r0 b c" using served_at_mono [OF conjunct2 [OF ext] ok] by (auto simp: le_fun_def)
  moreover have "\<not> served_at env r0 ?b c ?k cmd reply" for cmd reply by (simp add: served_at_def)
  ultimately have "in_order (served_at env r0 b c) (requested s c) (wire s c) (items_of c (pending b)) st"
    using in_order_item_step [OF items, of "served_at env r0 ?b c" "requested s c" "wire s c" c st "served_at env r0 b c" ?k] c
    by (auto simp: connection_ok_def)
  moreover have "?k \<le> length (executed b)" using ext by (auto simp: extends_history_def)
  ultimately show "connection_ok env r0 (s\<lparr>back_end := b\<rparr>) c st"
    using c by (auto simp: connection_ok_def intro: le_trans)
qed

lemma server_step_inv:
  assumes "server_inv env r0 s" and "server_step env s t"
  shows "server_inv env r0 t"
  using assms(2,1)
proof (induction rule: server_step.induct)
  case (accept s c ip)
  then show ?case by (intro server_inv_accept)
next
  case (read s c st received r p)
  show ?case
  proof (cases received)
    case None
    with read have "r = disconnect c (front_end s)" "p = wpool (back_end s)" by (simp_all add: handle_read_def)
    with server_inv_disconnect [OF read.prems, of c "wire s"] None show ?thesis
      by (simp add: issued_def set_pool_def)
  next
    case (Some bytes)
    with server_inv_read [OF read.prems read.hyps(2)] read.hyps(3) show ?thesis by simp
  qed
next
  case (send s c st sent)
  then show ?case by (intro server_inv_send)
next
  case (hangup s c st)
  then show ?case using server_inv_disconnect [of env r0 s c "wire s"] by simp
next
  case (poll s r p)
  then show ?case by (intro server_inv_poll)
next
  case (work s b)
  then show ?case by (intro server_inv_work)
next
  case (log_thread s l t)
  then show ?case by (simp add: server_inv_def connection_ok_def pending_def)
next
  case (stop s)
  then show ?case by (simp add: server_inv_def connection_ok_def reactor_stop_def)
next
  case (finish s)
  then show ?case by (simp add: server_inv_def reactor_finish_def)
next
  case (shutdown s)
  then show ?case by (simp add: server_inv_def connection_ok_def pending_def pool_items_def)
qed

interpretation server: step_invariant
  "\<lambda>s. \<exists>q n aof. s = server_start q n r0 aof \<and> router_wf env r0" "server_step env" "server_inv env r0"
proof unfold_locales
  fix s t :: "'a server"
  show "\<exists>q n aof. s = server_start q n r0 aof \<and> router_wf env r0 \<Longrightarrow> server_inv env r0 s"
    by (auto simp: server_inv_def server_start_def mk_reactor_def pool_start_def engine_ok_def history_ok_def)
  show "server_inv env r0 s \<Longrightarrow> server_step env s t \<Longrightarrow> server_inv env r0 t" by (rule server_step_inv)
qed

text \<open>What the invariant says of one connection.\<close>

definition replied ::
  "'u pmr_env \<Rightarrow> 'u shard_router \<Rightarrow> 'u server \<Rightarrow> socket \<Rightarrow> string list \<Rightarrow> (nat \<Rightarrow> nat option) \<Rightarrow> bool" where
  "replied env r0 s c rs pos \<longleftrightarrow>
     (\<forall>i < length rs. justified (served_at env r0 (back_end s) c) (requested s c ! i) (rs ! i) (pos i)) \<and>
     distinct_places rs pos"

lemma connection_ok_replies:
  assumes "connection_ok env r0 s c st"
  shows "\<exists>ls rs pos. received_bytes s c = line_text ls @ read_buffer st \<and>
    subseq (map fst (requested s c)) (request_lines ls) \<and>
    wire s c @ write_buffer st = concat rs \<and> replied env r0 s c rs pos \<and>
    length (requested s c) = length rs + unat (in_flight_requests st) \<and> unat (in_flight_requests st) \<le> 256 \<and>
    (items_of c (pending (back_end s)) = {#} \<longrightarrow> length rs = length (requested s c))"
proof -
  let ?H = "served_at env r0 (back_end s) c"
  from assms obtain ls rs prog pos
    where ok: "order_ok ?H (requested s c) (wire s c) (items_of c (pending (back_end s))) st rs prog pos" and f: "flushed st"
      and ls: "received_bytes s c = line_text ls @ read_buffer st" "subseq (map fst (requested s c)) (request_lines ls)"
    by (auto simp: connection_ok_def in_order_def)
  have "length rs = length (requested s c)" if "items_of c (pending (back_end s)) = {#}"
    using order_ok_drained [OF ok f that] .
  moreover have "replied env r0 s c rs pos"
    using ok unfolding order_ok_def replied_def distinct_places_def by (auto elim: inj_on_subset)
  ultimately show ?thesis using ok ls unfolding order_ok_def by blast
qed

section \<open>Properties\<close>


text \<open>An example: one client of a server with two shards and one worker has sent one request.\<close>

definition demo_logger :: "string list \<Rightarrow> aof_logger" where
  "demo_logger buf = (mk_aof_logger ''appendonly.aof'' [])\<lparr>file_open := True, running := True, buffer_a := buf\<rparr>"

abbreviation demo_server :: "nat server" where
  "demo_server \<equiv> server_start 8080 1 demo_router (Some (demo_logger []))"

abbreviation demo_push :: task where
  "demo_push \<equiv> \<lparr>task_command = LPushCommand ''l'' ''a'' 86400, task_client = 7, task_seq = 0\<rparr>"

abbreviation demo_back :: "task list \<Rightarrow> nat pool_system" where
  "demo_back q \<equiv> set_pool ((mk_worker_pool 10000)\<lparr>pool_queue := q\<rparr>) (pool_start 1 10000 demo_router (Some (demo_logger [])))"

lemma demo_request:
  "\<exists>s st. (server_step demo_env)\<^sup>*\<^sup>* demo_server s \<and> back_end s = demo_back [demo_push] \<and>
     log_flusher s = LoopTest \<and> log_shutter s = NotShut \<and> \<not> reactor_joined s \<and> map_of (connections (front_end s)) 7 = Some st \<and>
     clean s 7 \<and> requested s 7 = [(''LPUSH l a'', 0)] \<and> wire s 7 = [] \<and> write_buffer st = []"
proof -
  let ?r = "(mk_reactor 8080)\<lparr>reactor_running := True\<rparr>" and ?line = "''LPUSH l a''" and ?bytes = "''LPUSH l a\<newline>''"
  let ?r1 = "snd (accept_connection (Some (7, ''10.0.0.1'')) ?r)" and ?p = "(mk_worker_pool 10000)\<lparr>pool_queue := [demo_push]\<rparr>"
  let ?st = "mk_connection_state ''10.0.0.1''" and ?b = "pool_start 1 10000 demo_router (Some (demo_logger []))"
  let ?st' = "?st\<lparr>next_seq_issue := 1, in_flight_requests := 1\<rparr>"
  have req: "request_lines [?line] = [?line]" by (simp add: trim_cr_def)
  have "parse_line ?line = Some (LPushCommand ''l'' ''a'' 86400)"
    using parse_line_serialize [of "LPushCommand ''l'' ''a'' default_ttl"] by (simp add: is_token_def is_space_def default_ttl_def)
  then have pr: "process 7 ?line 0 ''10.0.0.1'' (mk_worker_pool 10000) = ?p"
    by (simp add: process_cases submit_def mk_worker_pool_def queue_size_def)
  have "read_lines 7 (?st\<lparr>read_buffer := ?bytes\<rparr>) (mk_worker_pool 10000) = (False, ?st', ?p)"
    using read_lines_all [of "?st\<lparr>read_buffer := ?bytes\<rparr>" "[?line]" "[]" "mk_worker_pool 10000" 7] pr
    by (simp add: req mk_connection_state_def has_room_def mk_worker_pool_def)
  moreover have c1: "map_of (connections ?r1) 7 = Some ?st"
    by (simp add: accept_connection_def mk_reactor_def MAX_CONNECTIONS_def)
  ultimately obtain r2 where rd: "handle_read 7 (Some ?bytes) (?r1, mk_worker_pool 10000) = (r2, ?p)"
    and c2: "map_of (connections r2) 7 = Some ?st'"
    by (auto simp: handle_read_def mk_connection_state_def)
  have b: "back_end demo_server = ?b" by (simp add: server_start_def default_max_queue_size_def)
  have "pending ?b = {#}" by (auto simp: pending_def pool_items_def pool_start_def mk_worker_pool_def intro!: held_nil)
  then obtain s1 where s1: "server_step demo_env demo_server s1" "front_end s1 = ?r1" "back_end s1 = ?b"
    "log_flusher s1 = LoopTest" "log_shutter s1 = NotShut" "clean s1 7" "requested s1 7 = []" "wire s1 7 = []" "\<not> reactor_joined s1"
    using server_step.accept [of demo_server 7 demo_env "''10.0.0.1''"] b by (force simp: server_start_def mk_reactor_def)
  have "complete_lines ?bytes = [?line]" using complete_lines_text [of "[?line]" "[]"] by (simp add: complete_lines_def)
  then have "issued ?st (Some ?bytes) (Some ?st') = [?line]" by (simp add: issued_def mk_connection_state_def req)
  moreover have "handle_read 7 (Some ?bytes) (front_end s1, wpool (back_end s1)) = (r2, ?p)"
    using rd s1(2,3) by (simp add: pool_start_def)
  moreover have "executed (back_end s1) = []" using s1(3) by (simp add: pool_start_def)
  ultimately obtain s2 where s2: "server_step demo_env s1 s2" "back_end s2 = set_pool ?p ?b" "front_end s2 = r2"
    "log_flusher s2 = LoopTest" "log_shutter s2 = NotShut" "clean s2 7" "requested s2 7 = [(?line, 0)]" "wire s2 7 = []" "\<not> reactor_joined s2"
    using server_step.read [of s1 7 ?st "Some ?bytes" r2 ?p demo_env] s1 c1 c2 by force
  moreover have "(server_step demo_env)\<^sup>*\<^sup>* demo_server s2" using s1(1) s2(1) by (meson r_into_rtranclp rtranclp_trans)
  ultimately show ?thesis using c2 by (intro exI [of _ s2] exI [of _ ?st']) (simp add: mk_connection_state_def)
qed


end
