(* ===== verification/KV_Timing_Wheel.thy ===== *)
theory KV_Timing_Wheel
  imports KV_Command
begin

text \<open>
  timing_wheel.h and timing_wheel.cpp: the wheel of 86400 one-second buckets whose sweeper erases
  tombstoned and expired entries and logs a DEL for each.  The theorems show that a sweep is
  invisible to readers, that a key scheduled less than one turn ahead is erased by the tick of its
  expiry, and that one scheduled a full turn ahead (the default time to live) is dropped at once.
\<close>

section \<open>TimingWheel\<close>

definition WHEEL_SIZE :: nat where
  "WHEEL_SIZE = 86400"

record wheel_entry =
  entry_key :: string
  entry_shard_index :: size_t

text \<open>The array of buckets is a function of the index; only indices below \<open>WHEEL_SIZE\<close> are used.\<close>

record timing_wheel =
  buckets :: "nat \<Rightarrow> wheel_entry list"
  wheel_running :: bool
  start_time :: time_point
  current_tick :: size_t

definition mk_timing_wheel :: "time_point \<Rightarrow> timing_wheel" where
  "mk_timing_wheel now =
     \<lparr>buckets = (\<lambda>_. []), wheel_running = False, start_time = now, current_tick = 0\<rparr>"

definition time_to_bucket :: "time_point \<Rightarrow> timing_wheel \<Rightarrow> nat" where
  "time_to_bucket expiry w =
     (let delta = duration_cast_seconds (expiry - start_time w);
          delta' = (if delta < 0 then 0 else delta)
      in nat delta' mod WHEEL_SIZE)"

text \<open>The second parameter of \<^verbatim>\<open>schedule\<close> is ignored by the code.\<close>

definition schedule :: "string \<Rightarrow> size_t \<Rightarrow> time_point \<Rightarrow> timing_wheel \<Rightarrow> timing_wheel" where
  "schedule key sidx expiry w =
     (let bucket = time_to_bucket expiry w in
      w\<lparr>buckets := (buckets w)(bucket :=
           buckets w bucket @ [\<lparr>entry_key = key, entry_shard_index = 0\<rparr>])\<rparr>)"

definition wheel_start :: "time_point \<Rightarrow> timing_wheel \<Rightarrow> timing_wheel" where
  "wheel_start now w = w\<lparr>wheel_running := True, start_time := now, current_tick := 0\<rparr>"

definition wheel_stop :: "timing_wheel \<Rightarrow> timing_wheel" where
  "wheel_stop w = w\<lparr>wheel_running := False\<rparr>"

text \<open>The first block of \<^verbatim>\<open>advance_tick\<close>, under the wheel's mutex: take the bucket of this tick.\<close>

definition take_bucket :: "timing_wheel \<Rightarrow> wheel_entry list \<times> timing_wheel" where
  "take_bucket w =
     (let idx = unat (current_tick w) mod WHEEL_SIZE in
      (buckets w idx,
       w\<lparr>buckets := (buckets w)(idx := []), current_tick := current_tick w + 1\<rparr>))"

text \<open>One iteration of its loop: evict under the shard's lock, then log.\<close>

definition sweep_entry ::
  "'u pmr_env \<Rightarrow> time_point \<Rightarrow> wheel_entry \<Rightarrow> 'u shard_router \<times> aof_logger option
     \<Rightarrow> 'u shard_router \<times> aof_logger option" where
  "sweep_entry env now entry db =
     (let key = entry_key entry; r = fst db;
          (evicted, s) = shard_evict_expired env now key (shard_for_key r key)
      in (put_shard r key s, if evicted then log_write (DelCommand key) (snd db) else snd db))"

fun sweep ::
  "'u pmr_env \<Rightarrow> (nat \<Rightarrow> time_point) \<Rightarrow> wheel_entry list \<Rightarrow> 'u shard_router \<times> aof_logger option
     \<Rightarrow> 'u shard_router \<times> aof_logger option" where
  "sweep env clock [] db = db"
| "sweep env clock (entry # es) db = sweep env (\<lambda>i. clock (Suc i)) es (sweep_entry env (clock 0) entry db)"

definition advance_tick ::
  "'u pmr_env \<Rightarrow> (nat \<Rightarrow> time_point) \<Rightarrow> timing_wheel \<times> 'u shard_router \<times> aof_logger option
     \<Rightarrow> timing_wheel \<times> 'u shard_router \<times> aof_logger option" where
  "advance_tick env clock st =
     (let (expired, w) = take_bucket (fst st) in (w, sweep env clock expired (snd st)))"

text \<open>
  \<^verbatim>\<open>sweeper_loop\<close> with \<open>n\<close> further passes before \<^verbatim>\<open>running_\<close> is cleared; \<open>clock m i\<close> is the \<open>i\<close>-th
  clock reading of pass \<open>m\<close>.
\<close>

fun sweeper_loop ::
  "'u pmr_env \<Rightarrow> (nat \<Rightarrow> nat \<Rightarrow> time_point) \<Rightarrow> nat \<Rightarrow> timing_wheel \<times> 'u shard_router \<times> aof_logger option
     \<Rightarrow> timing_wheel \<times> 'u shard_router \<times> aof_logger option" where
  "sweeper_loop env clock 0 st = st"
| "sweeper_loop env clock (Suc n) st =
     sweeper_loop env (\<lambda>m. clock (Suc m)) n (advance_tick env (clock 0) st)"

section \<open>Sweeping the router\<close>

definition stored :: "'u shard_router \<Rightarrow> string \<Rightarrow> cache_aligned_value option" where
  "stored r k = map_of (data_map (shard_for_key r k)) k"

lemma router_entry_stored: "router_entry r k = untombstoned (stored r k)"
  by (simp add: router_entry_def shard_entry_def stored_def)

lemma sweep_entry_stored:
  assumes "router_wf env r" and "sweep_entry env now en (r, aof) = (r', aof')"
  shows "router_wf env r' \<and>
    stored r' = (if \<exists>e. stored r (entry_key en) = Some e \<and> \<not> is_live now e
                 then (stored r)(entry_key en := None) else stored r) \<and>
    aof' = (if \<exists>e. stored r (entry_key en) = Some e \<and> \<not> is_live now e
            then log_write (DelCommand (entry_key en)) aof else aof)"
proof -
  let ?k = "entry_key en"
  obtain b s where e: "shard_evict_expired env now ?k (shard_for_key r ?k) = (b, s)" by force
  with assms(2) have r': "r' = put_shard r ?k s"
    and aof': "aof' = (if b then log_write (DelCommand ?k) aof else aof)"
    by (auto simp: sweep_entry_def Let_def)
  note ev = shard_evict_entry [OF e]
  have "shard_wf env s"
    using shard_wf_evict [OF shard_for_key_wf [OF assms(1), of ?k], of now ?k] e by simp
  with assms(1) r' have "router_wf env r'" by (simp add: put_shard_wf)
  moreover have "stored r' k = (if b then (stored r)(?k := None) else stored r) k" for k
  proof (cases "shard_index r k = shard_index r ?k")
    case True
    then have "shard_for_key r k = shard_for_key r ?k" by (simp add: shard_for_key_def)
    with True ev show ?thesis
      by (auto simp: stored_def r' shard_for_key_put_shard [OF assms(1)])
  next
    case False
    then have "k \<noteq> ?k" by auto
    with False show ?thesis by (simp add: stored_def r' shard_for_key_put_shard [OF assms(1)])
  qed
  ultimately show ?thesis using ev aof' by (auto simp: stored_def fun_eq_iff)
qed

text \<open>An entry leaves the store in a sweep only when it is dead at one of the clock readings.\<close>

lemma sweep_stored:
  assumes "router_wf env r" and "sweep env clock es (r, aof) = (r', aof')"
  shows "router_wf env r' \<and>
    (stored r' k = stored r k \<or>
     stored r' k = None \<and> (\<exists>e i. stored r k = Some e \<and> \<not> is_live (clock i) e))"
  using assms
proof (induction es arbitrary: clock r aof)
  case (Cons en es)
  obtain r1 aof1 where s: "sweep_entry env (clock 0) en (r, aof) = (r1, aof1)" by force
  note s1 = sweep_entry_stored [OF Cons.prems(1) s]
  from Cons.prems(2) s have h: "sweep env (\<lambda>i. clock (Suc i)) es (r1, aof1) = (r', aof')" by simp
  have "stored r1 k = stored r k \<or> stored r1 k = None \<and> (\<exists>e. stored r k = Some e \<and> \<not> is_live (clock 0) e)"
    using s1 by (auto split: if_splits)
  with Cons.IH [OF _ h] s1 show ?case by (metis option.distinct(1))
qed simp

lemma sweep_removes:
  assumes "router_wf env r" and "sweep env clock es (r, aof) = (r', aof')"
    and "k \<in> entry_key ` set es" and "\<forall>e i. stored r k = Some e \<longrightarrow> \<not> is_live (clock i) e"
  shows "stored r' k = None"
  using assms
proof (induction es arbitrary: clock r aof)
  case (Cons en es)
  obtain r1 aof1 where s: "sweep_entry env (clock 0) en (r, aof) = (r1, aof1)" by force
  note s1 = sweep_entry_stored [OF Cons.prems(1) s]
  then have wf1: "router_wf env r1" by blast
  from Cons.prems(2) s have h: "sweep env (\<lambda>i. clock (Suc i)) es (r1, aof1) = (r', aof')" by simp
  show ?case
  proof (cases "entry_key en = k")
    case True
    with s1 Cons.prems(4) have "stored r1 k = None" by (cases "stored r k") auto
    with sweep_stored [OF wf1 h, of k] show ?thesis by auto
  next
    case False
    with s1 Cons.prems(3,4) show ?thesis by (intro Cons.IH [OF wf1 h]) (auto split: if_splits)
  qed
qed simp

text \<open>The keys erased by a sweep, in order: these are logged.\<close>

fun swept :: "'u pmr_env \<Rightarrow> (nat \<Rightarrow> time_point) \<Rightarrow> wheel_entry list \<Rightarrow> 'u shard_router \<Rightarrow> string list" where
  "swept env clock [] r = []"
| "swept env clock (en # es) r =
     (let k = entry_key en in
      (if fst (shard_evict_expired env (clock 0) k (shard_for_key r k)) then [k] else []) @
      swept env (\<lambda>i. clock (Suc i)) es (fst (sweep_entry env (clock 0) en (r, None))))"

lemma sweep_entry_aof:
  "fst (sweep_entry env now en (r, aof)) = fst (sweep_entry env now en (r, None))"
  "snd (sweep_entry env now en (r, aof)) =
     (if fst (shard_evict_expired env now (entry_key en) (shard_for_key r (entry_key en)))
      then log_write (DelCommand (entry_key en)) aof else aof)"
  by (simp_all add: sweep_entry_def Let_def split: prod.splits)

lemma sweep_aof:
  "snd (sweep env clock es (r, aof)) = fold (\<lambda>k. log_write (DelCommand k)) (swept env clock es r) aof"
proof (induction es arbitrary: clock r aof)
  case (Cons en es)
  let ?x = "sweep_entry env (clock 0) en (r, aof)"
  have x: "?x = (fst (sweep_entry env (clock 0) en (r, None)), snd ?x)"
    by (metis sweep_entry_aof(1) prod.collapse)
  have "snd (sweep env clock (en # es) (r, aof)) =
      snd (sweep env (\<lambda>i. clock (Suc i)) es (fst (sweep_entry env (clock 0) en (r, None)), snd ?x))"
    by (subst sweep.simps, subst x) simp
  also have "\<dots> = fold (\<lambda>k. log_write (DelCommand k))
      (swept env (\<lambda>i. clock (Suc i)) es (fst (sweep_entry env (clock 0) en (r, None)))) (snd ?x)"
    by (rule Cons.IH)
  finally show ?case by (simp add: sweep_entry_aof(2) Let_def)
qed simp

lemma sweep_swept:
  assumes "router_wf env r" and "sweep env clock es (r, aof) = (r', aof')"
  shows "distinct (swept env clock es r) \<and> set (swept env clock es r) = {k. stored r k \<noteq> None \<and> stored r' k = None}"
  using assms
proof (induction es arbitrary: clock r aof)
  case (Cons en es)
  let ?k = "entry_key en"
  obtain r1 aof1 where s: "sweep_entry env (clock 0) en (r, aof) = (r1, aof1)" by force
  note s1 = sweep_entry_stored [OF Cons.prems(1) s]
  then have wf1: "router_wf env r1" by blast
  from Cons.prems(2) s have h: "sweep env (\<lambda>i. clock (Suc i)) es (r1, aof1) = (r', aof')" by simp
  have r1: "fst (sweep_entry env (clock 0) en (r, None)) = r1"
    using sweep_entry_aof(1) [of env "clock 0" en r aof] s by simp
  have b: "fst (shard_evict_expired env (clock 0) ?k (shard_for_key r ?k)) \<longleftrightarrow>
      (\<exists>e. stored r ?k = Some e \<and> \<not> is_live (clock 0) e)"
    using shard_evict_entry [of env "clock 0" ?k "shard_for_key r ?k"] by (metis prod.collapse stored_def)
  have mono: "stored r1 k = None \<Longrightarrow> stored r' k = None" for k using sweep_stored [OF wf1 h, of k] by auto
  from Cons.IH [OF wf1 h] s1 mono show ?case by (auto simp: Let_def r1 b split: if_splits)
qed auto

section \<open>Turning the wheel\<close>

lemma sweeper_loop_snoc:
  "sweeper_loop env clock (Suc n) st = advance_tick env (clock n) (sweeper_loop env clock n st)"
proof (induction n arbitrary: clock st)
  case (Suc n)
  have "sweeper_loop env clock (Suc (Suc n)) st =
      sweeper_loop env (\<lambda>m. clock (Suc m)) (Suc n) (advance_tick env (clock 0) st)"
    by (rule sweeper_loop.simps(2))
  also have "\<dots> = advance_tick env (clock (Suc n))
      (sweeper_loop env (\<lambda>m. clock (Suc m)) n (advance_tick env (clock 0) st))" by (rule Suc.IH)
  finally show ?case by simp
qed simp

lemma advance_tick_cases:
  assumes "advance_tick env clock (w, r, aof) = (w', r', aof')"
  shows "sweep env clock (buckets w (unat (current_tick w) mod WHEEL_SIZE)) (r, aof) = (r', aof')"
    and "current_tick w' = current_tick w + 1" and "start_time w' = start_time w"
    and "buckets w' = (buckets w)(unat (current_tick w) mod WHEEL_SIZE := [])"
  using assms by (auto simp: advance_tick_def take_bucket_def Let_def)

text \<open>After \<open>n\<close> passes: the tick has advanced by \<open>n\<close>, and a bucket that was not due is untouched.\<close>

lemma sweeper_loop_state:
  assumes "router_wf env r" and "unat (current_tick w) + n < 2 ^ 64"
    and "sweeper_loop env clock n (w, r, aof) = (w', r', aof')"
  shows "router_wf env r' \<and> unat (current_tick w') = unat (current_tick w) + n \<and>
    (stored r' k = stored r k \<or> stored r' k = None) \<and>
    ((\<forall>m < n. (unat (current_tick w) + m) mod WHEEL_SIZE \<noteq> b) \<longrightarrow> buckets w' b = buckets w b)"
  using assms(2,3)
proof (induction n arbitrary: w' r' aof')
  case (Suc n)
  obtain w1 r1 aof1 where s: "sweeper_loop env clock n (w, r, aof) = (w1, r1, aof1)" by (metis surj_pair)
  with Suc.prems have a: "advance_tick env (clock n) (w1, r1, aof1) = (w', r', aof')"
    by (metis sweeper_loop_snoc)
  note a1 = advance_tick_cases [OF a]
  from Suc.IH [OF _ s] Suc.prems(1) have ih: "router_wf env r1"
    "unat (current_tick w1) = unat (current_tick w) + n" "stored r1 k = stored r k \<or> stored r1 k = None"
    "(\<forall>m < n. (unat (current_tick w) + m) mod WHEEL_SIZE \<noteq> b) \<longrightarrow> buckets w1 b = buckets w b"
    by auto
  have "unat (current_tick w') = unat (current_tick w) + Suc n"
    using unat_Suc_64 [of "current_tick w1"] ih(2) Suc.prems(1) a1(2) by simp
  moreover have "buckets w' b = buckets w b" if "\<forall>m < Suc n. (unat (current_tick w) + m) mod WHEEL_SIZE \<noteq> b"
  proof -
    have "(unat (current_tick w) + n) mod WHEEL_SIZE \<noteq> b" using that by simp
    moreover have "\<forall>m < n. (unat (current_tick w) + m) mod WHEEL_SIZE \<noteq> b" using that by simp
    ultimately show ?thesis using ih(4) a1(4) by (simp add: ih(2))
  qed
  moreover have "router_wf env r'" "stored r' k = stored r1 k \<or> stored r' k = None"
    using sweep_stored [OF ih(1) a1(1), of k] by auto
  ultimately show ?case using ih(3) by auto
qed (use assms(1) in simp)

lemma mod_wheel_distinct:
  assumes "a < b" and "b < a + WHEEL_SIZE"
  shows "a mod WHEEL_SIZE \<noteq> b mod WHEEL_SIZE"
proof
  assume "a mod WHEEL_SIZE = b mod WHEEL_SIZE"
  then have "WHEEL_SIZE dvd b - a" using assms(1) by (metis less_imp_le mod_eq_dvd_iff_nat)
  with assms show False using nat_dvd_not_less [of "b - a" WHEEL_SIZE] by simp
qed

lemma schedule_simps [simp]:
  "current_tick (schedule k i x w) = current_tick w" "start_time (schedule k i x w) = start_time w"
  by (simp_all add: schedule_def Let_def)

lemma schedule_bucket: "k \<in> entry_key ` set (buckets (schedule k i x w) (time_to_bucket x w))"
  by (simp add: schedule_def Let_def)

lemma demo_list_router_stored:
  "stored (demo_list_router ttl) k = (if k = ''l'' then Some (mk_value 0 (VList [''a'']) ttl) else None)"
proof -
  have "stored demo_router k = None"
  proof -
    have "unat (shard_index demo_router k) < 2"
      using shard_index_in_range [OF demo_router_wf, of k] by (simp add: demo_router_def)
    then show ?thesis
      by (auto simp: stored_def shard_for_key_def demo_router_def less_2_cases_iff mk_shard_def)
  qed
  then show ?thesis
    by (auto simp: stored_def demo_list_router_def shard_for_key_put_shard [OF demo_router_wf]
        demo_list_shard_def)
qed

lemma demo_list_router_created: "stored (demo_list_router ttl) k = Some e \<Longrightarrow> created_at e = 0"
  by (auto simp: demo_list_router_stored split: if_splits)

section \<open>Properties\<close>

text \<open>
  C28.  A tick of the wheel is invisible: at every time from the last clock reading of the tick on,
  every key has the same visible entry as if the tick had not happened, so no reply changes.
\<close>

theorem tick_invisible:
  assumes "router_wf env r" and "advance_tick env clock (w, r, aof) = (w', r', aof')"
    and "\<forall>k e i. stored r k = Some e \<longrightarrow> created_at e \<le> clock i" and "\<forall>i. clock i \<le> later"
  shows "visible_entry_at later k r' = visible_entry_at later k r \<and> router_wf env r'"
proof -
  note s = sweep_stored [OF assms(1) advance_tick_cases(1) [OF assms(2)], of k]
  have dead: "\<not> is_live later e" if "stored r k = Some e" "\<not> is_live (clock i) e" for e i
    using that assms(3,4) is_expired_mono [of e "clock i" later] by (auto simp: is_live_def)
  have "visible_entry_at later k x = Option.bind (stored x k) (\<lambda>e. if is_live later e then Some e else None)"
    for x :: "'a shard_router" by (simp add: visible_entry_at_def visible_def stored_def)
  with s dead show ?thesis by auto
qed

theorem tick_invisible_witness:
  "visible_entry_at 9000000000 ''l''
     (fst (snd (advance_tick demo_env (\<lambda>i. 9000000000)
        (schedule ''l'' 0 5000000000 (mk_timing_wheel 0), demo_list_router 5, None)))) = None"
proof -
  let ?x = "advance_tick demo_env (\<lambda>i. 9000000000)
    (schedule ''l'' 0 5000000000 (mk_timing_wheel 0), demo_list_router 5, None)"
  have "?x = (fst ?x, fst (snd ?x), snd (snd ?x))" by simp
  from tick_invisible [OF demo_list_router_wf this, of 9000000000 "''l''"] demo_list_router_created
  show ?thesis
    by (simp add: visible_entry_at_def demo_list_router_shard demo_list_shard_def visible_def
        is_live_def is_expired_iff ns_per_s_def)
qed

text \<open>
  A tick logs exactly what it erases: one DEL line for each key that leaves the store, no key
  twice, appended to the log in the order of the evictions.
\<close>

theorem tick_logged:
  assumes "router_wf env r" and "advance_tick env clock (w, r, aof) = (w', r', aof')"
  shows "\<exists>ks. distinct ks \<and> set ks = {k. stored r k \<noteq> None \<and> stored r' k = None} \<and>
    aof' = fold (\<lambda>k. log_write (DelCommand k)) ks aof"
proof -
  note s = advance_tick_cases(1) [OF assms(2)]
  from sweep_swept [OF assms(1) s] sweep_aof s show ?thesis by (metis snd_conv)
qed

theorem tick_logged_witness:
  "\<exists>ks. distinct ks \<and> snd (snd (advance_tick demo_env (\<lambda>i. 9000000000)
     (schedule ''l'' 0 0 (mk_timing_wheel 0), demo_list_router 5, None)))
     = fold (\<lambda>k. log_write (DelCommand k)) ks None"
proof -
  let ?x = "advance_tick demo_env (\<lambda>i. 9000000000)
    (schedule ''l'' 0 0 (mk_timing_wheel 0), demo_list_router 5, None)"
  have "?x = (fst ?x, fst (snd ?x), snd (snd ?x))" by simp
  from tick_logged [OF demo_list_router_wf this] show ?thesis by blast
qed

text \<open>
  C29.  A key is erased on time: if its entry's expiration lies less than one turn ahead of the wheel
  and the key was scheduled for it, then once the sweeper has made the pass of that second (each
  pass follows a sleep of one second) the entry is gone from the map, without any access to it.
\<close>

theorem wheel_evicts:
  assumes "router_wf env r" and "stored r k = Some e" and "0 \<le> ttl_seconds e"
    and "expiration_time e = Some expiry"
    and "duration_cast_seconds (expiry - start_time w) = int d" and "start_time w \<le> expiry"
    and "unat (current_tick w) \<le> d" and "d < unat (current_tick w) + WHEEL_SIZE" and "Suc d < 2 ^ 64"
    and "\<forall>m i. start_time w + int (unat (current_tick w) + m + 1) * ns_per_s \<le> clock m i"
    and "sweeper_loop env clock (Suc (d - unat (current_tick w))) (schedule k sidx expiry w, r, aof) = (w', r', aof')"
  shows "stored r' k = None"
proof -
  let ?T = "unat (current_tick w)" and ?w = "schedule k sidx expiry w"
  let ?n = "d - unat (current_tick w)"
  obtain w1 r1 aof1 where s: "sweeper_loop env clock ?n (?w, r, aof) = (w1, r1, aof1)" by (metis surj_pair)
  with assms(11) have a: "advance_tick env (clock ?n) (w1, r1, aof1) = (w', r', aof')"
    by (metis sweeper_loop_snoc)
  have b: "time_to_bucket expiry w = d mod WHEEL_SIZE" by (simp add: time_to_bucket_def assms(5) Let_def)
  have "(?T + m) mod WHEEL_SIZE \<noteq> d mod WHEEL_SIZE" if "m < ?n" for m
    using that assms(7,8) by (intro mod_wheel_distinct) auto
  with sweeper_loop_state [OF assms(1) _ s, of k "d mod WHEEL_SIZE"] assms(7,9)
  have w1: "router_wf env r1" "unat (current_tick w1) = d" "stored r1 k = stored r k \<or> stored r1 k = None"
    and "buckets w1 (d mod WHEEL_SIZE) = buckets ?w (d mod WHEEL_SIZE)" by auto
  then have "k \<in> entry_key ` set (buckets w1 (unat (current_tick w1) mod WHEEL_SIZE))"
    using schedule_bucket [of k sidx expiry w] by (simp add: b)
  moreover have "\<not> is_live (clock ?n i) e" for i
  proof -
    have x: "expiry = created_at e + ttl_seconds e * ns_per_s"
      using assms(3,4) by (auto simp: expiration_time_def split: if_splits)
    have "int d = (expiry - start_time w) div ns_per_s" using assms(5,6) by (simp add: duration_cast_nonneg)
    then have "expiry < start_time w + int (d + 1) * ns_per_s" unfolding ns_per_s_def by arith
    moreover have "start_time w + int (?T + ?n + 1) * ns_per_s \<le> clock ?n i" using assms(10) by blast
    ultimately have "expiry \<le> clock ?n i" using assms(7) by simp
    moreover have "0 \<le> ttl_seconds e * ns_per_s" using assms(3) by (simp add: ns_per_s_def)
    ultimately show ?thesis using assms(3) x by (simp add: is_live_def is_expired_iff)
  qed
  ultimately show ?thesis
    using sweep_removes [OF w1(1) advance_tick_cases(1) [OF a]] w1(3) assms(2) by auto
qed

theorem wheel_evicts_witness:
  "stored (fst (snd (sweeper_loop demo_env (\<lambda>m i. int (m + 1) * 1000000000) 6
     (schedule ''l'' 0 5000000000 (mk_timing_wheel 0), demo_list_router 5, None)))) ''l'' = None"
proof -
  let ?x = "sweeper_loop demo_env (\<lambda>m i. int (m + 1) * 1000000000) (Suc (5 - unat (current_tick (mk_timing_wheel 0))))
    (schedule ''l'' 0 5000000000 (mk_timing_wheel 0), demo_list_router 5, None)"
  have x: "?x = (fst ?x, fst (snd ?x), snd (snd ?x))" by simp
  have s: "stored (demo_list_router 5) ''l'' = Some (mk_value 0 (VList [''a'']) 5)"
    by (simp add: demo_list_router_stored)
  have "stored (fst (snd ?x)) ''l'' = None"
    by (rule wheel_evicts [OF demo_list_router_wf s _ _ _ _ _ _ _ _ x])
      (simp_all add: expiration_time_def ns_per_s_def in_int64_def mk_timing_wheel_def WHEEL_SIZE_def
        duration_cast_seconds_def)
  then show ?thesis by (simp add: mk_timing_wheel_def eval_nat_numeral)
qed

text \<open>
  A full turn ahead is one turn too far.  A key scheduled for the default time to live of 86400
  seconds falls into the bucket that is due next: the next tick takes it out while its entry is
  still alive, erases nothing and forgets the key, which is then never swept.
\<close>

theorem default_ttl_dropped:
  assumes "duration_cast_seconds (expiry - start_time w) = int (unat (current_tick w) + WHEEL_SIZE)"
    and "buckets w (unat (current_tick w) mod WHEEL_SIZE) = []"
    and "stored r k = Some e" and "is_live (clock 0) e"
  shows "advance_tick env clock (schedule k sidx expiry w, r, aof) =
    (w\<lparr>current_tick := current_tick w + 1\<rparr>, r, aof)"
proof -
  let ?b = "unat (current_tick w) mod WHEEL_SIZE"
  have b: "time_to_bucket expiry w = ?b" unfolding time_to_bucket_def Let_def assms(1)
    by (simp only: of_nat_less_0_iff if_False nat_int mod_add_self2)
  have "shard_evict_expired env (clock 0) k (shard_for_key r k) = (False, shard_for_key r k)"
    using assms(3,4) by (auto simp: shard_evict_expired_def stored_def is_live_def)
  then have "sweep_entry env (clock 0) \<lparr>entry_key = k, entry_shard_index = 0\<rparr> (r, aof) = (r, aof)"
    by (simp add: sweep_entry_def Let_def put_shard_def shard_for_key_def)
  moreover have "(buckets w)(?b := []) = buckets w" using assms(2) by auto
  ultimately show ?thesis
    by (simp add: advance_tick_def take_bucket_def schedule_def Let_def b assms(2))
qed

theorem default_ttl_dropped_witness:
  "advance_tick demo_env (\<lambda>i. 1000000000)
     (schedule ''l'' 0 86400000000000 (mk_timing_wheel 0), demo_list_router 86400, None)
   = (mk_timing_wheel 0\<lparr>current_tick := 1\<rparr>, demo_list_router 86400, None)"
proof -
  have "stored (demo_list_router 86400) ''l'' = Some (mk_value 0 (VList [''a'']) 86400)"
    by (simp add: demo_list_router_stored)
  from default_ttl_dropped [OF _ _ this, of 86400000000000 "mk_timing_wheel 0" "\<lambda>i. 1000000000"]
  show ?thesis
    by (simp add: mk_timing_wheel_def duration_cast_seconds_def WHEEL_SIZE_def ns_per_s_def is_live_def
        is_expired_iff)
qed

end
