(* ===== verification/KV_Boot.thy ===== *)
theory KV_Boot
  imports KV_System KV_Timing_Wheel
begin

text \<open>
  \<^verbatim>\<open>ServerBuilder::build_and_run\<close>: the start of the server from its configuration and the log file, and
  the life of the server up to its shutdown.  The main theorem composes the router, the commands,
  the worker pool, the logger and the replay: with one worker thread, a server that has been shut
  down and is started again has the content it had before.
\<close>

section \<open>Starting the server\<close>

datatype boot_error = RouterFailed startup_error | LogFailed aof_error

definition file_contents :: "string option \<Rightarrow> string" where
  "file_contents aof_file = (case aof_file of None \<Rightarrow> [] | Some contents \<Rightarrow> contents)"

text \<open>
  \<open>aof_file\<close> is the log file, if there is one that can be read; \<open>can_open\<close> tells whether it can be
  opened for appending; \<open>now\<close> is the clock reading of the timing wheel.  The results are the number of
  replayed commands, the wheel and the running server.
\<close>

definition start_server ::
  "'u pmr_env \<Rightarrow> bool \<Rightarrow> (nat \<Rightarrow> time_point) \<Rightarrow> string option \<Rightarrow> bool \<Rightarrow> time_point \<Rightarrow> server_builder
     \<Rightarrow> boot_error + nat \<times> timing_wheel \<times> 'u server" where
  "start_server env ndebug clock aof_file can_open now b =
     (case mk_shard_router env ndebug (max_memory b) (builder_shard_count b) of
        Inl e \<Rightarrow> Inl (RouterFailed e)
      | Inr router \<Rightarrow>
          (case replay env clock aof_file (router, mk_aof_logger (aof_path b) (file_contents aof_file)) of
             (replayed, router', aof) \<Rightarrow>
               (case aof_start can_open aof of
                  Inl e \<Rightarrow> Inl (LogFailed e)
                | Inr aof' \<Rightarrow>
                    Inr (replayed, wheel_start now (mk_timing_wheel now),
                         server_start (port b) (unat (worker_threads b)) router' (Some aof')))))"

text \<open>The configuration of \<^verbatim>\<open>main\<close>; \<open>concurrency\<close> is what \<^verbatim>\<open>std::thread::hardware_concurrency\<close> returns.\<close>

definition main_builder :: "size_t \<Rightarrow> builder_error + server_builder" where
  "main_builder concurrency =
     (case setMaxMemoryLimit ''1GB'' (setWorkerThreads concurrency (setPort 8080 mk_server_builder)) of
        Inl e \<Rightarrow> Inl e
      | Inr b \<Rightarrow> Inr (setAofPath ''appendonly.aof'' (setShardCount 64 b)))"

lemma main_builder_value:
  "main_builder concurrency = Inr \<lparr>port = 8080, worker_threads = concurrency, max_memory = 2 ^ 30,
     builder_shard_count = 64, aof_path = ''appendonly.aof''\<rparr>"
proof -
  have "to_string_nat 1 = ''1''" by (simp add: to_string_nat.simps digit_char_def char_of_def bit_Suc_0_iff)
  moreover have "to_upper ''GB'' = ''GB''" by (simp add: to_upper_def toupper_def Let_def char_of_def bit_Suc_0_iff)
  ultimately have "parse_memory_limit ''1GB'' = Inr (2 ^ 30)" using memory_limit_GB [of 1] by fastforce
  then show ?thesis
    by (simp add: main_builder_def setMaxMemoryLimit_def setWorkerThreads_def setPort_def mk_server_builder_def
        setAofPath_def setShardCount_def)
qed

text \<open>So the program's own router is always built: 64 is a power of two.\<close>

lemma main_router_built:
  "main_builder concurrency = Inr b \<Longrightarrow> \<exists>r. mk_shard_router env ndebug (max_memory b) (builder_shard_count b) = Inr r"
  by (auto simp: main_builder_value mk_shard_router_def Let_def)

section \<open>The life of a server\<close>

text \<open>A pool that has been told to stop stays so, and the reactor queues nothing more in it.\<close>

definition pool_kept :: "worker_pool \<Rightarrow> worker_pool \<Rightarrow> bool" where
  "pool_kept p p' \<longleftrightarrow> (\<not> pool_running p \<longrightarrow> \<not> pool_running p' \<and> pool_queue p' = pool_queue p)"

lemma pool_kept_process_all: "pool_kept p (process_all c ip seq ls p)"
proof (induction ls arbitrary: seq p)
  case (Cons l ls)
  have "pool_kept p (process c l seq ip p)" by (auto simp: pool_kept_def process_cases submit_def split: option.splits)
  with Cons.IH [of "process c l seq ip p" "seq + 1"] show ?case by (auto simp: pool_kept_def)
qed (simp add: pool_kept_def)

lemma pool_kept_read:
  assumes "handle_read c received (r, p) = (r', p')"
  shows "pool_kept p p'"
proof (cases "p' = p")
  case False
  with assms obtain st paused st' where "read_lines c st p = (paused, st', p')"
    by (auto simp: handle_read_def split: option.splits prod.splits)
  from read_lines_effect [OF this] obtain ip seq ls where "p' = process_all c ip seq ls p"
    by (auto simp: read_effect_def)
  with pool_kept_process_all show ?thesis by simp
qed (simp add: pool_kept_def)

text \<open>What every step does to the workers' side.\<close>

lemma server_step_back_end:
  assumes "server_step env s t"
  obtains (worker) "worker_step env (back_end s) (back_end t)" "log_flusher t = log_flusher s" "log_shutter t = log_shutter s"
  | (pool) p where "back_end t = set_pool p (back_end s)" "pool_kept (wpool (back_end s)) p" "log_flusher t = log_flusher s" "log_shutter t = log_shutter s"
  | (log) l u where "engine_aof (back_end s) = Some l" "log_thread_step (aof_view s l) u"
      "shutter u \<noteq> NotShut \<Longrightarrow> \<forall>w \<in> set (workers (back_end s)). w = Exited"
      "back_end t = set_logger (logger u) (back_end s)" "log_flusher t = flusher u" "log_shutter t = shutter u"
  using assms
proof cases
  case (accept c ip)
  then show ?thesis using pool [of "wpool (back_end s)"] by (simp add: set_pool_def pool_kept_def)
next
  case (send c st sent)
  then show ?thesis using pool [of "wpool (back_end s)"] by (simp add: set_pool_def pool_kept_def)
next
  case (hangup c st)
  then show ?thesis using pool [of "wpool (back_end s)"] by (simp add: set_pool_def pool_kept_def)
next
  case finish
  then show ?thesis using pool [of "wpool (back_end s)"] by (simp add: set_pool_def pool_kept_def)
next
  case stop
  then show ?thesis using pool [of "wpool (back_end s)"] by (simp add: set_pool_def pool_kept_def)
next
  case (read c st received r p)
  then show ?thesis using pool [of p] pool_kept_read by simp
next
  case (poll r p)
  then show ?thesis using pool [of p] prepare_poll_result [OF poll(3)] by (simp add: pool_kept_def)
next
  case (log_thread l u)
  then show ?thesis using log [of l u] by simp
next
  case shutdown
  then show ?thesis using pool [of "(wpool (back_end s))\<lparr>pool_running := False\<rparr>"] by (simp add: pool_kept_def)
qed (use worker in auto)

text \<open>The store is what the executed commands make of the initial one; with one worker they are logged in order.\<close>

definition history_inv :: "'u pmr_env \<Rightarrow> 'u shard_router \<Rightarrow> 'u pool_system \<Rightarrow> bool" where
  "history_inv env r0 b \<longleftrightarrow>
     engine_router b = run_router env (executed b) r0 \<and> applied b = effective env (executed b) r0 \<and>
     log_balanced b \<and>
     (length (workers b) = 1 \<longrightarrow> applied b = logged b @ worker_to_log (workers b ! 0))"

lemma log_balanced_simps [simp]:
  "log_balanced (set_pool p b) = log_balanced b" "log_balanced (set_logger l b) = log_balanced b"
  by (simp_all add: log_balanced_def)

lemma worker_step_history:
  assumes "worker_step env b b'" and "history_inv env r0 b"
  shows "history_inv env r0 b'"
  using assms worker_step_balanced [OF assms(1)]
  by (induction rule: worker_step.induct) (auto simp: history_inv_def run_router_snoc effective_snoc less_Suc_eq)

definition logging_inv :: "string \<Rightarrow> 'u server \<Rightarrow> bool" where
  "logging_inv contents s \<longleftrightarrow>
     (\<exists>l. engine_aof (back_end s) = Some l \<and> \<not> is_replaying l \<and> aof_inv contents (aof_view s l)) \<and>
     (log_shutter s \<noteq> NotShut \<longrightarrow> (\<forall>w \<in> set (workers (back_end s)). w = Exited))"

lemma not_all_exited: "i < length ws \<Longrightarrow> ws ! i = x \<Longrightarrow> x \<noteq> Exited \<Longrightarrow> \<exists>w \<in> set ws. w \<noteq> Exited"
  by (metis nth_mem)

lemma worker_step_logging:
  assumes "worker_step env b b'" and "engine_aof b = Some l" and "\<not> is_replaying l"
  shows "(\<exists>w \<in> set (workers b). w \<noteq> Exited) \<and> ((engine_aof b' = engine_aof b \<and> logged b' = logged b) \<or>
    (\<exists>c. engine_aof b' = Some (aof_log (serialize c) l) \<and> logged b' = logged b @ [c]))"
  using assms by (induction rule: worker_step.induct) (auto intro: not_all_exited)

lemma logging_inv_step:
  assumes "logging_inv contents s" and "server_step env s t"
  shows "logging_inv contents t"
proof -
  from assms(1) obtain l where l: "engine_aof (back_end s) = Some l" "\<not> is_replaying l" "aof_inv contents (aof_view s l)"
    and ex: "log_shutter s \<noteq> NotShut \<longrightarrow> (\<forall>w \<in> set (workers (back_end s)). w = Exited)" by (auto simp: logging_inv_def)
  from assms(2) show ?thesis
  proof (cases rule: server_step_back_end)
    case worker
    note w = worker_step_logging [OF worker(1) l(1,2)]
    then have ns: "log_shutter s = NotShut" using ex by blast
    then have run: "running l" using l(3) by (simp add: aof_inv_def aof_view_def)
    show ?thesis
    proof (cases "engine_aof (back_end t) = engine_aof (back_end s) \<and> logged (back_end t) = logged (back_end s)")
      case True
      then have "aof_view t l = aof_view s l" using worker(2,3) by (simp add: aof_view_def)
      with True l ns worker(3) show ?thesis by (simp add: logging_inv_def)
    next
      case False
      with w obtain c where c: "engine_aof (back_end t) = Some (aof_log (serialize c) l)"
        "logged (back_end t) = logged (back_end s) @ [c]" by blast
      then have "aof_view t (aof_log (serialize c) l) = (aof_view s l)\<lparr>logger := aof_log (serialize c) (logger (aof_view s l)),
          accepted := (if running (logger (aof_view s l)) then accepted (aof_view s l) @ [serialize c] else accepted (aof_view s l))\<rparr>"
        using worker(2,3) run by (simp add: aof_view_def)
      then have "aof_inv contents (aof_view t (aof_log (serialize c) l))"
        using aof_log_inv [OF l(3), of "serialize c"] by simp
      with c l(2) ns worker(3) show ?thesis by (simp add: logging_inv_def)
    qed
  next
    case (pool p)
    then have "aof_view t l = aof_view s l" by (simp add: aof_view_def)
    with pool l ex show ?thesis by (simp add: logging_inv_def)
  next
    case (log l' u)
    with l have [simp]: "l' = l" by simp
    note f = log_thread_step_frame [OF log(2)]
    have "aof_view t (logger u) = u" using log(4-6) f by (simp add: aof_view_def)
    with log_thread_step_inv [OF l(3)] log(2) have "aof_inv contents (aof_view t (logger u))" by simp
    moreover have "\<not> is_replaying (logger u)" using f l(2) by (simp add: aof_view_def)
    ultimately show ?thesis using log(3-6) by (auto simp: logging_inv_def)
  qed
qed

text \<open>A worker leaves its loop only when nothing is queued and nothing will be.\<close>

definition exited_inv :: "'u pool_system \<Rightarrow> bool" where
  "exited_inv b \<longleftrightarrow> (Exited \<in> set (workers b) \<longrightarrow> \<not> pool_running (wpool b) \<and> pool_queue (wpool b) = [])"

lemma worker_step_exited: "worker_step env b b' \<Longrightarrow> exited_inv b \<Longrightarrow> exited_inv b'"
  by (induction rule: worker_step.induct) (auto simp: exited_inv_def dest: Exited_update)

definition life_inv :: "'u pmr_env \<Rightarrow> 'u shard_router \<Rightarrow> string \<Rightarrow> 'u server \<Rightarrow> bool" where
  "life_inv env r0 contents s \<longleftrightarrow> history_inv env r0 (back_end s) \<and> logging_inv contents s \<and> exited_inv (back_end s)"

lemma life_inv_step:
  assumes "life_inv env r0 contents s" and "server_step env s t"
  shows "life_inv env r0 contents t"
proof -
  have "history_inv env r0 (back_end t)"
    using assms(2)
  proof (cases rule: server_step_back_end)
    case worker
    with assms(1) show ?thesis by (simp add: life_inv_def worker_step_history)
  qed (use assms(1) in \<open>auto simp: life_inv_def history_inv_def\<close>)
  moreover have "exited_inv (back_end t)"
    using assms(2)
  proof (cases rule: server_step_back_end)
    case worker
    with assms(1) show ?thesis by (simp add: life_inv_def worker_step_exited)
  next
    case (pool p)
    with assms(1) show ?thesis by (auto simp: life_inv_def exited_inv_def pool_kept_def)
  next
    case (log l u)
    with assms(1) show ?thesis by (simp add: life_inv_def exited_inv_def)
  qed
  ultimately show ?thesis using assms logging_inv_step by (auto simp: life_inv_def)
qed

text \<open>A logger that has just been started on a file.\<close>

definition logger_started :: "string \<Rightarrow> aof_logger \<Rightarrow> bool" where
  "logger_started contents l \<longleftrightarrow>
     (\<exists>path. aof_start True (mk_aof_logger path contents) = Inr l)"

interpretation life: step_invariant
  "\<lambda>s. \<exists>q n l. logger_started contents l \<and> s = server_start q n r0 (Some l)" "server_step env" "life_inv env r0 contents"
proof unfold_locales
  fix s t :: "'a server"
  show "\<exists>q n l. logger_started contents l \<and> s = server_start q n r0 (Some l) \<Longrightarrow> life_inv env r0 contents s"
    by (auto simp: life_inv_def history_inv_def log_balanced_def logging_inv_def logger_started_def aof_start_def mk_aof_logger_def
        server_start_def pool_start_def aof_view_def aof_inv_def exited_inv_def intro!: held_nil)
  show "life_inv env r0 contents s \<Longrightarrow> server_step env s t \<Longrightarrow> life_inv env r0 contents t" by (rule life_inv_step)
qed

lemma server_step_workers: "server_step env s t \<Longrightarrow> length (workers (back_end t)) = length (workers (back_end s))"
  by (erule server_step_back_end) (simp_all add: worker_step_workers)

text \<open>A server that has been shut down: its file holds the logged commands, its store is what the executed ones made.\<close>

lemma closed_server:
  assumes "logger_started contents l0" and "(server_step env)\<^sup>*\<^sup>* (server_start q n r0 (Some l0)) s"
    and "log_shutter s = Closed" and "engine_aof (back_end s) = Some l"
  shows "written l = contents @ aof_lines (map serialize (logged (back_end s))) \<and>
    engine_router (back_end s) = run_router env (executed (back_end s)) r0 \<and>
    applied (back_end s) = effective env (executed (back_end s)) r0 \<and>
    mset (logged (back_end s)) = mset (applied (back_end s)) \<and> (\<forall>w \<in> set (workers (back_end s)). w = Exited)"
proof -
  have inv: "life_inv env r0 contents s" using life.reachable_inv [OF _ assms(2)] assms(1) by blast
  then have ex: "\<forall>w \<in> set (workers (back_end s)). w = Exited" using assms(3) by (simp add: life_inv_def logging_inv_def)
  then have "held_items worker_to_log (workers (back_end s)) = {#}" by (intro held_nil) auto
  then have "mset (logged (back_end s)) = mset (applied (back_end s))"
    using inv by (auto simp: life_inv_def history_inv_def log_balanced_def)
  moreover have "aof_inv contents (aof_view s l)" using inv assms(4) by (simp add: life_inv_def logging_inv_def)
  then have "written l = contents @ aof_lines (map serialize (logged (back_end s)))"
    using assms(3) by (auto simp: aof_inv_def aof_view_def)
  ultimately show ?thesis using inv ex by (simp add: life_inv_def history_inv_def)
qed

text \<open>With one worker these are the effective commands in order.\<close>

lemma closed_server_log:
  assumes "logger_started contents l0" and "(server_step env)\<^sup>*\<^sup>* (server_start q 1 r0 (Some l0)) s"
    and "log_shutter s = Closed" and "engine_aof (back_end s) = Some l"
  shows "written l = contents @ aof_lines (map serialize (effective env (executed (back_end s)) r0)) \<and>
    engine_router (back_end s) = run_router env (executed (back_end s)) r0"
proof -
  note c = closed_server [OF assms]
  have n: "length (workers (back_end s)) = 1"
    using assms(2) by (induction rule: rtranclp_induct) (simp_all add: server_start_def pool_start_def server_step_workers)
  then have "workers (back_end s) ! 0 \<in> set (workers (back_end s))" by simp
  then have "workers (back_end s) ! 0 = Exited" using c by blast
  moreover have "life_inv env r0 contents s" using life.reachable_inv [OF _ assms(2)] assms(1) by blast
  ultimately have "logged (back_end s) = applied (back_end s)" using n by (auto simp: life_inv_def history_inv_def)
  with c show ?thesis by simp
qed

section \<open>Shutting down\<close>

text \<open>Steps of the logger's threads.\<close>

definition log_step :: "'u pmr_env \<Rightarrow> 'u server \<Rightarrow> 'u server \<Rightarrow> bool" where
  "log_step env s t \<longleftrightarrow> server_step env s t \<and> front_end t = front_end s \<and> reactor_joined t = reactor_joined s \<and>
     wpool (back_end t) = wpool (back_end s)"

lemma log_threads_steps:
  assumes "log_thread_step\<^sup>*\<^sup>* u t" and "engine_aof (back_end s) = Some l" and "u = aof_view s l"
    and "\<forall>w \<in> set (workers (back_end s)). w = Exited"
  shows "(log_step env)\<^sup>*\<^sup>* s (s\<lparr>back_end := set_logger (logger t) (back_end s), log_flusher := flusher t, log_shutter := shutter t\<rparr>)
    \<and> accepted t = accepted u"
  using assms
proof (induction rule: rtranclp_induct)
  case base
  then have "s\<lparr>back_end := set_logger (logger u) (back_end s), log_flusher := flusher u, log_shutter := shutter u\<rparr> = s"
    by (simp add: aof_view_def set_logger_def)
  then show ?case by (metis rtranclp.rtrancl_refl)
next
  case (step t v)
  let ?s = "\<lambda>t. s\<lparr>back_end := set_logger (logger t) (back_end s), log_flusher := flusher t, log_shutter := shutter t\<rparr>"
  have acc: "accepted t = accepted u" and run: "(log_step env)\<^sup>*\<^sup>* s (?s t)" using step by blast+
  have "aof_view (?s t) (logger t) = t" using acc step.prems(2) by (simp add: aof_view_def)
  then have "log_step env (?s t) (?s v)"
    using server_step.log_thread [of "?s t" "logger t" v env] step.hyps(2) step.prems(3) by (simp add: log_step_def set_logger_def)
  with run have "(log_step env)\<^sup>*\<^sup>* s (?s v)" by (rule rtranclp.rtrancl_into_rtrancl)
  moreover have "accepted v = accepted u" using log_thread_step_frame [OF step.hyps(2)] acc by simp
  ultimately show ?case by blast
qed

lemma server_run_log_threads:
  assumes "log_thread_step\<^sup>*\<^sup>* (aof_view s l) u" and "engine_aof (back_end s) = Some l"
    and "\<forall>w \<in> set (workers (back_end s)). w = Exited"
  shows "(server_step env)\<^sup>*\<^sup>* s (s\<lparr>back_end := set_logger (logger u) (back_end s), log_flusher := flusher u, log_shutter := shutter u\<rparr>)"
proof -
  have "log_step env \<le> server_step env" by (auto simp: log_step_def)
  from rtranclp_mono [OF this] log_threads_steps [OF assms(1,2) refl assms(3), of env] show ?thesis by blast
qed

text \<open>A run keeps the invariant and the number of workers.\<close>

lemma life_inv_run:
  assumes "(server_step env)\<^sup>*\<^sup>* s t" and "life_inv env r0 contents s"
  shows "life_inv env r0 contents t \<and> length (workers (back_end t)) = length (workers (back_end s))"
  using assms by (induction rule: rtranclp_induct) (auto simp: server_step_workers intro: life_inv_step)

text \<open>
  A server whose pool has been told to stop can be brought to its end, by the workers first and then
  by the threads of the logger.
\<close>

lemma stopped_workers_exit:
  assumes "\<not> pool_running (wpool (back_end s))"
  obtains b where "(worker_step env)\<^sup>*\<^sup>* (back_end s) b" and "\<forall>w \<in> set (workers b). w = Exited"
  using pool_workers.drains [OF assms] by blast

lemma exited_server_closes:
  assumes "life_inv env r contents s" and "\<forall>w \<in> set (workers (back_end s)). w = Exited" and "workers (back_end s) \<noteq> []"
  shows "\<exists>u l. log_thread_step\<^sup>*\<^sup>* (aof_view s l) u \<and> engine_aof (back_end s) = Some l \<and> shutter u = Closed \<and>
    written (logger u) = contents @ aof_lines (map serialize (logged (back_end s))) \<and>
    mset (logged (back_end s)) = mset (applied (back_end s)) \<and> pool_queue (wpool (back_end s)) = [] \<and>
    applied (back_end s) = effective env (executed (back_end s)) r"
proof -
  from assms(1) obtain l where l: "engine_aof (back_end s) = Some l" "aof_inv contents (aof_view s l)"
    by (auto simp: life_inv_def logging_inv_def)
  obtain u where u: "log_thread_step\<^sup>*\<^sup>* (aof_view s l) u" "shutter u = Closed" using logger_shuts [OF l(2)] by blast
  let ?t = "s\<lparr>back_end := set_logger (logger u) (back_end s), log_flusher := flusher u, log_shutter := shutter u\<rparr>"
  have "(server_step env)\<^sup>*\<^sup>* s ?t" using server_run_log_threads [OF u(1) l(1)] assms(2) by simp
  from life_inv_run [OF this assms(1)] have "life_inv env r contents ?t" by blast
  then have "aof_inv contents (aof_view ?t (logger u))" by (auto simp: life_inv_def logging_inv_def)
  then have "written (logger u) = contents @ aof_lines (map serialize (logged (back_end s)))"
    using u(2) by (auto simp: aof_inv_def aof_view_def)
  moreover have "held_items worker_to_log (workers (back_end s)) = {#}" using assms(2) by (intro held_nil) auto
  then have "mset (logged (back_end s)) = mset (applied (back_end s))"
    using assms(1) by (auto simp: life_inv_def history_inv_def log_balanced_def)
  moreover have "Exited \<in> set (workers (back_end s))" using assms(2,3) by (metis list.set_intros(1) neq_Nil_conv)
  then have "pool_queue (wpool (back_end s)) = []" using assms(1) by (simp add: life_inv_def exited_inv_def)
  moreover have "applied (back_end s) = effective env (executed (back_end s)) r"
    using assms(1) by (simp add: life_inv_def history_inv_def)
  ultimately show ?thesis using u l(1) by blast
qed

lemma stopped_server_closes:
  assumes "life_inv env r contents s" and "workers (back_end s) \<noteq> []" and "\<not> pool_running (wpool (back_end s))"
  shows "\<exists>t l ws. (server_step env)\<^sup>*\<^sup>* s t \<and> log_shutter t = Closed \<and> engine_aof (back_end t) = Some l \<and>
    (\<forall>w \<in> set (workers (back_end t)). w = Exited) \<and> pool_queue (wpool (back_end t)) = [] \<and>
    written l = contents @ aof_lines (map serialize ws) \<and> mset ws = mset (applied (back_end t)) \<and>
    applied (back_end t) = effective env (executed (back_end t)) r"
proof -
  obtain b where b: "(worker_step env)\<^sup>*\<^sup>* (back_end s) b" "\<forall>w \<in> set (workers b). w = Exited"
    by (rule stopped_workers_exit [OF assms(3)])
  let ?s = "s\<lparr>back_end := b\<rparr>"
  have run: "(server_step env)\<^sup>*\<^sup>* s ?s" by (rule server_run_workers [OF b(1)])
  from life_inv_run [OF this assms(1)] have "life_inv env r contents ?s" "length (workers b) = length (workers (back_end s))"
    by simp_all
  with assms(2) b(2) have "life_inv env r contents ?s" "\<forall>w \<in> set (workers (back_end ?s)). w = Exited" "workers (back_end ?s) \<noteq> []"
    by auto
  from exited_server_closes [OF this] obtain u l where u: "log_thread_step\<^sup>*\<^sup>* (aof_view ?s l) u" "engine_aof (back_end ?s) = Some l"
    "shutter u = Closed" "written (logger u) = contents @ aof_lines (map serialize (logged b))" "mset (logged b) = mset (applied b)"
    "pool_queue (wpool b) = []" "applied b = effective env (executed b) r" by auto
  let ?t = "?s\<lparr>back_end := set_logger (logger u) b, log_flusher := flusher u, log_shutter := shutter u\<rparr>"
  have "(server_step env)\<^sup>*\<^sup>* ?s ?t" using server_run_log_threads [OF u(1,2)] b(2) by simp
  with run have "(server_step env)\<^sup>*\<^sup>* s ?t" by (rule rtranclp_trans)
  with u b(2) show ?thesis by (intro exI [of _ ?t] exI [of _ "logger u"] exI [of _ "logged b"]) simp
qed

text \<open>The reactor can always be stopped and joined, and then the pool be told to stop.\<close>

lemma server_stops:
  "\<exists>t. (server_step env)\<^sup>*\<^sup>* s t \<and> back_end t = set_pool ((wpool (back_end s))\<lparr>pool_running := False\<rparr>) (back_end s) \<and>
     log_flusher t = log_flusher s \<and> log_shutter t = log_shutter s"
proof -
  have joined: "\<exists>t. (server_step env)\<^sup>*\<^sup>* s t \<and> reactor_joined t \<and> back_end t = back_end s \<and>
      log_flusher t = log_flusher s \<and> log_shutter t = log_shutter s"
  proof (cases "reactor_joined s")
    case False
    let ?s = "s\<lparr>front_end := reactor_stop (front_end s)\<rparr>"
    have "server_step env s ?s" by (rule server_step.stop)
    moreover have "server_step env ?s (?s\<lparr>front_end := reactor_finish (front_end ?s), reactor_joined := True\<rparr>)"
      by (rule server_step.finish) (simp_all add: False reactor_stop_def)
    ultimately show ?thesis
      by (intro exI [of _ "?s\<lparr>front_end := reactor_finish (front_end ?s), reactor_joined := True\<rparr>"])
        (simp add: converse_rtranclp_into_rtranclp)
  qed auto
  then obtain t where t: "(server_step env)\<^sup>*\<^sup>* s t" "reactor_joined t" "back_end t = back_end s"
    "log_flusher t = log_flusher s" "log_shutter t = log_shutter s" by blast
  from server_step.shutdown [OF t(2), of env] t show ?thesis
    by (intro exI [of _ "t\<lparr>back_end := set_pool ((wpool (back_end t))\<lparr>pool_running := False\<rparr>) (back_end t)\<rparr>"])
      (auto intro: rtranclp.rtrancl_into_rtrancl)
qed

section \<open>The timing wheel of a started server\<close>

text \<open>
  Nothing in the server schedules a key, so the sweeper that runs beside it finds every bucket empty
  and changes neither the store nor the log; this is why the steps of the server have none for it.
\<close>

lemma empty_wheel_idle:
  "(\<And>i. buckets wl i = []) \<Longrightarrow> snd (sweeper_loop env clock n (wl, db)) = db"
proof (induction n arbitrary: clock wl)
  case (Suc n)
  obtain wl' where "advance_tick env (clock 0) (wl, db) = (wl', db)" and "\<And>i. buckets wl' i = []"
    using Suc.prems by (auto simp: advance_tick_def take_bucket_def Let_def)
  with Suc.IH show ?case by simp
qed simp

lemma started_wheel_idle:
  "snd (sweeper_loop env clock n (wheel_start now (mk_timing_wheel now'), db)) = db"
  by (rule empty_wheel_idle) (simp add: wheel_start_def mk_timing_wheel_def)

section \<open>Journals\<close>

text \<open>
  A file that holds commands: their text, with none that expires within \<open>w\<close> seconds.  It is their journal
  if they can all take effect one after the other on an empty store.
\<close>

definition command_log :: "int64_t \<Rightarrow> string \<Rightarrow> command list \<Rightarrow> bool" where
  "command_log w contents cs \<longleftrightarrow>
     contents = aof_lines (map serialize cs) \<and>
     (\<forall>c \<in> set cs. command_wf c \<and> ctrl_z \<notin> set (serialize c) \<and> command_lasting w c)"

definition journal :: "int64_t \<Rightarrow> string \<Rightarrow> command list \<Rightarrow> bool" where
  "journal w contents cs \<longleftrightarrow> command_log w contents cs \<and> admissible_all cs Map.empty"

definition journal_content :: "command list \<Rightarrow> content" where
  "journal_content cs = fold apply_write cs Map.empty"

lemma journal_empty: "journal w [] []"
  by (simp add: journal_def command_log_def)

lemma admissible_all_append:
  "admissible_all (cs @ ds) m \<longleftrightarrow> admissible_all cs m \<and> admissible_all ds (fold apply_write cs m)"
  by (induction cs arbitrary: m) auto

lemma fresh_router_empty:
  assumes "mk_shard_router env ndebug mem n = Inr r" and "router_wf env r"
  shows "router_entry r = Map.empty"
proof
  fix k
  have "shards r ! unat (shard_index r k) \<in> set (shards r)" using shard_index_in_range [OF assms(2)] by simp
  then have "data_map (shard_for_key r k) = []"
    using assms(1) by (auto simp: mk_shard_router_def mk_shard_def shard_for_key_def split: if_splits)
  then show "router_entry r k = None" by (simp add: router_entry_def shard_entry_def)
qed

text \<open>The environment of a start: enough memory, and clock readings within the window.\<close>

definition replay_fits :: "'u pmr_env \<Rightarrow> (nat \<Rightarrow> time_point) \<Rightarrow> time_point \<Rightarrow> int64_t \<Rightarrow> server_builder \<Rightarrow> command list \<Rightarrow> bool" where
  "replay_fits env clock t0 w b cs \<longleftrightarrow>
     0 < w \<and> (\<forall>i < length cs. in_window t0 w (clock i)) \<and>
     pool_bounded (resource_ops env) (max_memory b div builder_shard_count b) \<and> unat (max_memory b) < 2 ^ 63 \<and>
     (\<forall>ndebug r. mk_shard_router env ndebug (max_memory b) (builder_shard_count b) = Inr r \<longrightarrow>
        err_oom \<notin> set (fst (run_commands env (timed clock 0 cs) (r, None))))"

lemma replay_file_contents:
  assumes "command_log w (file_contents f) cs"
  shows "replay env clock f (r, aof\<lparr>is_replaying := False\<rparr>) =
    (length cs, run_router env (timed clock 0 cs) r, aof\<lparr>is_replaying := False\<rparr>)"
proof (cases f)
  case None
  with assms have "cs = []" by (cases cs) (simp_all add: command_log_def file_contents_def aof_lines_def)
  with None show ?thesis by (simp add: replay_def)
next
  case (Some contents)
  with assms have "contents = aof_lines (map serialize cs)" "\<forall>c \<in> set cs. command_wf c \<and> ctrl_z \<notin> set (serialize c)"
    by (simp_all add: command_log_def file_contents_def)
  with Some replay_log [OF this(2), of env clock r] show ?thesis by (simp add: run_router_def)
qed

text \<open>A start executes the commands of the file on an empty store.\<close>

lemma start_server_log:
  assumes "command_log w (file_contents f) cs" and "start_server env ndebug clock f can_open now b = Inr (k, wl, s)"
    and "replay_fits env clock t0 w b cs"
  obtains r0 l where "router_wf env r0" and "lasting t0 w r0" and "router_content r0 = Map.empty"
    and "run_in_window t0 w (timed clock 0 cs)"
    and "err_oom \<notin> set (fst (run_commands env (timed clock 0 cs) (r0, None)))"
    and "k = length cs" and "logger_started (file_contents f) l"
    and "s = server_start (port b) (unat (worker_threads b)) (run_router env (timed clock 0 cs) r0) (Some l)"
proof -
  let ?l = "mk_aof_logger (aof_path b) (file_contents f)" and ?h = "timed clock 0 cs"
  from assms(2) obtain r0 where r0: "mk_shard_router env ndebug (max_memory b) (builder_shard_count b) = Inr r0"
    by (auto simp: start_server_def split: sum.splits)
  have l: "?l = ?l\<lparr>is_replaying := False\<rparr>" by (simp add: mk_aof_logger_def)
  have rep: "replay env clock f (r0, ?l) = (length cs, run_router env ?h r0, ?l)"
    using replay_file_contents [OF assms(1), of env clock r0 ?l] by (simp only: flip: l)
  from assms(2) obtain l' where l': "aof_start can_open ?l = Inr l'"
    and s: "k = length cs" "s = server_start (port b) (unat (worker_threads b)) (run_router env ?h r0) (Some l')"
    by (auto simp: start_server_def r0 rep split: sum.splits)
  have wf0: "router_wf env r0" using mk_shard_router_wf [OF r0] assms(3) by (simp add: replay_fits_def)
  note e = fresh_router_empty [OF r0 wf0]
  have "lasting t0 w r0" "router_content r0 = Map.empty" by (simp_all add: lasting_def router_content_def fun_eq_iff e)
  moreover have "run_in_window t0 w ?h"
    using assms(1,3) by (auto simp: run_in_window_def timed_def set_zip command_log_def replay_fits_def)
  moreover have "err_oom \<notin> set (fst (run_commands env ?h (r0, None)))" using assms(3) r0 by (simp add: replay_fits_def)
  moreover have "logger_started (file_contents f) l'"
    using l' by (auto simp: logger_started_def aof_start_def split: if_splits)
  ultimately show ?thesis using that wf0 s by blast
qed

text \<open>Starting from a journal gives its content.\<close>

lemma start_server_journal:
  assumes "journal w (file_contents f) cs" and "start_server env ndebug clock f can_open now b = Inr (k, wl, s)"
    and "replay_fits env clock t0 w b cs"
  obtains r l where "router_wf env r" and "lasting t0 w r" and "router_content r = journal_content cs"
    and "k = length cs" and "logger_started (file_contents f) l"
    and "s = server_start (port b) (unat (worker_threads b)) r (Some l)"
proof -
  let ?h = "timed clock 0 cs"
  have log: "command_log w (file_contents f) cs" using assms(1) by (simp add: journal_def)
  obtain r0 l where r0: "router_wf env r0" "lasting t0 w r0" "router_content r0 = Map.empty" "run_in_window t0 w ?h"
    "err_oom \<notin> set (fst (run_commands env ?h (r0, None)))"
    and s: "k = length cs" "logger_started (file_contents f) l"
      "s = server_start (port b) (unat (worker_threads b)) (run_router env ?h r0) (Some l)"
    by (rule start_server_log [OF log assms(2,3)])
  have snd: "map snd ?h = cs" by (simp add: timed_def)
  obtain replies r' aof' where run: "run_commands env ?h (r0, None) = (replies, r', aof')" by (metis surj_pair)
  have "effective env ?h r0 = cs"
    using run_commands_complete [OF r0(1,2,4) run] assms(1) r0(3,5) run by (simp add: snd journal_def)
  then have "router_content (run_router env ?h r0) = journal_content cs"
    using run_router_content [OF r0(1,2,4)] by (simp add: r0(3) journal_content_def)
  then show ?thesis
    using that run_router_wf [OF r0(1)] run_router_lasting [OF r0(1,2,4)] s by blast
qed

lemma restart_store:
  assumes "journal w (file_contents f) cs"
    and "start_server env ndebug clock f can_open now b = Inr (k, wl, s0)" and "worker_threads b = 1"
    and "replay_fits env clock t0 w b cs"
    and "(server_step env)\<^sup>*\<^sup>* s0 s" and "log_shutter s = Closed" and "engine_aof (back_end s) = Some l"
    and "run_in_window t0 w (executed (back_end s))"
    and "\<forall>(now, c) \<in> set (executed (back_end s)). command_wf c \<and> ctrl_z \<notin> set (serialize c)"
    and "start_server env' ndebug' clock' (Some (written l)) can_open' now' b' = Inr (k', wl', s1)"
    and "\<forall>ds. journal w (written l) ds \<longrightarrow> replay_fits env' clock' t1 w b' ds"
  shows "\<exists>ds. journal w (written l) (cs @ ds) \<and> k = length cs \<and> k' = length (cs @ ds) \<and>
    router_content (engine_router (back_end s)) = journal_content (cs @ ds) \<and>
    router_content (engine_router (back_end s1)) = router_content (engine_router (back_end s))"
proof -
  let ?h = "executed (back_end s)"
  obtain r l0 where r: "router_wf env r" "lasting t0 w r" "router_content r = journal_content cs"
    and k: "k = length cs" and l0: "logger_started (file_contents f) l0" and s0: "s0 = server_start (port b) 1 r (Some l0)"
    using start_server_journal [OF assms(1,2,4)] assms(3) by (metis unsigned_1)
  let ?ds = "effective env ?h r"
  from assms(5) s0 have run: "(server_step env)\<^sup>*\<^sup>* (server_start (port b) 1 r (Some l0)) s" by simp
  from closed_server_log [OF l0 run assms(6,7)] run_router_content [OF r(1,2) assms(8)]
  have w: "written l = file_contents f @ aof_lines (map serialize ?ds)"
    and c: "router_content (engine_router (back_end s)) = journal_content (cs @ ?ds)" and a: "admissible_all ?ds (journal_content cs)"
    by (simp_all add: r(3) journal_content_def)
  have "\<forall>c \<in> set ?ds. command_wf c \<and> ctrl_z \<notin> set (serialize c) \<and> command_lasting w c"
    using effective_subset [of _ env ?h r] assms(8,9) by (fastforce simp: run_in_window_def)
  with assms(1) w a have j: "journal w (written l) (cs @ ?ds)"
    by (auto simp: journal_def command_log_def admissible_all_append journal_content_def)
  then have j': "journal w (file_contents (Some (written l))) (cs @ ?ds)" by (simp add: file_contents_def)
  have "replay_fits env' clock' t1 w b' (cs @ ?ds)" using assms(11) j by blast
  from start_server_journal [OF j' assms(10) this] obtain r1 l1 where
    "router_content r1 = journal_content (cs @ ?ds)" "k' = length (cs @ ?ds)"
    "s1 = server_start (port b') (unat (worker_threads b')) r1 (Some l1)" by metis
  then have "router_content (engine_router (back_end s1)) = journal_content (cs @ ?ds)" "k' = length (cs @ ?ds)"
    by (simp_all add: server_start_def pool_start_def)
  with j c k show ?thesis by (intro exI [of _ ?ds]) simp
qed

section \<open>Properties\<close>


text \<open>
  C4.  A shutdown can always be completed, and saves every write.  From any state a server can be in,
  with any number of workers and whatever is queued, the reactor can be stopped, the workers can
  leave their loops and the log can be closed.  Then no accepted command is left unexecuted, and the
  file holds the text of its old commands and of exactly the writes that took effect, each once.
\<close>

theorem server_shutdown_completes:
  assumes "logger_started contents l0" and "(server_step env)\<^sup>*\<^sup>* (server_start q n r (Some l0)) s" and "0 < n"
  shows "\<exists>t l ws. (server_step env)\<^sup>*\<^sup>* s t \<and> log_shutter t = Closed \<and> engine_aof (back_end t) = Some l \<and>
    (\<forall>w \<in> set (workers (back_end t)). w = Exited) \<and> pool_queue (wpool (back_end t)) = [] \<and>
    written l = contents @ aof_lines (map serialize ws) \<and> mset ws = mset (applied (back_end t)) \<and>
    applied (back_end t) = effective env (executed (back_end t)) r"
proof -
  obtain s' where s': "(server_step env)\<^sup>*\<^sup>* s s'" "\<not> pool_running (wpool (back_end s'))"
    using server_stops [of env s] by force
  have run: "(server_step env)\<^sup>*\<^sup>* (server_start q n r (Some l0)) s'" using assms(2) s'(1) by simp
  have "life_inv env r contents (server_start q n r (Some l0))" using life.init_inv assms(1) by blast
  from life_inv_run [OF run this] have "life_inv env r contents s'" "workers (back_end s') \<noteq> []"
    using assms(3) by (auto simp: server_start_def pool_start_def)
  from stopped_server_closes [OF this s'(2)] s'(1) show ?thesis by (meson rtranclp_trans)
qed

text \<open>
  An example life: the server of two shards and one worker is started without a file, a client
  appends to a list, and the server is shut down.  Only the workers' side of the states is spelled
  out.
\<close>

definition demo_builder :: server_builder where
  "demo_builder = mk_server_builder\<lparr>max_memory := 200, builder_shard_count := 2, worker_threads := 1\<rparr>"

definition demo_reach :: "nat pool_system \<Rightarrow> flusher_pc \<Rightarrow> shutdown_pc \<Rightarrow> bool" where
  "demo_reach b fl sh \<longleftrightarrow> (\<exists>s. (server_step demo_env)\<^sup>*\<^sup>* demo_server s \<and> back_end s = b \<and> log_flusher s = fl \<and> log_shutter s = sh)"

lemma demo_reach_work: "demo_reach b fl sh \<Longrightarrow> worker_step demo_env b b' \<Longrightarrow> demo_reach b' fl sh"
  unfolding demo_reach_def
  by (elim exE conjE, rule_tac x = "s\<lparr>back_end := b'\<rparr>" in exI)
    (auto intro: rtranclp.rtrancl_into_rtrancl server_step.work)

lemma demo_reach_shutdown:
  assumes "demo_reach b fl sh"
  shows "demo_reach (set_pool ((wpool b)\<lparr>pool_running := False\<rparr>) b) fl sh"
proof -
  from assms obtain s where s: "(server_step demo_env)\<^sup>*\<^sup>* demo_server s" "back_end s = b" "log_flusher s = fl" "log_shutter s = sh"
    by (auto simp: demo_reach_def)
  from server_stops [of demo_env s] s show ?thesis unfolding demo_reach_def by (auto intro: rtranclp_trans)
qed

lemma demo_reach_log:
  assumes "demo_reach b fl sh" and "engine_aof b = Some l"
    and "log_thread_step \<lparr>logger = l, flusher = fl, shutter = sh, accepted = map serialize (logged b)\<rparr> t"
    and "\<forall>w \<in> set (workers b). w = Exited"
  shows "demo_reach (set_logger (logger t) b) (flusher t) (shutter t)"
proof -
  from assms(1) obtain s where s: "(server_step demo_env)\<^sup>*\<^sup>* demo_server s" "back_end s = b" "log_flusher s = fl" "log_shutter s = sh"
    by (auto simp: demo_reach_def)
  have "server_step demo_env s (s\<lparr>back_end := set_logger (logger t) (back_end s), log_flusher := flusher t, log_shutter := shutter t\<rparr>)"
    using s assms(2-4) by (intro server_step.log_thread [of s l t]) (auto simp: aof_view_def)
  with s show ?thesis unfolding demo_reach_def
    by (intro exI [of _ "s\<lparr>back_end := set_logger (logger t) (back_end s), log_flusher := flusher t, log_shutter := shutter t\<rparr>"])
      (auto intro: rtranclp.rtrancl_into_rtrancl)
qed

lemma demo_reach_request: "demo_reach (demo_back [demo_push]) LoopTest NotShut"
  using demo_request by (auto simp: demo_reach_def)

text \<open>The worker executes, logs and answers the command, leaves its loop, and the log is closed.\<close>

lemma demo_life:
  "\<exists>b l. demo_reach b LoopDone Closed \<and> engine_aof b = Some l \<and> written l = aof_lines [''LPUSH l a''] \<and>
     executed b = [(0, LPushCommand ''l'' ''a'' 86400)]"
proof -
  let ?c = "LPushCommand ''l'' ''a'' 86400"
  obtain r where p: "perform demo_env 0 ?c demo_router = (int_reply 1, True, r)" using demo_lpush by blast
  define b0 where "b0 = demo_back [demo_push]"
  define b1 where "b1 = (set_worker 0 (Working demo_push) b0)\<lparr>wpool := (wpool b0)\<lparr>pool_queue := []\<rparr>, taken := taken b0 @ [demo_push]\<rparr>"
  define b2 where "b2 = (set_worker 0 (Posting demo_push (int_reply 1)) b1)\<lparr>engine_router := r, executed := executed b1 @ [(0, ?c)], served := served b1 @ [7],
    engine_aof := log_write ?c (engine_aof b1), applied := applied b1 @ [?c], logged := logged b1 @ [?c]\<rparr>"
  define b3 where "b3 = (set_worker 0 Idle b2)\<lparr>wpool := post_result 7 0 (int_reply 1) (wpool b2)\<rparr>"
  define b4 where "b4 = set_pool ((wpool b3)\<lparr>pool_running := False\<rparr>) b3"
  define b5 where "b5 = set_worker 0 Exited b4"
  have w0: "workers b0 = [Idle]" by (simp add: b0_def pool_start_def)
  have w1: "workers b1 = [Working demo_push]" and a1: "engine_aof b1 = Some (demo_logger [])" and r1: "engine_router b1 = demo_router"
    by (simp_all add: b1_def w0) (simp_all add: b0_def pool_start_def)
  have w2: "workers b2 = [Posting demo_push (int_reply 1)]" by (simp add: b2_def w1)
  have w3: "workers b3 = [Idle]" by (simp add: b3_def w2)
  have "demo_reach b0 LoopTest NotShut" unfolding b0_def by (rule demo_reach_request)
  moreover have "worker_step demo_env b0 b1" unfolding b1_def by (rule worker_step.take) (simp_all add: w0, simp add: b0_def)
  ultimately have "demo_reach b1 LoopTest NotShut" by (rule demo_reach_work)
  moreover have "worker_step demo_env b1 b2"
    using worker_step.exec_locked [of 0 b1 demo_push demo_env 0 "int_reply 1" True r] p
    by (simp add: w1 r1 b2_def del: perform.simps)
  ultimately have "demo_reach b2 LoopTest NotShut" by (rule demo_reach_work)
  moreover have "worker_step demo_env b2 b3"
    using worker_step.post [of 0 b2 demo_push "int_reply 1" demo_env] by (simp add: w2 b3_def)
  ultimately have "demo_reach b3 LoopTest NotShut" by (rule demo_reach_work)
  then have "demo_reach b4 LoopTest NotShut" unfolding b4_def by (rule demo_reach_shutdown)
  moreover have "worker_step demo_env b4 b5"
    unfolding b5_def by (rule worker_step.quit) (simp_all add: b4_def w3, simp_all add: b3_def b2_def b1_def b0_def)
  ultimately have d5: "demo_reach b5 LoopTest NotShut" by (rule demo_reach_work)
  let ?l = "demo_logger [''LPUSH l a'']" and ?off = "(demo_logger [''LPUSH l a''])\<lparr>running := False\<rparr>"
  let ?acc = "map serialize (logged b5)"
  have a5: "engine_aof b5 = Some ?l"
    by (simp add: b5_def b4_def b3_def b2_def a1) (simp add: demo_logger_def mk_aof_logger_def log_write_def aof_log_def)
  have w5: "\<forall>w \<in> set (workers b5). w = Exited" by (simp add: b5_def b4_def w3)
  have e5: "executed b5 = [(0, ?c)]" by (simp add: b5_def b4_def b3_def b2_def b1_def b0_def pool_start_def)
  have "log_thread_step \<lparr>logger = ?l, flusher = LoopTest, shutter = NotShut, accepted = ?acc\<rparr>
      \<lparr>logger = ?off, flusher = LoopTest, shutter = Joining, accepted = ?acc\<rparr>"
    using log_thread_step.shut [of "\<lparr>logger = ?l, flusher = LoopTest, shutter = NotShut, accepted = ?acc\<rparr>"]
    by (simp add: demo_logger_def)
  from demo_reach_log [OF d5 a5 this w5] have d6: "demo_reach (set_logger ?off b5) LoopTest Joining" by simp
  have "log_thread_step \<lparr>logger = ?off, flusher = LoopTest, shutter = Joining, accepted = ?acc\<rparr>
      \<lparr>logger = ?off, flusher = LoopDone, shutter = Joining, accepted = ?acc\<rparr>"
    using log_thread_step.loop_off [of "\<lparr>logger = ?off, flusher = LoopTest, shutter = Joining, accepted = ?acc\<rparr>"] by simp
  with demo_reach_log [OF d6, of ?off] w5 have d7: "demo_reach (set_logger ?off (set_logger ?off b5)) LoopDone Joining" by force
  have "log_thread_step \<lparr>logger = ?off, flusher = LoopDone, shutter = Joining, accepted = ?acc\<rparr>
      \<lparr>logger = aof_flush ?off, flusher = LoopDone, shutter = Flushed, accepted = ?acc\<rparr>"
    using log_thread_step.join [of "\<lparr>logger = ?off, flusher = LoopDone, shutter = Joining, accepted = ?acc\<rparr>"] by simp
  with demo_reach_log [OF d7, of ?off] w5
  have d8: "demo_reach (set_logger (aof_flush ?off) (set_logger ?off (set_logger ?off b5))) LoopDone Flushed" by force
  let ?b8 = "set_logger (aof_flush ?off) (set_logger ?off (set_logger ?off b5))"
  let ?fin = "(aof_flush ?off)\<lparr>file_open := False\<rparr>"
  have "log_thread_step \<lparr>logger = aof_flush ?off, flusher = LoopDone, shutter = Flushed, accepted = ?acc\<rparr>
      \<lparr>logger = ?fin, flusher = LoopDone, shutter = Closed, accepted = ?acc\<rparr>"
    using log_thread_step.close [of "\<lparr>logger = aof_flush ?off, flusher = LoopDone, shutter = Flushed, accepted = ?acc\<rparr>"] by simp
  with demo_reach_log [OF d8, of "aof_flush ?off"] w5 have "demo_reach (set_logger ?fin ?b8) LoopDone Closed" by force
  moreover have "written ?fin = aof_lines [''LPUSH l a'']"
    by (simp add: aof_flush_def demo_logger_def mk_aof_logger_def)
  ultimately show ?thesis using e5 by (intro exI [of _ "set_logger ?fin ?b8"] exI [of _ ?fin]) simp
qed

theorem server_shutdown_completes_witness:
  "\<exists>(t :: nat server) l ws. log_shutter t = Closed \<and> engine_aof (back_end t) = Some l \<and>
     pool_queue (wpool (back_end t)) = [] \<and> written l = aof_lines (map serialize ws) \<and> mset ws = mset (applied (back_end t))"
proof -
  have l: "logger_started [] (demo_logger [])"
    by (auto simp: logger_started_def aof_start_def demo_logger_def mk_aof_logger_def)
  show ?thesis
    using server_shutdown_completes [OF l rtranclp.rtrancl_refl, where n = 1 and env = demo_env and q = 8 and r = demo_router]
    by fastforce
qed

text \<open>Starting the example server again from the file.\<close>

abbreviation demo_file :: string where
  "demo_file \<equiv> aof_lines [''LPUSH l a'']"

abbreviation demo_command :: command where
  "demo_command \<equiv> LPushCommand ''l'' ''a'' 86400"

lemma demo_fits:
  assumes "ds \<in> {[], [demo_command]}" and "\<forall>i. clock i = 0 \<or> clock i = 7"
  shows "replay_fits demo_env clock 0 86400 demo_builder ds"
proof -
  have "pool_bounded (resource_ops demo_env) 100"
    using demo_env_wf by (simp add: shard_wf_def capacity_ok_def mk_shard_def mk_pmr_arena_def mk_tracking_resource_def)
  moreover obtain r where "perform demo_env (clock 0) demo_command demo_router = (int_reply 1, True, r)" using demo_lpush by blast
  then have "err_oom \<notin> set (fst (run_commands demo_env (timed clock 0 ds) (demo_router, None)))"
    using assms(1) by (auto simp: execute_def int_reply_def err_oom_def simp del: perform.simps)
  moreover have "mk_shard_router demo_env ndebug 200 2 = Inr demo_router" for ndebug
    using demo_router_built by (simp add: mk_shard_router_def split: if_splits)
  moreover have "in_window 0 86400 (clock i)" for i
    using assms(2) by (auto simp: in_window_def ns_per_s_def dest!: spec [of _ i])
  ultimately show ?thesis by (simp add: replay_fits_def demo_builder_def)
qed

lemma demo_log:
  assumes "command_log 86400 demo_file ds"
  shows "ds = [demo_command]"
proof -
  have wf: "\<forall>c \<in> set ds. command_wf c" and f: "demo_file = aof_lines (map serialize ds)"
    using assms by (simp_all add: command_log_def)
  have "getlines (aof_lines (map serialize ds)) = map serialize ds"
    unfolding aof_lines_def using wf newline_not_in_serialize by (intro getlines_concat) auto
  moreover have "getlines demo_file = [''LPUSH l a'']" unfolding aof_lines_def by (intro getlines_concat) simp
  ultimately have "map serialize ds = [serialize demo_command]" unfolding f by simp
  then obtain c where c: "ds = [c]" "serialize c = serialize demo_command" by auto
  moreover have "command_wf demo_command" by (simp add: is_token_def is_space_def default_ttl_def)
  ultimately have "c = demo_command" using wf parse_line_serialize by (metis list.set_intros(1) option.inject)
  with c show ?thesis by simp
qed

lemma demo_boot:
  "start_server demo_env False (\<lambda>i. 0) None True 0 demo_builder = Inr (0, wheel_start 0 (mk_timing_wheel 0), demo_server)"
  by (simp add: start_server_def demo_builder_def mk_server_builder_def demo_router_built replay_def file_contents_def
      aof_start_def demo_logger_def mk_aof_logger_def)

lemma demo_reboot:
  obtains k wl s1 where "start_server demo_env False (\<lambda>i. 7) (Some demo_file) True 0 demo_builder = Inr (k, wl, s1)"
proof -
  obtain x where "start_server demo_env False (\<lambda>i. 7) (Some demo_file) True 0 demo_builder = Inr x"
    by (cases "start_server demo_env False (\<lambda>i. 7) (Some demo_file) True 0 demo_builder")
      (auto simp: start_server_def demo_builder_def demo_router_built aof_start_def split: prod.splits)
  with that show thesis by (cases x) simp
qed

lemma demo_closed:
  obtains s l where "(server_step demo_env)\<^sup>*\<^sup>* demo_server s" and "log_shutter s = Closed"
    and "engine_aof (back_end s) = Some l" and "written l = demo_file" and "executed (back_end s) = [(0, demo_command)]"
  using demo_life by (auto simp: demo_reach_def)

lemmas demo_window = run_in_window_def in_window_def ns_per_s_def is_token_def is_space_def default_ttl_def


end
