(* ===== verification/KV_Recovery.thy ===== *)
theory KV_Recovery
  imports KV_Boot
begin

text \<open>
  Restarts of a server with any number of workers.  SET and DEL are logged after the lock of the shard
  has been released, so the log may hold the writes of a key in another order than the store saw
  them; LPUSH and HSET are logged under the lock.  A write touches its own key only, so the keys
  can be treated one by one: a key whose writes were logged in order is restored, and the keys
  written by LPUSH and HSET always are.
\<close>

section \<open>The writes of one key\<close>

definition writes_of :: "string \<Rightarrow> command list \<Rightarrow> command list" where
  "writes_of x cs = filter (\<lambda>c. command_key c = x) cs"

lemma writes_of_simps [simp]:
  "writes_of x [] = []" "writes_of x (cs @ ds) = writes_of x cs @ writes_of x ds"
  "writes_of x (c # cs) = (if command_key c = x then c # writes_of x cs else writes_of x cs)"
  by (simp_all add: writes_of_def)

text \<open>A write and its admissibility depend on the content of its key only.\<close>

lemma apply_write_same: "m (command_key c) = n (command_key c) \<Longrightarrow> apply_write c m (command_key c) = apply_write c n (command_key c)"
  by (cases c) (auto split: option.splits prod.splits value_variant.splits)

lemma admissible_same: "m (command_key c) = n (command_key c) \<Longrightarrow> admissible c m = admissible c n"
  by (cases c) auto

lemma fold_writes_of: "m x = n x \<Longrightarrow> fold apply_write cs m x = fold apply_write (writes_of x cs) n x"
proof (induction cs arbitrary: m n)
  case (Cons c cs)
  then have "apply_write c m x = (if command_key c = x then apply_write c n x else n x)"
    using apply_write_same [of m c n] apply_write_other [of x c m] by auto
  then show ?case by (cases "command_key c = x") (simp_all add: Cons.IH)
qed simp

lemma admissible_writes_of: "admissible_all cs m \<Longrightarrow> m x = n x \<Longrightarrow> admissible_all (writes_of x cs) n"
proof (induction cs arbitrary: m n)
  case (Cons c cs)
  then have "apply_write c m x = (if command_key c = x then apply_write c n x else n x)"
    using apply_write_same [of m c n] apply_write_other [of x c m] by auto
  with Cons.prems Cons.IH [of "apply_write c m"] admissible_same [of m c n] show ?case by auto
qed simp

text \<open>
  A run in which the writes of a key are admissible one after the other, whatever the other commands do,
  takes effect completely on that key, if memory does not run out.
\<close>

lemma run_commands_key:
  assumes "router_wf env r" and "lasting t0 w r" and "run_in_window t0 w h"
    and "run_commands env h (r, aof) = (replies, r', aof')"
    and "admissible_all (writes_of x (map snd h)) m" and "m x = router_content r x" and "err_oom \<notin> set replies"
  shows "writes_of x (effective env h r) = writes_of x (map snd h)"
  using assms
proof (induction h arbitrary: r aof replies m)
  case (Cons tc h)
  obtain now c where tc: "tc = (now, c)" by (cases tc)
  with Cons.prems(3) have w: "in_window t0 w now" "0 < w" "command_lasting w c" "run_in_window t0 w h"
    by (auto simp: run_in_window_Cons)
  obtain reply ok r1 where p: "perform env now c r = (reply, ok, r1)" by (metis surj_pair)
  note fr = lasting_fresh [OF Cons.prems(2) w(1,2)]
  note wf1 = perform_wf [OF Cons.prems(1) p] and l1 = perform_lasting [OF Cons.prems(1,2) w(3,1,2) p]
    and content = perform_content [OF Cons.prems(1) fr p]
  from Cons.prems(4) tc p obtain aof1 replies'
    where h: "run_commands env h (r1, aof1) = (replies', r', aof')" and rs: "replies = reply # replies'"
    by (auto simp: execute_def split: prod.splits)
  have oom: "err_oom \<notin> set replies'" using Cons.prems(7) rs by simp
  note IH = Cons.IH [OF wf1 l1 w(4) h _ _ oom]
  show ?case
  proof (cases "command_key c = x")
    case True
    with Cons.prems(5) tc have a: "admissible c m" "admissible_all (writes_of x (map snd h)) (apply_write c m)" by simp_all
    then have "admissible c (router_content r)" using admissible_same [of m c] Cons.prems(6) True by simp
    then have ok: ok using perform_admissible [OF Cons.prems(1) fr p] Cons.prems(7) by (auto simp: rs)
    then have "apply_write c m x = router_content r1 x"
      using content apply_write_same [of m c "router_content r"] Cons.prems(6) True by simp
    from IH [where m = "apply_write c m", OF a(2) this] ok True show ?thesis by (simp add: tc p)
  next
    case False
    have "m x = router_content r1 x" using content apply_write_other [of x c] False Cons.prems(6) by auto
    with IH [where m = m, OF _ this] Cons.prems(5) False show ?thesis by (simp add: tc p)
  qed
qed simp

section \<open>The order of the log\<close>

text \<open>
  A worker that has yet to log has performed a command that is not logged under the lock; of the other
  commands the log has those that took effect, in the order of their effects, key by key.
\<close>

definition logged_in_order :: "string \<Rightarrow> 'u pool_system \<Rightarrow> bool" where
  "logged_in_order x b \<longleftrightarrow> writes_of x (logged b) = writes_of x (applied b)"

text \<open>A key that is written by LPUSH and HSET only.\<close>

definition locked_key :: "string \<Rightarrow> command list \<Rightarrow> bool" where
  "locked_key x cs \<longleftrightarrow> (\<forall>c \<in> set cs. command_key c = x \<longrightarrow>
     (case c of LPushCommand _ _ _ \<Rightarrow> True | HSetCommand _ _ _ _ \<Rightarrow> True | _ \<Rightarrow> False))"

lemma locked_key_iff: "locked_key x cs \<longleftrightarrow> (\<forall>c \<in> set cs. command_key c = x \<longrightarrow> logs_under_lock c)"
proof -
  have "(case c of LPushCommand _ _ _ \<Rightarrow> True | HSetCommand _ _ _ _ \<Rightarrow> True | _ \<Rightarrow> False) = logs_under_lock c" for c
    by (cases c) simp_all
  then show ?thesis by (simp add: locked_key_def)
qed

definition order_inv :: "'u pool_system \<Rightarrow> bool" where
  "order_inv b \<longleftrightarrow>
     (\<forall>t reply. Logging t reply \<in> set (workers b) \<longrightarrow> task_command t \<in> set (applied b) \<and> \<not> logs_under_lock (task_command t)) \<and>
     (\<forall>x. locked_key x (applied b) \<longrightarrow> logged_in_order x b)"

lemma order_invI:
  assumes "\<And>t reply. Logging t reply \<in> set (workers b) \<Longrightarrow> task_command t \<in> set (applied b) \<and> \<not> logs_under_lock (task_command t)"
    and "\<And>x. locked_key x (applied b) \<Longrightarrow> logged_in_order x b"
  shows "order_inv b"
  using assms unfolding order_inv_def by blast

lemma Logging_update: "Logging t reply \<in> set (ws[i := w]) \<Longrightarrow> Logging t reply \<in> set ws \<or> w = Logging t reply"
  using set_update_subset_insert by fastforce

lemma worker_step_order:
  assumes "worker_step env b b'" and "order_inv b"
  shows "order_inv b'"
  using assms
proof (induction rule: worker_step.induct)
  case (log i b t reply)
  then have t: "task_command t \<in> set (applied b)" "\<not> logs_under_lock (task_command t)"
    unfolding order_inv_def by (metis nth_mem)+
  show ?case
  proof (rule order_invI, goal_cases)
    case (2 x)
    with t log.prems show ?case by (auto simp: order_inv_def logged_in_order_def locked_key_iff)
  qed (use log.prems in \<open>auto simp: order_inv_def dest!: Logging_update\<close>)
qed (auto simp: order_inv_def logged_in_order_def locked_key_iff dest!: Logging_update)

lemma order_inv_simps [simp]:
  "order_inv (set_pool p b) = order_inv b" "order_inv (set_logger l b) = order_inv b"
  by (simp_all add: order_inv_def logged_in_order_def)

interpretation order: step_invariant
  "\<lambda>s. \<exists>q n r aof. s = server_start q n r aof" "server_step env" "\<lambda>s. order_inv (back_end s)"
proof unfold_locales
  fix s t :: "'a server"
  show "\<exists>q n r aof. s = server_start q n r aof \<Longrightarrow> order_inv (back_end s)"
    by (auto simp: order_inv_def logged_in_order_def server_start_def pool_start_def)
  show "order_inv (back_end s) \<Longrightarrow> server_step env s t \<Longrightarrow> order_inv (back_end t)"
    by (erule server_step_back_end) (simp_all add: worker_step_order)
qed

section \<open>Keys that are written by one worker at a time\<close>

text \<open>
  A worker that holds a write of the key, and one that holds a write which is not logged under the lock.
  A key is undisturbed if no worker holds a SET or DEL of it while another holds a write of it.
\<close>

fun holds_write :: "string \<Rightarrow> worker_pc \<Rightarrow> bool" where
  "holds_write x (Working t) \<longleftrightarrow> command_key (task_command t) = x \<and> is_write (task_command t)"
| "holds_write x (Logging t _) \<longleftrightarrow> command_key (task_command t) = x"
| "holds_write x _ \<longleftrightarrow> False"

fun holds_unlocked :: "string \<Rightarrow> worker_pc \<Rightarrow> bool" where
  "holds_unlocked x (Working t) \<longleftrightarrow> holds_write x (Working t) \<and> \<not> logs_under_lock (task_command t)"
| "holds_unlocked x w \<longleftrightarrow> holds_write x w"

definition undisturbed :: "string \<Rightarrow> worker_pc list \<Rightarrow> bool" where
  "undisturbed x ws \<longleftrightarrow> (\<forall>w \<in> set ws. \<not> holds_unlocked x w) \<or> length (filter (holds_write x) ws) \<le> 1"

fun unlogged :: "string \<Rightarrow> worker_pc \<Rightarrow> command list" where
  "unlogged x (Logging t _) = writes_of x [task_command t]"
| "unlogged x _ = []"

lemma unlogged_none: "\<not> holds_write x w \<Longrightarrow> unlogged x w = []" "\<not> holds_unlocked x w \<Longrightarrow> unlogged x w = []"
  by (cases w; simp)+

lemma concat_update_same:
  "i < length ws \<Longrightarrow> f v = f (ws ! i) \<Longrightarrow> concat (map f (ws[i := v])) = concat (map f ws)"
  by (metis list_update_id map_update)

lemma concat_only:
  assumes "length (filter P ws) \<le> 1" and "i < length ws" and "P (ws ! i)" and "\<And>w. \<not> P w \<Longrightarrow> f w = []"
  shows "concat (map f (ws[i := v])) = f v"
proof -
  have ws: "ws = take i ws @ ws ! i # drop (Suc i) ws" using assms(2) by (rule id_take_nth_drop)
  then have "length (filter P ws) = length (filter P (take i ws)) + 1 + length (filter P (drop (Suc i) ws))"
    using assms(3) by (metis (no_types, lifting) add.assoc filter.simps(2) filter_append length_Cons length_append plus_1_eq_Suc)
  then have "filter P (take i ws) = []" "filter P (drop (Suc i) ws) = []" using assms(1) by simp_all
  then have "concat (map f (take i ws)) = []" "concat (map f (drop (Suc i) ws)) = []"
    using assms(4) by (auto simp: filter_empty_conv)
  moreover have "ws[i := v] = take i ws @ v # drop (Suc i) ws" using assms(2) by (rule upd_conv_take_nth_drop)
  ultimately show ?thesis by (simp only: map_append list.map concat_append concat.simps) simp
qed

text \<open>What the log lacks of an undisturbed key is what its one worker has yet to log.\<close>

definition key_inv :: "string \<Rightarrow> 'u pool_system \<Rightarrow> bool" where
  "key_inv x b \<longleftrightarrow> writes_of x (applied b) = writes_of x (logged b) @ concat (map (unlogged x) (workers b))"

lemma undisturbed_update:
  assumes "undisturbed x ws" and "i < length ws" and "holds_unlocked x (ws ! i)"
  shows "concat (map (unlogged x) (ws[i := v])) = unlogged x v"
proof -
  have "length (filter (holds_write x) ws) \<le> 1" using assms unfolding undisturbed_def by (metis nth_mem)
  moreover have "holds_write x (ws ! i)" using assms(3) by (cases "ws ! i") auto
  ultimately show ?thesis by (rule concat_only [OF _ assms(2) _ unlogged_none(1)])
qed

lemma undisturbed_unlogged:
  assumes "undisturbed x ws" and "i < length ws" and "holds_write x (ws ! i)"
  shows "concat (map (unlogged x) ws) = unlogged x (ws ! i)"
proof (cases "length (filter (holds_write x) ws) \<le> 1")
  case True
  from concat_only [OF True assms(2,3) unlogged_none(1), where v = "ws ! i"] show ?thesis by simp
next
  case False
  with assms(1) have "\<forall>w \<in> set ws. unlogged x w = []" by (auto simp: undisturbed_def intro: unlogged_none)
  with assms(2) show ?thesis by simp
qed

lemma perform_ok_write: "perform env now c r = (reply, True, r') \<Longrightarrow> is_write c"
  by (cases c) (auto split: prod.splits)

lemma worker_step_key:
  assumes "worker_step env b b'" and "undisturbed x (workers b)" and "key_inv x b"
  shows "key_inv x b'"
  using assms
proof (induction rule: worker_step.induct)
  case (exec i b t now reply ok r)
  show ?case
  proof (cases "ok \<and> command_key (task_command t) = x")
    case True
    then have h: "holds_write x (workers b ! i)" "holds_unlocked x (workers b ! i)"
      using exec.hyps perform_ok_write by auto
    from undisturbed_unlogged [OF exec.prems(1) exec.hyps(1) h(1)] undisturbed_update [OF exec.prems(1) exec.hyps(1) h(2)]
      True exec show ?thesis by (simp add: key_inv_def del: concat_eq_Nil_conv)
  next
    case False
    then show ?thesis using exec by (auto simp: key_inv_def concat_update_same)
  qed
next
  case (exec_locked i b t now reply ok r)
  show ?case
  proof (cases "ok \<and> command_key (task_command t) = x")
    case True
    then have h: "holds_write x (workers b ! i)" using exec_locked.hyps perform_ok_write by auto
    from undisturbed_unlogged [OF exec_locked.prems(1) exec_locked.hyps(1) h] True exec_locked
    show ?thesis by (simp add: key_inv_def concat_update_same del: concat_eq_Nil_conv)
  next
    case False
    then show ?thesis using exec_locked by (auto simp: key_inv_def concat_update_same)
  qed
next
  case (log i b t reply)
  show ?case
  proof (cases "command_key (task_command t) = x")
    case True
    then have h: "holds_write x (workers b ! i)" "holds_unlocked x (workers b ! i)" using log.hyps by auto
    from undisturbed_unlogged [OF log.prems(1) log.hyps(1) h(1)] undisturbed_update [OF log.prems(1) log.hyps(1) h(2)]
      True log show ?thesis by (simp add: key_inv_def del: concat_eq_Nil_conv)
  next
    case False
    then show ?thesis using log by (simp add: key_inv_def concat_update_same)
  qed
qed (simp_all add: key_inv_def concat_update_same)

lemma key_inv_simps [simp]:
  "key_inv x (set_pool p b) = key_inv x b" "key_inv x (set_logger l b) = key_inv x b"
  by (simp_all add: key_inv_def)

text \<open>Steps from states in which the key is undisturbed.\<close>

definition quiet_step :: "'u pmr_env \<Rightarrow> string \<Rightarrow> 'u server \<Rightarrow> 'u server \<Rightarrow> bool" where
  "quiet_step env x s t \<longleftrightarrow> server_step env s t \<and> undisturbed x (workers (back_end s))"

lemma quiet_run: "(quiet_step env x)\<^sup>*\<^sup>* s t \<Longrightarrow> (server_step env)\<^sup>*\<^sup>* s t"
  by (erule rtranclp_mono [THEN predicate2D, rotated]) (auto simp: quiet_step_def)

text \<open>A server with one worker disturbs no key.\<close>

lemma one_worker_quiet:
  assumes "(server_step env)\<^sup>*\<^sup>* s t" and "length (workers (back_end s)) \<le> 1"
  shows "(quiet_step env x)\<^sup>*\<^sup>* s t \<and> length (workers (back_end t)) \<le> 1"
  using assms
proof (induction rule: rtranclp_induct)
  case (step t u)
  have "length (filter (holds_write x) (workers (back_end t))) \<le> 1"
    using step le_trans [OF length_filter_le] by blast
  with step have "quiet_step env x t u" by (simp add: quiet_step_def undisturbed_def)
  with step server_step_workers [OF step.hyps(2)] show ?case by (auto intro: rtranclp.rtrancl_into_rtrancl)
qed simp

interpretation quiet: step_invariant
  "\<lambda>s. \<exists>q n r aof. s = server_start q n r aof" "quiet_step env x" "\<lambda>s. key_inv x (back_end s)"
proof unfold_locales
  fix s t :: "'a server"
  show "\<exists>q n r aof. s = server_start q n r aof \<Longrightarrow> key_inv x (back_end s)"
    by (auto simp: key_inv_def server_start_def pool_start_def)
  assume k: "key_inv x (back_end s)" and q: "quiet_step env x s t"
  then have "server_step env s t" by (simp add: quiet_step_def)
  then show "key_inv x (back_end t)"
    using k q by (cases rule: server_step_back_end) (auto simp: quiet_step_def worker_step_key)
qed

lemma quiet_closed:
  assumes "(quiet_step env x)\<^sup>*\<^sup>* (server_start q n r aof) s" and "\<forall>w \<in> set (workers (back_end s)). w = Exited"
  shows "logged_in_order x (back_end s)"
proof -
  have "concat (map (unlogged x) (workers (back_end s))) = []" using assms(2) by auto
  moreover have "key_inv x (back_end s)" using quiet.reachable_inv [OF _ assms(1)] by blast
  ultimately show ?thesis by (simp add: key_inv_def logged_in_order_def)
qed

section \<open>Properties\<close>

text \<open>
  With any number of workers the log keeps the order of LPUSH and HSET.  In every run of the server,
  for a key that is written by these two commands only, the commands of the key that have been logged are
  those that took effect on it, in the same order, at every moment.
\<close>

theorem locked_writes_in_order:
  assumes "(server_step env)\<^sup>*\<^sup>* (server_start listen_port n r aof) s" and "locked_key x (applied (back_end s))"
  shows "writes_of x (logged (back_end s)) = writes_of x (applied (back_end s))"
proof -
  have "order_inv (back_end s)" using order.reachable_inv [OF _ assms(1)] by blast
  with assms(2) show ?thesis by (simp add: order_inv_def logged_in_order_def)
qed

text \<open>What a restart makes of one key.\<close>

lemma restart_key:
  assumes "journal w (file_contents f) cs"
    and "start_server env ndebug clock f can_open now b = Inr (k, wl, s0)" and "replay_fits env clock t0 w b cs"
    and "(server_step env)\<^sup>*\<^sup>* s0 s" and "log_shutter s = Closed" and "engine_aof (back_end s) = Some l"
    and "run_in_window t0 w (executed (back_end s))"
    and "\<forall>(now, c) \<in> set (executed (back_end s)). command_wf c \<and> ctrl_z \<notin> set (serialize c)"
    and "start_server env' ndebug' clock' (Some (written l)) can_open' now' b' = Inr (k', wl', s1)"
    and "\<forall>ds. command_log w (written l) ds \<longrightarrow> replay_fits env' clock' t1 w b' ds"
    and "logged_in_order x (back_end s)"
  shows "router_content (engine_router (back_end s1)) x = router_content (engine_router (back_end s)) x"
proof -
  let ?h = "executed (back_end s)" and ?ds = "cs @ logged (back_end s)"
  obtain r l0 where r: "router_wf env r" "lasting t0 w r" "router_content r = journal_content cs"
    and l0: "logger_started (file_contents f) l0" and s0: "s0 = server_start (port b) (unat (worker_threads b)) r (Some l0)"
    using start_server_journal [OF assms(1-3)] by metis
  note c = closed_server [OF l0 assms(4) [unfolded s0] assms(5,6)]
  note e = run_router_content [OF r(1,2) assms(7)]
  have ws: "writes_of x ?ds = writes_of x (cs @ effective env ?h r)"
    using c assms(11) by (simp add: logged_in_order_def)
  have a: "admissible_all (cs @ effective env ?h r) Map.empty"
    using assms(1) e by (simp add: journal_def admissible_all_append r(3) journal_content_def)
  have "set (logged (back_end s)) = set (effective env ?h r)" using c by (metis set_mset_mset)
  then have "\<forall>c \<in> set (logged (back_end s)). command_wf c \<and> ctrl_z \<notin> set (serialize c) \<and> command_lasting w c"
    using effective_subset [of _ env ?h r] assms(7,8) by (fastforce simp: run_in_window_def)
  with assms(1) c have j: "command_log w (written l) ?ds" by (auto simp: journal_def command_log_def)
  then have j': "command_log w (file_contents (Some (written l))) ?ds" by (simp add: file_contents_def)
  have fits: "replay_fits env' clock' t1 w b' ?ds" using assms(10) j by blast
  let ?h' = "timed clock' 0 ?ds"
  obtain r0 l1 where r0: "router_wf env' r0" "lasting t1 w r0" "router_content r0 = Map.empty" "run_in_window t1 w ?h'"
    "err_oom \<notin> set (fst (run_commands env' ?h' (r0, None)))"
    and s1: "s1 = server_start (port b') (unat (worker_threads b')) (run_router env' ?h' r0) (Some l1)"
    by (rule start_server_log [OF j' assms(9) fits])
  obtain replies r' aof' where run: "run_commands env' ?h' (r0, None) = (replies, r', aof')" by (metis surj_pair)
  have snd: "map snd ?h' = ?ds" by (simp add: timed_def)
  have eff: "writes_of x (effective env' ?h' r0) = writes_of x ?ds"
    using run_commands_key [OF r0(1,2,4) run, where x = x and m = Map.empty]
      admissible_writes_of [OF a, where x = x and n = Map.empty] r0(3,5) ws run
    by (simp add: snd)
  have "router_content (run_router env' ?h' r0) x = fold apply_write (effective env' ?h' r0) Map.empty x"
    using run_router_content [OF r0(1,2,4)] r0(3) by simp
  also have "\<dots> = fold apply_write (writes_of x ?ds) Map.empty x"
    unfolding eff [symmetric] by (rule fold_writes_of) simp
  also have "\<dots> = fold apply_write (cs @ effective env ?h r) Map.empty x"
    unfolding ws by (rule fold_writes_of [symmetric]) simp
  also have "\<dots> = router_content (engine_router (back_end s)) x"
    using c e by (simp add: r(3) journal_content_def)
  finally show ?thesis by (simp add: s1 server_start_def pool_start_def)
qed



theorem locked_writes_in_order_witness:
  "\<exists>s. (server_step demo_env)\<^sup>*\<^sup>* demo_server s \<and> applied (back_end s) = [demo_command] \<and>
     writes_of ''l'' (logged (back_end s)) = [demo_command]"
proof -
  obtain s l where s: "(server_step demo_env)\<^sup>*\<^sup>* demo_server s" "executed (back_end s) = [(0, demo_command)]"
    by (rule demo_closed)
  obtain r where "perform demo_env 0 demo_command demo_router = (int_reply 1, True, r)" using demo_lpush by blast
  moreover have "life_inv demo_env demo_router [] s"
    using life.reachable_inv [OF _ s(1), of "[]" demo_router] by (force simp: logger_started_def aof_start_def demo_logger_def mk_aof_logger_def)
  ultimately have a: "applied (back_end s) = [demo_command]"
    using s(2) by (simp add: life_inv_def history_inv_def del: perform.simps)
  then have "locked_key ''l'' (applied (back_end s))" by (simp add: locked_key_def)
  from locked_writes_in_order [OF s(1) this] s(1) a show ?thesis by auto
qed



end
