(* ===== verification/KV_Order.thy ===== *)
theory KV_Order
  imports KV_System
begin

text \<open>
  The order in which requests take effect.  With one worker they take effect in the order in which the
  reactor has queued them.  With two, the requests that a client has sent in one go may take effect in any
  order: a read need not see the write before it, although the replies are sent in order.
\<close>

section \<open>One worker\<close>

text \<open>All commands that have been queued so far, in order, and those a worker has taken but not executed.\<close>

definition backlog :: "'u pool_system \<Rightarrow> task list" where
  "backlog b = taken b @ pool_queue (wpool b)"

fun worker_at_work :: "worker_pc \<Rightarrow> task list" where
  "worker_at_work (Working t) = [t]"
| "worker_at_work _ = []"

definition fifo_inv :: "'u pool_system \<Rightarrow> bool" where
  "fifo_inv b \<longleftrightarrow>
     length (workers b) = 1 \<and>
     map (\<lambda>t. (task_command t, task_client t)) (taken b) =
       zip (map snd (executed b)) (served b) @ map (\<lambda>t. (task_command t, task_client t)) (worker_at_work (workers b ! 0)) \<and>
     length (served b) = length (executed b)"

lemma worker_step_fifo: "worker_step env b b' \<Longrightarrow> fifo_inv b \<Longrightarrow> fifo_inv b' \<and> backlog b' = backlog b"
  by (induction rule: worker_step.induct) (auto simp: fifo_inv_def backlog_def less_Suc_eq)

lemma backlog_process_all: "prefix (pool_queue p) (pool_queue (process_all c ip seq ls p))"
proof (induction ls arbitrary: seq p)
  case (Cons l ls)
  have "prefix (pool_queue p) (pool_queue (process c l seq ip p))"
    by (auto simp: process_cases split: option.splits)
  with Cons.IH [of "process c l seq ip p" "seq + 1"] show ?case by (auto intro: prefix_order.trans)
qed simp

lemma backlog_read:
  assumes "handle_read c received (r, p) = (r', p')"
  shows "prefix (pool_queue p) (pool_queue p')"
proof (cases "p' = p")
  case False
  with assms obtain st paused st' where "read_lines c st p = (paused, st', p')"
    by (auto simp: handle_read_def split: option.splits prod.splits)
  from read_lines_effect [OF this] obtain ip seq ls where "p' = process_all c ip seq ls p"
    by (auto simp: read_effect_def)
  with backlog_process_all show ?thesis by simp
qed simp

lemma set_pool_taken [simp]: "taken (set_pool p b) = taken b" "taken (set_logger l b) = taken b"
  by (simp_all add: set_pool_def set_logger_def)

lemma server_step_fifo:
  assumes "server_step env s t" and "fifo_inv (back_end s)"
  shows "fifo_inv (back_end t) \<and> prefix (backlog (back_end s)) (backlog (back_end t))"
  using assms
proof (induction rule: server_step.induct)
  case (read s c st received r p)
  then show ?case using backlog_read [OF read.hyps(3)] by (simp add: fifo_inv_def backlog_def)
next
  case (poll s r p)
  then show ?case using prepare_poll_result [OF poll.hyps(2)] by (simp add: fifo_inv_def backlog_def)
next
  case (work s b)
  then show ?case using worker_step_fifo by fastforce
qed (simp_all add: fifo_inv_def backlog_def)

interpretation fifo: step_invariant
  "\<lambda>s. \<exists>q r aof. s = server_start q 1 r aof" "server_step env" "\<lambda>s. fifo_inv (back_end s)"
proof unfold_locales
  fix s t :: "'a server"
  show "\<exists>q r aof. s = server_start q 1 r aof \<Longrightarrow> fifo_inv (back_end s)"
    by (auto simp: fifo_inv_def server_start_def pool_start_def)
  show "fifo_inv (back_end s) \<Longrightarrow> server_step env s t \<Longrightarrow> fifo_inv (back_end t)" using server_step_fifo by blast
qed

lemma fifo_run_backlog:
  assumes "(server_step env)\<^sup>*\<^sup>* s t" and "fifo_inv (back_end s)"
  shows "fifo_inv (back_end t) \<and> prefix (backlog (back_end s)) (backlog (back_end t))"
  using assms
proof (induction rule: rtranclp_induct)
  case (step t u)
  with server_step_fifo [OF step.hyps(2)] show ?case by (auto intro: prefix_order.trans)
qed simp

section \<open>Properties\<close>

text \<open>
  C18.  With one worker, first come is first served: the commands that have been executed, each with its
  client, are the first of those the reactor has queued, in the same order, and what the reactor queues later
  comes after everything it has queued before.
\<close>

theorem one_worker_fifo:
  assumes "(server_step env)\<^sup>*\<^sup>* (server_start listen_port 1 r aof) s" and "(server_step env)\<^sup>*\<^sup>* s t"
  shows "prefix (zip (map snd (executed (back_end t))) (served (back_end t)))
      (map (\<lambda>x. (task_command x, task_client x)) (backlog (back_end t))) \<and>
    length (served (back_end t)) = length (executed (back_end t)) \<and> prefix (backlog (back_end s)) (backlog (back_end t))"
proof -
  have "fifo_inv (back_end s)" using fifo.reachable_inv [OF _ assms(1)] by blast
  from fifo_run_backlog [OF assms(2) this] show ?thesis by (auto simp: fifo_inv_def backlog_def)
qed

text \<open>
  A server with two workers and a client that sends two lines in one go.
\<close>

abbreviation racing_lines :: "string list" where
  "racing_lines \<equiv> [''LPUSH l a'', ''EXISTS l'']"

abbreviation racing_tasks :: "task list" where
  "racing_tasks \<equiv> [demo_push, \<lparr>task_command = ExistsCommand ''l'', task_client = 7, task_seq = 1\<rparr>]"

lemma racing_request:
  "\<exists>s. (server_step demo_env)\<^sup>*\<^sup>* (server_start 8080 2 demo_router None) s \<and>
     back_end s = set_pool ((mk_worker_pool 10000)\<lparr>pool_queue := racing_tasks\<rparr>) (pool_start 2 10000 demo_router None) \<and>
     requested s 7 = [(''LPUSH l a'', 0), (''EXISTS l'', 0)]"
proof -
  let ?s = "server_start 8080 2 demo_router None" and ?b = "pool_start 2 10000 demo_router None"
  let ?r1 = "snd (accept_connection (Some (7, ''10.0.0.1'')) (front_end ?s))"
  let ?st = "mk_connection_state ''10.0.0.1''" and ?bytes = "line_text racing_lines" and ?p = "mk_worker_pool 10000"
  let ?st' = "?st\<lparr>next_seq_issue := 2, in_flight_requests := 2\<rparr>" and ?p' = "(mk_worker_pool 10000)\<lparr>pool_queue := racing_tasks\<rparr>"
  have req: "request_lines racing_lines = racing_lines" by (simp add: trim_cr_def)
  have "parse_line ''LPUSH l a'' = Some (LPushCommand ''l'' ''a'' 86400)" "parse_line ''EXISTS l'' = Some (ExistsCommand ''l'')"
    using parse_line_serialize [of "LPushCommand ''l'' ''a'' default_ttl"] parse_line_serialize [of "ExistsCommand ''l''"]
    by (simp_all add: is_token_def is_space_def default_ttl_def)
  then have pr: "process_all 7 ''10.0.0.1'' 0 racing_lines ?p = ?p'"
    by (simp add: process_cases submit_def mk_worker_pool_def queue_size_def word_le_nat_alt)
  have "read_lines 7 (?st\<lparr>read_buffer := ?bytes\<rparr>) ?p = (False, ?st', ?p')"
    using read_lines_all [of "?st\<lparr>read_buffer := ?bytes\<rparr>" racing_lines "[]" ?p 7] pr
    by (simp add: req mk_connection_state_def has_room_def mk_worker_pool_def)
  moreover have c1: "map_of (connections ?r1) 7 = Some ?st"
    by (simp add: accept_connection_def server_start_def mk_reactor_def MAX_CONNECTIONS_def)
  ultimately obtain r2 where rd: "handle_read 7 (Some ?bytes) (?r1, ?p) = (r2, ?p')" and c2: "map_of (connections r2) 7 = Some ?st'"
    by (auto simp: handle_read_def mk_connection_state_def)
  obtain s1 where s1: "server_step demo_env ?s s1" "front_end s1 = ?r1" "back_end s1 = ?b" "requested s1 7 = []" "\<not> reactor_joined s1"
    using server_step.accept [of ?s 7 demo_env "''10.0.0.1''"]
    by (force simp: server_start_def mk_reactor_def default_max_queue_size_def)
  have "complete_lines ?bytes = racing_lines" using complete_lines_text [of racing_lines "[]"] by (simp add: complete_lines_def)
  then have "issued ?st (Some ?bytes) (Some ?st') = racing_lines" by (simp add: issued_def mk_connection_state_def req)
  moreover have "handle_read 7 (Some ?bytes) (front_end s1, wpool (back_end s1)) = (r2, ?p')"
    using rd s1(2,3) by (simp add: pool_start_def)
  moreover have "executed (back_end s1) = []" using s1(3) by (simp add: pool_start_def)
  ultimately obtain s2 where "server_step demo_env s1 s2" "back_end s2 = set_pool ?p' ?b"
    "requested s2 7 = [(''LPUSH l a'', 0), (''EXISTS l'', 0)]"
    using server_step.read [of s1 7 ?st "Some ?bytes" r2 ?p' demo_env] s1 c1 c2 by force
  with s1(1) show ?thesis by (intro exI [of _ s2]) (simp add: converse_rtranclp_into_rtranclp)
qed

text \<open>
  C37.  Requests that are sent in one go may be reordered.  There is a run of a server with two workers
  in which a client has sent an LPUSH and then an EXISTS of the same key on one connection, the EXISTS was
  executed first, and its reply, which will be sent after that to the LPUSH, says that there is no such key.
\<close>

theorem pipelined_requests_reordered:
  "\<exists>s. (server_step demo_env)\<^sup>*\<^sup>* (server_start 8080 2 demo_router None) s \<and>
     map fst (requested s 7) = [''LPUSH l a'', ''EXISTS l''] \<and>
     map snd (executed (back_end s)) = [ExistsCommand ''l'', LPushCommand ''l'' ''a'' 86400] \<and> served (back_end s) = [7, 7] \<and>
     served_at demo_env demo_router (back_end s) 7 0 (ExistsCommand ''l'') (int_reply 0) \<and>
     served_at demo_env demo_router (back_end s) 7 1 (LPushCommand ''l'' ''a'' 86400) (int_reply 1)"
proof -
  let ?push = demo_push and ?ex = "\<lparr>task_command = ExistsCommand ''l'', task_client = 7, task_seq = 1\<rparr>"
  let ?p = "mk_worker_pool 10000" and ?b = "pool_start 2 10000 demo_router None"
  obtain s where s: "(server_step demo_env)\<^sup>*\<^sup>* (server_start 8080 2 demo_router None) s"
    "back_end s = set_pool (?p\<lparr>pool_queue := [?push, ?ex]\<rparr>) ?b" "requested s 7 = [(''LPUSH l a'', 0), (''EXISTS l'', 0)]"
    using racing_request by blast
  obtain r where p: "perform demo_env 0 (LPushCommand ''l'' ''a'' 86400) demo_router = (int_reply 1, True, r)"
    using demo_lpush by blast
  have q: "perform demo_env 0 (ExistsCommand ''l'') demo_router = (int_reply 0, False, demo_router)"
    by (simp add: router_exists_def shard_exists_def demo_router_simps del: demo_router_fresh)
  let ?b1 = "(set_worker 0 (Working ?push) (back_end s))\<lparr>wpool := ?p\<lparr>pool_queue := [?ex]\<rparr>, taken := [?push]\<rparr>"
  let ?b2 = "(set_worker 1 (Working ?ex) ?b1)\<lparr>wpool := ?p\<lparr>pool_queue := []\<rparr>, taken := [?push, ?ex]\<rparr>"
  let ?b3 = "(set_worker 1 (Posting ?ex (int_reply 0)) ?b2)\<lparr>engine_router := demo_router, executed := [(0, ExistsCommand ''l'')],
    served := [7], applied := []\<rparr>"
  let ?b4 = "(set_worker 0 (Posting ?push (int_reply 1)) ?b3)\<lparr>engine_router := r,
    executed := [(0, ExistsCommand ''l''), (0, LPushCommand ''l'' ''a'' 86400)], served := [7, 7],
    engine_aof := log_write (LPushCommand ''l'' ''a'' 86400) None, applied := [LPushCommand ''l'' ''a'' 86400],
    logged := [LPushCommand ''l'' ''a'' 86400]\<rparr>"
  have "worker_step demo_env (back_end s) ?b1"
    using worker_step.take [of 0 "back_end s" ?push "[?ex]" demo_env] s(2) by (simp add: pool_start_def set_pool_def set_worker_def)
  moreover have "worker_step demo_env ?b1 ?b2"
    using worker_step.take [of 1 ?b1 ?ex "[]" demo_env] s(2) by (simp add: pool_start_def set_pool_def set_worker_def)
  moreover have "worker_step demo_env ?b2 ?b3"
    using worker_step.exec [of 1 ?b2 ?ex demo_env 0 "int_reply 0" False demo_router] s(2) q
    by (simp add: pool_start_def set_pool_def set_worker_def del: perform.simps)
  moreover have "worker_step demo_env ?b3 ?b4"
    using worker_step.exec_locked [of 0 ?b3 ?push demo_env 0 "int_reply 1" True r] s(2) p
    by (simp add: pool_start_def set_pool_def set_worker_def del: perform.simps)
  ultimately have "(worker_step demo_env)\<^sup>*\<^sup>* (back_end s) ?b4" by (meson converse_rtranclp_into_rtranclp rtranclp.rtrancl_refl)
  from server_run_workers [OF this] s(1) have "(server_step demo_env)\<^sup>*\<^sup>* (server_start 8080 2 demo_router None) (s\<lparr>back_end := ?b4\<rparr>)"
    by (rule rtranclp_trans [rotated])
  moreover have "served_at demo_env demo_router ?b4 7 0 (ExistsCommand ''l'') (int_reply 0)"
    "served_at demo_env demo_router ?b4 7 1 (LPushCommand ''l'' ''a'' 86400) (int_reply 1)"
    using p q by (simp_all add: served_at_def del: perform.simps)
  ultimately show ?thesis using s(3) by (intro exI [of _ "s\<lparr>back_end := ?b4\<rparr>"]) simp
qed

theorem one_worker_fifo_witness:
  "\<exists>s. (server_step demo_env)\<^sup>*\<^sup>* demo_server s \<and> map task_command (backlog (back_end s)) = [LPushCommand ''l'' ''a'' 86400] \<and>
     prefix (map snd (executed (back_end s))) [LPushCommand ''l'' ''a'' 86400]"
proof -
  obtain s where s: "(server_step demo_env)\<^sup>*\<^sup>* demo_server s" "back_end s = demo_back [demo_push]" using demo_request by blast
  have b: "backlog (back_end s) = [demo_push]" using s(2) by (simp add: backlog_def pool_start_def)
  from one_worker_fifo [OF s(1) rtranclp.rtrancl_refl] have "prefix (zip (map snd (executed (back_end s))) (served (back_end s)))
      (map (\<lambda>x. (task_command x, task_client x)) [demo_push])" and l: "length (served (back_end s)) = length (executed (back_end s))"
    unfolding b by blast+
  then have "prefix (map fst (zip (map snd (executed (back_end s))) (served (back_end s)))) [LPushCommand ''l'' ''a'' 86400]"
    using map_mono_prefix [of _ _ fst] by force
  with l b s(1) show ?thesis by (intro exI [of _ s]) simp
qed

end
