(* ===== verification/KV_Process.thy ===== *)
theory KV_Process
  imports KV_Boot
begin

text \<open>
  The process: the main thread in \<^verbatim>\<open>build_and_run\<close>, the thread of the reactor from the opening of its
  socket to its end, and the signal that stops the server.  The results of the calls of the operating system
  that open the socket are parameters.  The theorems show that the process serves its clients as
  the server of KV_System does and can be ended in order, that a failure to open the socket ends it
  without the error handling of \<^verbatim>\<open>main\<close>, and that a stop that comes too early is lost.
\<close>

section \<open>Opening the socket\<close>

record socket_calls =
  wsa_startup :: int
  wsa_socket :: socket
  bind_failed :: bool
  listen_failed :: bool
  wsa_last_error :: int

text \<open>The exceptions of the set-up, with their texts.\<close>

datatype runtime_error = RuntimeError string

definition init_winsock :: "socket_calls \<Rightarrow> runtime_error + unit" where
  "init_winsock calls =
     (if wsa_startup calls \<noteq> 0 then Inl (RuntimeError (''WSAStartup failed: '' @ to_string (wsa_startup calls))) else Inr ())"

text \<open>The socket is stored before it is tested, so it is there to be closed when a later call fails.\<close>

definition create_listen_socket :: "socket_calls \<Rightarrow> reactor \<Rightarrow> (runtime_error + unit) \<times> reactor" where
  "create_listen_socket calls r =
     (let r1 = r\<lparr>listen_socket := wsa_socket calls\<rparr>
      in (if listen_socket r1 = INVALID_SOCKET then Inl (RuntimeError (''WSASocket failed: '' @ to_string (wsa_last_error calls)))
          else if bind_failed calls then Inl (RuntimeError (''Bind failed: '' @ to_string (wsa_last_error calls)))
          else if listen_failed calls then Inl (RuntimeError (''Listen failed: '' @ to_string (wsa_last_error calls)))
          else Inr (), r1))"

text \<open>\<^verbatim>\<open>Reactor::start\<close> up to its loop.\<close>

definition reactor_open :: "socket_calls \<Rightarrow> reactor \<Rightarrow> (runtime_error + unit) \<times> reactor" where
  "reactor_open calls r =
     (case init_winsock calls of
        Inl e \<Rightarrow> (Inl e, r)
      | Inr _ \<Rightarrow>
          (case create_listen_socket calls r of
             (Inl e, r1) \<Rightarrow> (Inl e, r1)
           | (Inr _, r1) \<Rightarrow> (Inr (), r1\<lparr>reactor_running := True\<rparr>)))"

definition set_up_succeeds :: "socket_calls \<Rightarrow> bool" where
  "set_up_succeeds calls \<longleftrightarrow>
     wsa_startup calls = 0 \<and> wsa_socket calls \<noteq> INVALID_SOCKET \<and> \<not> bind_failed calls \<and> \<not> listen_failed calls"

lemma reactor_open_Inr:
  "reactor_open calls r = (Inr (), r') \<longleftrightarrow>
     set_up_succeeds calls \<and> r' = r\<lparr>listen_socket := wsa_socket calls, reactor_running := True\<rparr>"
  by (auto simp: reactor_open_def init_winsock_def create_listen_socket_def set_up_succeeds_def Let_def)

lemma reactor_open_Inl:
  assumes "reactor_open calls r = (Inl e, r')"
  shows "\<not> set_up_succeeds calls \<and> connections r' = connections r"
  using assms by (auto simp: reactor_open_def init_winsock_def create_listen_socket_def set_up_succeeds_def Let_def split: if_splits)

lemma reactor_open_fails: "\<not> set_up_succeeds calls \<Longrightarrow> \<exists>e r'. reactor_open calls r = (Inl e, r')"
  by (auto simp: reactor_open_def init_winsock_def create_listen_socket_def set_up_succeeds_def Let_def)

text \<open>The destructor: the sockets that it closes.\<close>

definition destroy_reactor :: "reactor \<Rightarrow> socket list \<times> reactor" where
  "destroy_reactor r =
     (let r1 = reactor_stop r
      in (if listen_socket r1 \<noteq> INVALID_SOCKET then [listen_socket r1] else [], r1))"

text \<open>A socket that was opened is closed with the reactor, whether the set-up succeeded or not.\<close>

lemma open_socket_closed:
  assumes "wsa_startup calls = 0" and "wsa_socket calls \<noteq> INVALID_SOCKET"
  shows "fst (destroy_reactor (snd (reactor_open calls r))) = [wsa_socket calls]"
  using assms by (simp add: destroy_reactor_def reactor_open_def init_winsock_def create_listen_socket_def reactor_stop_def Let_def)

section \<open>The threads of the process\<close>

datatype main_pc = Waiting | Stopping | Joining_Reactor | Stopping_Pool | Joining_Workers | Closing_Log | Stopping_Wheel | Returned

datatype thread_pc = Opening | Looping | Finished

record 'u process =
  proc_server :: "'u server"
  main_thread :: main_pc
  reactor_thread :: thread_pc
  g_running :: bool
  aborted :: bool

text \<open>Steps of the server that leave its running flags alone.\<close>

definition same_control :: "'u server \<Rightarrow> 'u server \<Rightarrow> bool" where
  "same_control s t \<longleftrightarrow>
     reactor_running (front_end t) = reactor_running (front_end s) \<and> reactor_joined t = reactor_joined s \<and>
     pool_running (wpool (back_end t)) = pool_running (wpool (back_end s))"

text \<open>
  An exception that leaves the function of a thread ends the process (\<^verbatim>\<open>std::terminate\<close>); then nothing
  moves any more.  The main thread sleeps until the signal handler has cleared \<^verbatim>\<open>g_running\<close>.
\<close>

inductive process_step :: "'u pmr_env \<Rightarrow> socket_calls \<Rightarrow> 'u process \<Rightarrow> 'u process \<Rightarrow> bool" for env calls where
  signal: "\<not> aborted p \<Longrightarrow> process_step env calls p (p\<lparr>g_running := False\<rparr>)"
| opened: "\<not> aborted p \<Longrightarrow> reactor_thread p = Opening \<Longrightarrow> reactor_open calls (front_end (proc_server p)) = (Inr (), r) \<Longrightarrow>
     process_step env calls p (p\<lparr>proc_server := (proc_server p)\<lparr>front_end := r\<rparr>, reactor_thread := Looping\<rparr>)"
| failed: "\<not> aborted p \<Longrightarrow> reactor_thread p = Opening \<Longrightarrow> reactor_open calls (front_end (proc_server p)) = (Inl e, r) \<Longrightarrow>
     process_step env calls p (p\<lparr>proc_server := (proc_server p)\<lparr>front_end := r\<rparr>, aborted := True\<rparr>)"
| serve: "\<not> aborted p \<Longrightarrow> server_step env (proc_server p) t \<Longrightarrow> same_control (proc_server p) t \<Longrightarrow>
     log_shutter t = log_shutter (proc_server p) \<Longrightarrow>
     (front_end t \<noteq> front_end (proc_server p) \<Longrightarrow> reactor_thread p = Looping) \<Longrightarrow>
     process_step env calls p (p\<lparr>proc_server := t\<rparr>)"
| finish: "\<not> aborted p \<Longrightarrow> reactor_thread p = Looping \<Longrightarrow> \<not> reactor_running (front_end (proc_server p)) \<Longrightarrow>
     process_step env calls p (p\<lparr>proc_server := (proc_server p)\<lparr>front_end := reactor_finish (front_end (proc_server p)),
       reactor_joined := True\<rparr>, reactor_thread := Finished\<rparr>)"
| leave: "\<not> aborted p \<Longrightarrow> main_thread p = Waiting \<Longrightarrow> \<not> g_running p \<Longrightarrow> process_step env calls p (p\<lparr>main_thread := Stopping\<rparr>)"
| stop: "\<not> aborted p \<Longrightarrow> main_thread p = Stopping \<Longrightarrow>
     process_step env calls p (p\<lparr>proc_server := (proc_server p)\<lparr>front_end := reactor_stop (front_end (proc_server p))\<rparr>,
       main_thread := Joining_Reactor\<rparr>)"
| join: "\<not> aborted p \<Longrightarrow> main_thread p = Joining_Reactor \<Longrightarrow> reactor_thread p = Finished \<Longrightarrow>
     process_step env calls p (p\<lparr>main_thread := Stopping_Pool\<rparr>)"
| pool_down: "\<not> aborted p \<Longrightarrow> main_thread p = Stopping_Pool \<Longrightarrow>
     process_step env calls p (p\<lparr>proc_server := (proc_server p)\<lparr>back_end :=
       set_pool ((wpool (back_end (proc_server p)))\<lparr>pool_running := False\<rparr>) (back_end (proc_server p))\<rparr>, main_thread := Joining_Workers\<rparr>)"
| workers_joined: "\<not> aborted p \<Longrightarrow> main_thread p = Joining_Workers \<Longrightarrow> \<forall>w \<in> set (workers (back_end (proc_server p))). w = Exited \<Longrightarrow>
     process_step env calls p (p\<lparr>main_thread := Closing_Log\<rparr>)"
| close_log: "\<not> aborted p \<Longrightarrow> main_thread p = Closing_Log \<Longrightarrow> log_step env (proc_server p) t \<Longrightarrow>
     process_step env calls p (p\<lparr>proc_server := t\<rparr>)"
| log_closed: "\<not> aborted p \<Longrightarrow> main_thread p = Closing_Log \<Longrightarrow> log_shutter (proc_server p) = Closed \<Longrightarrow>
     process_step env calls p (p\<lparr>main_thread := Stopping_Wheel\<rparr>)"
| wheel_stopped: "\<not> aborted p \<Longrightarrow> main_thread p = Stopping_Wheel \<Longrightarrow> process_step env calls p (p\<lparr>main_thread := Returned\<rparr>)"

text \<open>The state in which \<^verbatim>\<open>build_and_run\<close> has started the thread of the reactor, which has not yet run.\<close>

definition launch :: "'u server \<Rightarrow> 'u process" where
  "launch s =
     \<lparr>proc_server = s\<lparr>front_end := mk_reactor (reactor_port (front_end s))\<rparr>, main_thread = Waiting,
      reactor_thread = Opening, g_running = True, aborted = False\<rparr>"

definition process_start :: "16 word \<Rightarrow> nat \<Rightarrow> 'u shard_router \<Rightarrow> aof_logger \<Rightarrow> 'u process" where
  "process_start q n r l = launch (server_start q n r (Some l))"

lemma server_start_port [simp]: "reactor_port (front_end (server_start q n r aof)) = q"
  by (simp add: server_start_def mk_reactor_def)

lemmas launch_simps = process_start_def launch_def

text \<open>
  What the process reports: \<^verbatim>\<open>main\<close> turns the exceptions of the start into status 1; an assertion or a
  division by zero ends the process.
\<close>

datatype exit_status = Exit int | Abnormal

fun start_status :: "boot_error \<Rightarrow> exit_status" where
  "start_status (LogFailed _) = Exit 1"
| "start_status (RouterFailed _) = Abnormal"

text \<open>\<^verbatim>\<open>main\<close> up to the loop in which it waits.\<close>

definition main_start ::
  "'u pmr_env \<Rightarrow> bool \<Rightarrow> (nat \<Rightarrow> time_point) \<Rightarrow> string option \<Rightarrow> bool \<Rightarrow> time_point \<Rightarrow> size_t \<Rightarrow> exit_status + 'u process" where
  "main_start env ndebug clock aof_file can_open now concurrency =
     (case main_builder concurrency of
        Inl _ \<Rightarrow> Inl (Exit 1)
      | Inr b \<Rightarrow>
          (case start_server env ndebug clock aof_file can_open now b of
             Inl e \<Rightarrow> Inl (start_status e)
           | Inr (_, _, s) \<Rightarrow> Inr (launch s)))"

definition process_status :: "'u process \<Rightarrow> exit_status option" where
  "process_status p = (if aborted p then Some Abnormal else if main_thread p = Returned then Some (Exit 0) else None)"

section \<open>The process serves as the server does\<close>

definition process_inv :: "'u pmr_env \<Rightarrow> socket_calls \<Rightarrow> 'u shard_router \<Rightarrow> string \<Rightarrow> 'u process \<Rightarrow> bool" where
  "process_inv env calls r0 contents p \<longleftrightarrow>
     server_inv env r0 (proc_server p) \<and> life_inv env r0 contents (proc_server p) \<and>
     (main_thread p \<in> {Waiting, Stopping, Joining_Reactor} \<or> reactor_thread p = Finished) \<and>
     (reactor_thread p \<noteq> Opening \<longrightarrow> set_up_succeeds calls) \<and> (set_up_succeeds calls \<longrightarrow> \<not> aborted p)"

text \<open>Both invariants of the server look at the open connections and at the workers' side only.\<close>

lemma server_inv_front_end:
  "connections r = connections (front_end s) \<Longrightarrow> server_inv env r0 (s\<lparr>front_end := r\<rparr>) = server_inv env r0 s"
  by (simp add: server_inv_def connection_ok_def)

lemma life_inv_front_end [simp]: "life_inv env r0 contents (s\<lparr>front_end := r\<rparr>) = life_inv env r0 contents s"
  by (simp add: life_inv_def logging_inv_def aof_view_def)

lemma life_inv_joined [simp]: "life_inv env r0 contents (s\<lparr>reactor_joined := b\<rparr>) = life_inv env r0 contents s"
  by (simp add: life_inv_def logging_inv_def aof_view_def)

lemma server_inv_closed: "server_inv env r0 s \<Longrightarrow> server_inv env r0 (s\<lparr>front_end := reactor_finish r, reactor_joined := b\<rparr>)"
  by (simp add: server_inv_def reactor_finish_def)

lemma server_inv_stop_pool:
  "server_inv env r0 s \<Longrightarrow> server_inv env r0 (s\<lparr>back_end := set_pool ((wpool (back_end s))\<lparr>pool_running := False\<rparr>) (back_end s)\<rparr>)"
  by (simp add: server_inv_def connection_ok_def pending_def pool_items_def)

lemma life_inv_stop_pool:
  "life_inv env r0 contents s \<Longrightarrow>
   life_inv env r0 contents (s\<lparr>back_end := set_pool ((wpool (back_end s))\<lparr>pool_running := False\<rparr>) (back_end s)\<rparr>)"
  by (auto simp: life_inv_def history_inv_def logging_inv_def aof_view_def exited_inv_def)

lemma process_step_inv:
  assumes "process_inv env calls r0 contents p" and "process_step env calls p q"
  shows "process_inv env calls r0 contents q"
  using assms(2,1)
proof (induction rule: process_step.induct)
  case (opened p r)
  then show ?case by (simp add: process_inv_def reactor_open_Inr server_inv_front_end)
next
  case (failed p e r)
  have "connections r = connections (front_end (proc_server p))" "\<not> set_up_succeeds calls"
    using reactor_open_Inl [OF failed.hyps(3)] by blast+
  with failed show ?case by (simp add: process_inv_def server_inv_front_end)
next
  case (serve p t)
  then show ?case using server_step_inv life_inv_step by (fastforce simp: process_inv_def)
next
  case (finish p)
  then show ?case by (auto simp: process_inv_def server_inv_closed)
next
  case (stop p)
  then show ?case by (simp add: process_inv_def server_inv_front_end reactor_stop_def)
next
  case (pool_down p)
  then show ?case by (simp add: process_inv_def server_inv_stop_pool life_inv_stop_pool)
next
  case (close_log p t)
  then show ?case using server_step_inv life_inv_step by (fastforce simp: process_inv_def log_step_def)
qed (auto simp: process_inv_def)

interpretation process: step_invariant
  "\<lambda>p. \<exists>q n l. router_wf env r0 \<and> logger_started contents l \<and> p = process_start q n r0 l"
  "process_step env calls" "process_inv env calls r0 contents"
proof unfold_locales
  fix p q :: "'a process"
  show "process_inv env calls r0 contents p" if "\<exists>q n l. router_wf env r0 \<and> logger_started contents l \<and> p = process_start q n r0 l"
  proof -
    from that obtain q n l where p: "router_wf env r0" "logger_started contents l" "p = process_start q n r0 l" by blast
    have "life_inv env r0 contents (server_start q n r0 (Some l))" using life.init_inv p(2) by blast
    moreover have "server_inv env r0 ((server_start q n r0 (Some l))\<lparr>front_end := mk_reactor q\<rparr>)"
      using p(1) by (simp add: server_inv_def server_start_def mk_reactor_def pool_start_def engine_ok_def history_ok_def)
    ultimately show ?thesis by (simp add: p(3) launch_simps process_inv_def)
  qed
  show "process_inv env calls r0 contents p \<Longrightarrow> process_step env calls p q \<Longrightarrow> process_inv env calls r0 contents q"
    by (rule process_step_inv)
qed

section \<open>Ending the process\<close>

abbreviation with_server :: "'u process \<Rightarrow> 'u server \<Rightarrow> 'u process" where
  "with_server p s \<equiv> p\<lparr>proc_server := s\<rparr>"

lemma process_work:
  assumes "worker_step env (back_end (proc_server p)) b" and "\<not> aborted p"
  shows "process_step env calls p (with_server p ((proc_server p)\<lparr>back_end := b\<rparr>))"
  using assms worker_step_running [OF assms(1)] server_step.work [OF assms(1)]
  by (intro process_step.serve) (simp_all add: same_control_def)

lemma process_run_workers:
  assumes "(worker_step env)\<^sup>*\<^sup>* (back_end (proc_server p)) b" and "\<not> aborted p"
  shows "(process_step env calls)\<^sup>*\<^sup>* p (with_server p ((proc_server p)\<lparr>back_end := b\<rparr>))"
  using assms
proof (induction rule: rtranclp_induct)
  case (step b c)
  then show ?case
    using process_work [of env "with_server p ((proc_server p)\<lparr>back_end := b\<rparr>)" c calls] by (simp add: rtranclp.rtrancl_into_rtrancl)
qed simp

lemma process_run_log:
  assumes "(log_step env)\<^sup>*\<^sup>* (proc_server p) t" and "\<not> aborted p" and "main_thread p = Closing_Log"
  shows "(process_step env calls)\<^sup>*\<^sup>* p (with_server p t)"
  using assms
proof (induction rule: rtranclp_induct)
  case (step t u)
  have "process_step env calls (with_server p t) (with_server (with_server p t) u)"
    using step by (intro process_step.close_log) simp_all
  with step show ?case by (simp add: rtranclp.rtrancl_into_rtrancl)
qed simp

text \<open>From the call of \<^verbatim>\<open>pool.shutdown\<close> on.\<close>

lemma process_run_shutdown:
  assumes "process_inv env calls r0 contents p" and "\<not> aborted p" and "main_thread p = Stopping_Pool"
    and "workers (back_end (proc_server p)) \<noteq> []"
  shows "\<exists>t l ws. (process_step env calls)\<^sup>*\<^sup>* p t \<and> main_thread t = Returned \<and> \<not> aborted t \<and>
    engine_aof (back_end (proc_server t)) = Some l \<and> log_shutter (proc_server t) = Closed \<and>
    written l = contents @ aof_lines (map serialize ws) \<and> mset ws = mset (applied (back_end (proc_server t))) \<and>
    pool_queue (wpool (back_end (proc_server t))) = []"
proof -
  let ?s = "proc_server p"
  let ?s1 = "?s\<lparr>back_end := set_pool ((wpool (back_end ?s))\<lparr>pool_running := False\<rparr>) (back_end ?s)\<rparr>"
  let ?p1 = "p\<lparr>proc_server := ?s1, main_thread := Joining_Workers\<rparr>"
  have "\<not> pool_running (wpool (back_end ?s1))" by simp
  then obtain b where b: "(worker_step env)\<^sup>*\<^sup>* (back_end ?s1) b" "\<forall>w \<in> set (workers b). w = Exited"
    by (rule stopped_workers_exit)
  let ?s2 = "?s1\<lparr>back_end := b\<rparr>" and ?p3 = "?p1\<lparr>proc_server := ?s1\<lparr>back_end := b\<rparr>, main_thread := Closing_Log\<rparr>"
  have 1: "process_step env calls p ?p1" by (rule process_step.pool_down [OF assms(2,3)])
  have 2: "(process_step env calls)\<^sup>*\<^sup>* ?p1 (with_server ?p1 ?s2)"
    using process_run_workers [of env ?p1 b calls] b(1) assms(2) by simp
  have 3: "process_step env calls (with_server ?p1 ?s2) ?p3"
    using process_step.workers_joined [of "with_server ?p1 ?s2" env calls] b(2) assms(2) by simp
  have "life_inv env r0 contents ?s" using assms(1) by (simp add: process_inv_def)
  then have "life_inv env r0 contents ?s1" by (rule life_inv_stop_pool)
  from life_inv_run [OF server_run_workers [OF b(1)] this] have "life_inv env r0 contents ?s2" "workers b \<noteq> []"
    using assms(4) by (auto simp: set_pool_def)
  then obtain u l where u: "log_thread_step\<^sup>*\<^sup>* (aof_view ?s2 l) u" "engine_aof (back_end ?s2) = Some l" "shutter u = Closed"
    "written (logger u) = contents @ aof_lines (map serialize (logged b))" "mset (logged b) = mset (applied b)"
    "pool_queue (wpool b) = []"
    using exited_server_closes [of env r0 contents ?s2] b(2) by auto
  let ?s4 = "?s2\<lparr>back_end := set_logger (logger u) b, log_flusher := flusher u, log_shutter := shutter u\<rparr>"
  have "(log_step env)\<^sup>*\<^sup>* ?s2 ?s4" using log_threads_steps [OF u(1,2) refl] b(2) by simp
  then have 4: "(process_step env calls)\<^sup>*\<^sup>* ?p3 (with_server ?p3 ?s4)"
    using process_run_log [of env ?p3 ?s4 calls] assms(2) by simp
  have 5: "process_step env calls (with_server ?p3 ?s4) ((with_server ?p3 ?s4)\<lparr>main_thread := Stopping_Wheel\<rparr>)"
    using process_step.log_closed [of "with_server ?p3 ?s4" env calls] u(3) assms(2) by simp
  let ?p5 = "(with_server ?p3 ?s4)\<lparr>main_thread := Stopping_Wheel\<rparr>"
  have 6: "process_step env calls ?p5 (?p5\<lparr>main_thread := Returned\<rparr>)"
    using process_step.wheel_stopped [of ?p5 env calls] assms(2) by simp
  from 1 2 3 4 5 6 have "(process_step env calls)\<^sup>*\<^sup>* p (?p5\<lparr>main_thread := Returned\<rparr>)"
    by (meson converse_rtranclp_into_rtranclp rtranclp_trans r_into_rtranclp)
  with u assms(2) show ?thesis
    by (intro exI [of _ "?p5\<lparr>main_thread := Returned\<rparr>"] exI [of _ "logger u"] exI [of _ "logged b"]) simp
qed

lemma process_step_workers:
  "process_step env calls p q \<Longrightarrow> length (workers (back_end (proc_server q))) = length (workers (back_end (proc_server p)))"
  by (induction rule: process_step.induct) (auto simp: log_step_def dest: server_step_workers)

lemma process_run_worker_count:
  "(process_step env calls)\<^sup>*\<^sup>* (process_start q n r l) p \<Longrightarrow> length (workers (back_end (proc_server p))) = n"
  by (induction rule: rtranclp_induct) (simp_all add: process_step_workers launch_simps server_start_def pool_start_def)

section \<open>Properties\<close>

text \<open>
  A signal ends the process in order.  From every state of the process in which the reactor has opened its
  socket and the main thread still waits, whatever the clients and the workers are doing, there is a run in
  which the signal arrives, the reactor's thread ends and is joined, the workers execute what is queued and are
  joined, the log is closed and \<^verbatim>\<open>main\<close> returns 0.  The file then holds its old contents and the text of
  exactly the writes that took effect, each once.
\<close>

theorem process_returns:
  assumes "router_wf env r" and "logger_started contents l0"
    and "(process_step env calls)\<^sup>*\<^sup>* (process_start q n r l0) p" and "0 < n"
    and "reactor_thread p = Looping" and "main_thread p = Waiting"
  shows "\<exists>t l ws. (process_step env calls)\<^sup>*\<^sup>* p t \<and> process_status t = Some (Exit 0) \<and>
    engine_aof (back_end (proc_server t)) = Some l \<and> written l = contents @ aof_lines (map serialize ws) \<and>
    mset ws = mset (applied (back_end (proc_server t))) \<and> pool_queue (wpool (back_end (proc_server t))) = []"
proof -
  have inv: "process_inv env calls r contents p" using process.reachable_inv [OF _ assms(3)] assms(1,2) by blast
  then have na: "\<not> aborted p" using assms(5) by (simp add: process_inv_def)
  let ?s = "proc_server p"
  let ?p1 = "p\<lparr>g_running := False\<rparr>" and ?p2 = "p\<lparr>g_running := False, main_thread := Stopping\<rparr>"
  let ?s3 = "?s\<lparr>front_end := reactor_stop (front_end ?s)\<rparr>"
  let ?p3 = "?p2\<lparr>proc_server := ?s3, main_thread := Joining_Reactor\<rparr>"
  let ?s4 = "?s3\<lparr>front_end := reactor_finish (front_end ?s3), reactor_joined := True\<rparr>"
  let ?p4 = "?p3\<lparr>proc_server := ?s4, reactor_thread := Finished\<rparr>" and ?p5 = "?p3\<lparr>proc_server := ?s4, reactor_thread := Finished, main_thread := Stopping_Pool\<rparr>"
  have "process_step env calls p ?p1" by (rule process_step.signal [OF na])
  moreover have "process_step env calls ?p1 ?p2" using process_step.leave [of ?p1 env calls] na assms(6) by simp
  moreover have "process_step env calls ?p2 ?p3" using process_step.stop [of ?p2 env calls] na by simp
  moreover have "process_step env calls ?p3 ?p4"
    using process_step.finish [of ?p3 env calls] na assms(5) by (simp add: reactor_stop_def)
  moreover have "process_step env calls ?p4 ?p5" using process_step.join [of ?p4 env calls] na by simp
  ultimately have run: "(process_step env calls)\<^sup>*\<^sup>* p ?p5"
    by (meson converse_rtranclp_into_rtranclp rtranclp.rtrancl_refl)
  have i5: "process_inv env calls r contents ?p5" by (rule process.run_inv [OF run inv])
  have "workers (back_end (proc_server ?p5)) \<noteq> []" using process_run_worker_count [OF assms(3)] assms(4) by auto
  from process_run_shutdown [OF i5 _ _ this] na obtain t l ws where t: "(process_step env calls)\<^sup>*\<^sup>* ?p5 t" "main_thread t = Returned"
    "\<not> aborted t" "engine_aof (back_end (proc_server t)) = Some l" "written l = contents @ aof_lines (map serialize ws)"
    "mset ws = mset (applied (back_end (proc_server t)))" "pool_queue (wpool (back_end (proc_server t))) = []" by auto
  with run have "(process_step env calls)\<^sup>*\<^sup>* p t" by (meson rtranclp_trans)
  with t show ?thesis by (auto simp: process_status_def)
qed

text \<open>
  C35.  A stop that comes too early is lost.  If the signal arrives and the main thread stops the reactor
  before the reactor's thread has got to its loop, which then sets its flag to true, the process is in a state
  from which no run lets \<^verbatim>\<open>main\<close> return: it waits for the reactor's thread for ever, and the log is
  never closed.
\<close>

theorem early_stop_lost:
  assumes "set_up_succeeds calls"
  shows "\<exists>p. (process_step env calls)\<^sup>*\<^sup>* (process_start q n r l) p \<and> \<not> g_running p \<and>
    (\<forall>t. (process_step env calls)\<^sup>*\<^sup>* p t \<longrightarrow> main_thread t = Joining_Reactor \<and> process_status t = None \<and>
       log_shutter (proc_server t) = NotShut)"
proof -
  let ?stuck = "\<lambda>p. main_thread p = Joining_Reactor \<and> reactor_thread p = Looping \<and> reactor_running (front_end (proc_server p)) \<and>
    \<not> aborted p \<and> log_shutter (proc_server p) = NotShut"
  have step_stuck: "?stuck q" if "?stuck p" "process_step env calls p q" for p q :: "'a process"
    using that(2,1) by (induction rule: process_step.induct) (auto simp: same_control_def)
  have stuck: "?stuck t" if "(process_step env calls)\<^sup>*\<^sup>* p t" "?stuck p" for p t
    using that
  proof (induction rule: rtranclp_induct)
    case (step u v)
    then show ?case using step_stuck [of u v] by blast
  qed blast
  let ?p = "process_start q n r l"
  let ?p1 = "?p\<lparr>g_running := False\<rparr>" and ?p2 = "?p\<lparr>g_running := False, main_thread := Stopping\<rparr>"
  let ?s3 = "(proc_server ?p)\<lparr>front_end := reactor_stop (front_end (proc_server ?p))\<rparr>"
  let ?p3 = "?p2\<lparr>proc_server := ?s3, main_thread := Joining_Reactor\<rparr>"
  let ?r = "(front_end ?s3)\<lparr>listen_socket := wsa_socket calls, reactor_running := True\<rparr>"
  let ?p4 = "?p3\<lparr>proc_server := ?s3\<lparr>front_end := ?r\<rparr>, reactor_thread := Looping\<rparr>"
  have na: "\<not> aborted ?p" by (simp add: launch_simps)
  have "process_step env calls ?p ?p1" by (rule process_step.signal [OF na])
  moreover have "process_step env calls ?p1 ?p2"
    using process_step.leave [of ?p1 env calls] na by (simp add: launch_simps)
  moreover have "process_step env calls ?p2 ?p3" using process_step.stop [of ?p2 env calls] na by simp
  moreover have "process_step env calls ?p3 ?p4"
    using process_step.opened [of ?p3 calls ?r env] na assms by (simp add: reactor_open_Inr launch_simps)
  ultimately have "(process_step env calls)\<^sup>*\<^sup>* ?p ?p4" by (meson converse_rtranclp_into_rtranclp rtranclp.rtrancl_refl)
  moreover have "?stuck ?p4" using na by (simp add: launch_simps server_start_def)
  ultimately show ?thesis using stuck by (intro exI [of _ ?p4]) (auto simp: process_status_def)
qed

text \<open>
  C36.  A failure to open the socket ends the process abnormally.  If \<^verbatim>\<open>WSAStartup\<close>, \<^verbatim>\<open>WSASocketW\<close>, \<^verbatim>\<open>bind\<close> or
  \<^verbatim>\<open>listen\<close> reports an error, then in no run does \<^verbatim>\<open>main\<close> return, not even with its error status: the exception leaves
  the reactor's thread, and from every state in which the process still runs it can end in this way, the
  logger being left as it was.
\<close>

theorem failed_set_up_aborts:
  assumes "\<not> set_up_succeeds calls" and "router_wf env r" and "logger_started contents l0"
    and "(process_step env calls)\<^sup>*\<^sup>* (process_start q n r l0) p"
  shows "process_status p \<in> {None, Some Abnormal} \<and>
    (process_status p = None \<longrightarrow> (\<exists>t. process_step env calls p t \<and> process_status t = Some Abnormal \<and>
       engine_aof (back_end (proc_server t)) = engine_aof (back_end (proc_server p))))"
proof -
  have inv: "process_inv env calls r contents p" using process.reachable_inv [OF _ assms(4)] assms(2,3) by blast
  then have o: "reactor_thread p = Opening" "main_thread p \<noteq> Returned" using assms(1) by (auto simp: process_inv_def)
  obtain e r' where "reactor_open calls (front_end (proc_server p)) = (Inl e, r')" using reactor_open_fails [OF assms(1)] by blast
  from process_step.failed [OF _ o(1) this, of env] o(2) show ?thesis
    by (auto simp: process_status_def)
qed

text \<open>Examples.\<close>

abbreviation demo_calls :: socket_calls where
  "demo_calls \<equiv> \<lparr>wsa_startup = 0, wsa_socket = 4, bind_failed = False, listen_failed = False, wsa_last_error = 0\<rparr>"

lemma demo_logger_started: "logger_started [] (demo_logger [])"
  by (auto simp: logger_started_def aof_start_def demo_logger_def mk_aof_logger_def)

theorem process_returns_witness:
  "\<exists>t. (process_step demo_env demo_calls)\<^sup>*\<^sup>* (process_start 8080 1 demo_router (demo_logger [])) t \<and>
     process_status t = Some (Exit 0)"
proof -
  let ?p = "process_start 8080 1 demo_router (demo_logger [])"
  have "set_up_succeeds demo_calls" by (simp add: set_up_succeeds_def INVALID_SOCKET_def)
  then obtain r where "reactor_open demo_calls (front_end (proc_server ?p)) = (Inr (), r)" by (simp add: reactor_open_Inr)
  from process_step.opened [OF _ _ this, of demo_env] obtain p where p: "process_step demo_env demo_calls ?p p"
    "reactor_thread p = Looping" "main_thread p = Waiting" by (force simp: launch_simps)
  have run: "(process_step demo_env demo_calls)\<^sup>*\<^sup>* ?p p" using p(1) by (rule r_into_rtranclp)
  from process_returns [OF demo_router_wf demo_logger_started run _ p(2,3)] obtain t
    where "(process_step demo_env demo_calls)\<^sup>*\<^sup>* p t" "process_status t = Some (Exit 0)" by auto
  with run show ?thesis by (meson rtranclp_trans)
qed

theorem early_stop_lost_witness:
  "\<exists>p. (process_step demo_env demo_calls)\<^sup>*\<^sup>* (process_start 8080 1 demo_router (demo_logger [])) p \<and> \<not> g_running p \<and>
     main_thread p = Joining_Reactor \<and> process_status p = None"
proof -
  have "set_up_succeeds demo_calls" by (simp add: set_up_succeeds_def INVALID_SOCKET_def)
  from early_stop_lost [OF this, of demo_env 8080 1 demo_router "demo_logger []"] show ?thesis by blast
qed

theorem failed_set_up_aborts_witness:
  "\<exists>t. process_step demo_env (demo_calls\<lparr>bind_failed := True\<rparr>) (process_start 8080 1 demo_router (demo_logger [])) t \<and>
     process_status t = Some Abnormal"
proof -
  have "\<not> set_up_succeeds (demo_calls\<lparr>bind_failed := True\<rparr>)" by (simp add: set_up_succeeds_def)
  moreover have "process_status (process_start 8080 1 demo_router (demo_logger [])) = None"
    by (simp add: process_status_def launch_simps)
  ultimately show ?thesis
    using failed_set_up_aborts [OF _ demo_router_wf demo_logger_started rtranclp.rtrancl_refl, of "demo_calls\<lparr>bind_failed := True\<rparr>" 8080 1]
    by blast
qed

end
