(* ===== verification/KV_Service.thy ===== *)
theory KV_Service
  imports KV_Boot
begin

text \<open>
  The server at work.  The event loop of \<^verbatim>\<open>Reactor::start\<close> runs within the steps of the server, so what
  holds in every run holds for the loop; and a server that has not been stopped can always answer
  every request it has accepted, down to the last byte.
\<close>

section \<open>The event loop is a run of the server\<close>

text \<open>
  What the operating system may report for an entry of the poll set: a socket that \<^verbatim>\<open>accept\<close>
  returns is not open yet, and \<^verbatim>\<open>send\<close> takes at most what it is given.
\<close>

fun event_possible :: "poll_event \<Rightarrow> reactor \<times> worker_pool \<Rightarrow> bool" where
  "event_possible (ListenEvent readable incoming) (r, p) \<longleftrightarrow>
     (\<forall>c ip. readable \<longrightarrow> incoming = Some (c, ip) \<longrightarrow> map_of (connections r) c = None)"
| "event_possible (ClientEvent c failed readable writable) (r, p) \<longleftrightarrow>
     (\<forall>n st. writable = Some (Some n) \<longrightarrow>
        map_of (connections (fst (handle_event (ClientEvent c failed readable None) (r, p)))) c = Some st \<longrightarrow>
        n \<le> length (write_buffer st))"

fun events_possible :: "poll_event list \<Rightarrow> reactor \<times> worker_pool \<Rightarrow> bool" where
  "events_possible [] rp \<longleftrightarrow> True"
| "events_possible (e # es) rp \<longleftrightarrow> event_possible e rp \<and> events_possible es (handle_event e rp)"

text \<open>The clients of a pass: each entry of the poll set is reported at most once.\<close>

fun event_clients :: "poll_event list \<Rightarrow> socket list" where
  "event_clients [] = []"
| "event_clients (ListenEvent _ _ # es) = event_clients es"
| "event_clients (ClientEvent c _ _ _ # es) = c # event_clients es"

definition polled :: "poll_event list \<Rightarrow> reactor \<Rightarrow> bool" where
  "polled events r \<longleftrightarrow> distinct (event_clients events) \<and> set (event_clients events) \<subseteq> poll_socket ` set (tl (poll_fds r))"

lemma polled_connected:
  assumes "prepare_poll rp = (r, p)" and "polled events r"
  shows "\<forall>c \<in> set (event_clients events). map_of (connections r) c \<noteq> None"
proof -
  from assms(1) obtain r' where "r = rebuild_poll_set r'" by (auto simp: prepare_poll_def split: prod.splits)
  then have "poll_socket ` set (tl (poll_fds r)) = fst ` set (connections r)"
    by (auto simp: rebuild_poll_set_def image_image case_prod_beta)
  with assms(2) show ?thesis by (auto simp: polled_def map_of_eq_None_iff)
qed

text \<open>Handling a client's event leaves the other clients connected.\<close>

lemma handle_read_others:
  "c' \<noteq> c \<Longrightarrow> (map_of (connections (fst (handle_read c received rp))) c' = None) = (map_of (connections (fst rp)) c' = None)"
  by (auto simp: handle_read_def disconnect_def split: option.splits prod.splits)

lemma handle_write_others:
  "c' \<noteq> c \<Longrightarrow> (map_of (connections (handle_write c sent r)) c' = None) = (map_of (connections r) c' = None)"
  by (auto simp: handle_write_def disconnect_def Let_def split: option.splits)

lemma handle_event_others:
  assumes "c' \<notin> set (event_clients [e])" and "map_of (connections (fst rp)) c' \<noteq> None"
  shows "map_of (connections (fst (handle_event e rp))) c' \<noteq> None"
proof (cases rp)
  case (Pair r p)
  show ?thesis
  proof (cases e)
    case (ListenEvent readable incoming)
    with assms(2) Pair show ?thesis by (auto simp: accept_connection_def split: option.splits)
  next
    case (ClientEvent c failed readable writable)
    obtain r1 p1 where r1: "(case readable of None \<Rightarrow> (r, p) | Some received \<Rightarrow> handle_read c received (r, p)) = (r1, p1)"
      by (metis surj_pair)
    have c: "c' \<noteq> c" using assms(1) ClientEvent by simp
    have "map_of (connections r1) c' \<noteq> None"
      using r1 assms(2) Pair handle_read_others [OF c, of _ "(r, p)"] by (cases readable) (simp, metis fst_conv option.case(2))
    with assms(2) c ClientEvent Pair r1 handle_write_others [OF c, of _ r1] show ?thesis
      by (auto simp: disconnect_def split: option.splits)
  qed
qed

text \<open>A server whose reactor and pool are in the given state, reached from \<open>s\<close>.\<close>

definition serves :: "'u pmr_env \<Rightarrow> 'u server \<Rightarrow> reactor \<times> worker_pool \<Rightarrow> bool" where
  "serves env s rp \<longleftrightarrow>
     (\<exists>t. (server_step env)\<^sup>*\<^sup>* s t \<and> \<not> reactor_joined t \<and> front_end t = fst rp \<and> back_end t = set_pool (snd rp) (back_end s))"

lemma set_pool_set_pool [simp]: "set_pool p (set_pool q b) = set_pool p b"
  by (simp add: set_pool_def)

lemma servesI:
  assumes "serves env s rp"
    and "\<And>t. front_end t = fst rp \<Longrightarrow> wpool (back_end t) = snd rp \<Longrightarrow> \<not> reactor_joined t \<Longrightarrow>
      \<exists>u. server_step env t u \<and> \<not> reactor_joined u \<and> front_end u = fst rp' \<and> back_end u = set_pool (snd rp') (back_end t)"
  shows "serves env s rp'"
proof -
  from assms(1) obtain t where t: "(server_step env)\<^sup>*\<^sup>* s t" "\<not> reactor_joined t" "front_end t = fst rp"
    "back_end t = set_pool (snd rp) (back_end s)" by (auto simp: serves_def)
  then obtain u where "server_step env t u" "\<not> reactor_joined u" "front_end u = fst rp'" "back_end u = set_pool (snd rp') (back_end t)"
    using assms(2) [of t] by auto
  with t show ?thesis unfolding serves_def
    by (intro exI [of _ u]) (auto intro: rtranclp.rtrancl_into_rtrancl)
qed

lemma set_pool_same: "wpool b = p \<Longrightarrow> set_pool p b = b"
  by (auto simp: set_pool_def)

lemma serves_start: "\<not> reactor_joined s \<Longrightarrow> serves env s (front_end s, wpool (back_end s))"
  unfolding serves_def by (intro exI [of _ s]) (simp add: set_pool_same)

lemma serves_prepare:
  assumes "serves env s rp"
  shows "serves env s (prepare_poll rp)"
proof (rule servesI [OF assms])
  fix t :: "'a server"
  assume t: "front_end t = fst rp" "wpool (back_end t) = snd rp" "\<not> reactor_joined t"
  then have "prepare_poll (front_end t, wpool (back_end t)) = (fst (prepare_poll rp), snd (prepare_poll rp))" by simp
  from server_step.poll [OF t(3) this, of env] t(3)
  show "\<exists>u. server_step env t u \<and> \<not> reactor_joined u \<and> front_end u = fst (prepare_poll rp) \<and>
      back_end u = set_pool (snd (prepare_poll rp)) (back_end t)" by force
qed

lemma serves_accept:
  assumes "serves env s (r, p)" and "\<forall>c ip. incoming = Some (c, ip) \<longrightarrow> map_of (connections r) c = None"
  shows "serves env s (snd (accept_connection incoming r), p)"
proof (cases incoming)
  case None
  with assms(1) show ?thesis by (simp add: accept_connection_def)
next
  case (Some x)
  then obtain c ip where i: "incoming = Some (c, ip)" by (cases x) simp
  show ?thesis
  proof (rule servesI [OF assms(1)])
    fix t :: "'a server"
    assume t: "front_end t = fst (r, p)" "wpool (back_end t) = snd (r, p)" "\<not> reactor_joined t"
    then have "map_of (connections (front_end t)) c = None" using assms(2) i by simp
    from server_step.accept [OF t(3) this, of env ip] t i
    show "\<exists>u. server_step env t u \<and> \<not> reactor_joined u \<and> front_end u = fst (snd (accept_connection incoming r), p) \<and>
      back_end u = set_pool (snd (snd (accept_connection incoming r), p)) (back_end t)"
      by (force simp: set_pool_same)
  qed
qed

lemma serves_read:
  assumes "serves env s rp" and "map_of (connections (fst rp)) c \<noteq> None"
  shows "serves env s (handle_read c received rp)"
proof (rule servesI [OF assms(1)])
  fix t :: "'a server"
  assume t: "front_end t = fst rp" "wpool (back_end t) = snd rp" "\<not> reactor_joined t"
  from assms(2) t(1) obtain st where st: "map_of (connections (front_end t)) c = Some st" by auto
  have "handle_read c received (front_end t, wpool (back_end t)) = (fst (handle_read c received rp), snd (handle_read c received rp))"
    using t by simp
  from server_step.read [OF t(3) st this, of env] t(3)
  show "\<exists>u. server_step env t u \<and> \<not> reactor_joined u \<and> front_end u = fst (handle_read c received rp) \<and>
      back_end u = set_pool (snd (handle_read c received rp)) (back_end t)" by force
qed

lemma serves_write:
  assumes "serves env s (r, p)"
    and "\<forall>n st. sent = Some n \<longrightarrow> map_of (connections r) c = Some st \<longrightarrow> n \<le> length (write_buffer st)"
  shows "serves env s (handle_write c sent r, p)"
proof (cases "map_of (connections r) c")
  case None
  with assms(1) show ?thesis by (simp add: handle_write_def)
next
  case (Some st)
  show ?thesis
  proof (rule servesI [OF assms(1)])
    fix t :: "'a server"
    assume t: "front_end t = fst (r, p)" "wpool (back_end t) = snd (r, p)" "\<not> reactor_joined t"
    with Some have "map_of (connections (front_end t)) c = Some st" by simp
    from server_step.send [OF t(3) this, of sent env] t assms(2) Some
    show "\<exists>u. server_step env t u \<and> \<not> reactor_joined u \<and> front_end u = fst (handle_write c sent r, p) \<and>
      back_end u = set_pool (snd (handle_write c sent r, p)) (back_end t)"
      by (force simp: set_pool_same)
  qed
qed

lemma serves_disconnect:
  assumes "serves env s (r, p)" and "map_of (connections r) c \<noteq> None"
  shows "serves env s (disconnect c r, p)"
  using serves_read [OF assms(1), of c None] assms(2) by (simp add: handle_read_def)

lemma serves_event:
  assumes "serves env s rp" and "event_possible e rp"
    and "\<forall>c \<in> set (event_clients [e]). map_of (connections (fst rp)) c \<noteq> None"
  shows "serves env s (handle_event e rp)"
proof (cases rp)
  case (Pair r p)
  show ?thesis
  proof (cases e)
    case (ListenEvent readable incoming)
    with assms Pair serves_accept [of env s r p incoming] show ?thesis by simp
  next
    case (ClientEvent c failed readable writable)
    have c: "map_of (connections r) c \<noteq> None" using assms(3) ClientEvent Pair by simp
    obtain r1 p1 where r1: "(case readable of None \<Rightarrow> (r, p) | Some received \<Rightarrow> handle_read c received (r, p)) = (r1, p1)"
      by (metis surj_pair)
    have "serves env s (r1, p1)"
      using r1 assms(1) Pair serves_read [of env s "(r, p)" c] c by (cases readable) (simp, metis fst_conv option.case(2))
    moreover have "handle_event (ClientEvent c False readable None) (r, p) = (r1, p1)" using r1 by simp
    ultimately show ?thesis
      using assms(1,2) ClientEvent Pair r1 c serves_disconnect [of env s r p c] serves_write [of env s r1 p1 _ c]
      by (cases writable) (auto split: if_splits)
  qed
qed

lemma serves_events:
  assumes "serves env s rp" and "events_possible events rp" and "distinct (event_clients events)"
    and "\<forall>c \<in> set (event_clients events). map_of (connections (fst rp)) c \<noteq> None"
  shows "serves env s (fold handle_event events rp)"
  using assms
proof (induction events arbitrary: rp)
  case (Cons e events)
  have d: "distinct (event_clients events)" "set (event_clients [e]) \<inter> set (event_clients events) = {}"
    "set (event_clients (e # events)) = set (event_clients [e]) \<union> set (event_clients events)"
    using Cons.prems(3) by (cases e; auto)+
  then have "\<forall>c \<in> set (event_clients events). map_of (connections (fst (handle_event e rp))) c \<noteq> None"
    using Cons.prems(4) handle_event_others [of _ e rp] by blast
  moreover have "serves env s (handle_event e rp)"
    using serves_event [OF Cons.prems(1)] Cons.prems(2,4) d(3) by simp
  ultimately show ?case using Cons.IH Cons.prems(2) d(1) by simp
qed simp

section \<open>Every request can be answered\<close>

text \<open>While the reactor runs the pool runs, and no worker has left its loop.\<close>

definition working :: "'u server \<Rightarrow> bool" where
  "working s \<longleftrightarrow> exited_inv (back_end s) \<and> (\<not> reactor_joined s \<longrightarrow> pool_running (wpool (back_end s)))"

lemma Exited_not_working: "exited_inv b \<Longrightarrow> pool_running (wpool b) \<Longrightarrow> w \<in> set (workers b) \<Longrightarrow> w \<noteq> Exited"
  by (auto simp: exited_inv_def)

lemma exited_inv_step:
  assumes "server_step env s t" and "exited_inv (back_end s)"
  shows "exited_inv (back_end t)"
  using assms(1)
proof (cases rule: server_step_back_end)
  case worker
  with assms(2) show ?thesis by (simp add: worker_step_exited)
next
  case (pool p)
  with assms(2) show ?thesis by (auto simp: exited_inv_def pool_kept_def)
next
  case (log l u)
  with assms(2) show ?thesis by (simp add: exited_inv_def)
qed

lemma process_all_running [simp]: "pool_running (process_all c ip seq ls p) = pool_running p"
  by (induction ls arbitrary: seq p) (simp_all add: process_cases submit_def split: option.splits)

lemma handle_read_running: "handle_read c received (r, p) = (r', p') \<Longrightarrow> pool_running p' = pool_running p"
  using read_lines_effect by (fastforce simp: handle_read_def read_effect_def split: option.splits prod.splits)

lemma working_step:
  assumes "server_step env s t" and "working s"
  shows "working t"
proof -
  have "pool_running (wpool (back_end t))" if "\<not> reactor_joined t"
    using assms that
  proof (induction rule: server_step.induct)
    case (read s c st received r p)
    then show ?case using handle_read_running [OF read.hyps(3)] by (simp add: working_def)
  next
    case (poll s r p)
    then show ?case using prepare_poll_result [OF poll.hyps(2)] by (simp add: working_def)
  next
    case (work s b)
    then show ?case using worker_step_running [OF work.hyps] by (simp add: working_def)
  qed (auto simp: working_def)
  with exited_inv_step [OF assms(1)] assms(2) show ?thesis by (simp add: working_def)
qed

interpretation working: step_invariant
  "\<lambda>s. \<exists>q n r aof. s = server_start q n r aof" "server_step env" working
proof unfold_locales
  fix s t :: "'a server"
  show "\<exists>q n r aof. s = server_start q n r aof \<Longrightarrow> working s"
    by (auto simp: working_def exited_inv_def server_start_def pool_start_def mk_worker_pool_def)
  show "working s \<Longrightarrow> server_step env s t \<Longrightarrow> working t" by (rule working_step)
qed

text \<open>The workers of a running pool come to rest on the empty queue.\<close>

definition resting :: "'u pool_system \<Rightarrow> bool" where
  "resting b \<longleftrightarrow> (\<forall>w \<in> set (workers b). w = Idle) \<and> pool_queue (wpool b) = []"

interpretation workers_rest: draining_system
  "\<lambda>b. exited_inv b \<and> pool_running (wpool b) \<and> workers b \<noteq> []" "worker_step env"
  "\<lambda>b. exited_inv b \<and> pool_running (wpool b) \<and> workers b \<noteq> []" work_left resting
proof unfold_locales
  fix s t :: "'a pool_system"
  assume s: "exited_inv s \<and> pool_running (wpool s) \<and> workers s \<noteq> []"
  then show "worker_step env s t \<Longrightarrow> exited_inv t \<and> pool_running (wpool t) \<and> workers t \<noteq> []"
    using worker_step_exited worker_step_running worker_step_workers by (metis length_0_conv)
  assume "\<not> resting s"
  then have "\<exists>w \<in> set (workers s). \<not> at_rest s w"
    using s by (cases "workers s") (auto simp: resting_def at_rest_def dest: Exited_not_working)
  then obtain i where "i < length (workers s)" "\<not> at_rest s (workers s ! i)" by (metis in_set_conv_nth)
  from worker_progress [OF this] worker_step_decreases
  show "\<exists>t. worker_step env s t \<and> work_left t < work_left s" by blast
qed

lemma resting_pending: "resting b \<Longrightarrow> completions (wpool b) = [] \<Longrightarrow> pending b = {#}"
  by (auto simp: resting_def pending_def pool_items_def intro!: held_nil)

section \<open>Properties\<close>

text \<open>
  C20.  The event loop of the reactor is a run of the server.  Whatever the state, if the reactor has
  not been joined, a pass of its loop, with any events that can be reported for its poll set, takes
  the reactor and the pool to a state which the steps of the server reach as well; so what holds in
  every run of the server holds for its loop, with the workers and the logger in between.
\<close>

theorem loop_is_run:
  assumes "\<not> reactor_joined s" and "prepare_poll (front_end s, wpool (back_end s)) = (r, p)"
    and "polled events r" and "events_possible events (r, p)"
  shows "\<exists>t. (server_step env)\<^sup>*\<^sup>* s t \<and> \<not> reactor_joined t \<and>
    (front_end t, wpool (back_end t)) = loop_iteration events (front_end s, wpool (back_end s)) \<and>
    workers (back_end t) = workers (back_end s) \<and> engine_router (back_end t) = engine_router (back_end s)"
proof -
  have "serves env s (r, p)" using serves_prepare [OF serves_start [OF assms(1)]] assms(2) by simp
  moreover have "distinct (event_clients events)" using assms(3) by (simp add: polled_def)
  ultimately have "serves env s (fold handle_event events (r, p))"
    using serves_events assms(4) polled_connected [OF assms(2,3)] by (metis fst_conv)
  then show ?thesis using assms(2) by (auto simp: serves_def loop_iteration_def)
qed


theorem loop_is_run_witness:
  "\<exists>t. (server_step demo_env)\<^sup>*\<^sup>* demo_server t \<and>
     map_of (connections (front_end t)) 7 = Some (mk_connection_state ''10.0.0.1'')"
proof -
  let ?e = "ListenEvent True (Some (7, ''10.0.0.1''))" and ?rp = "(front_end demo_server, wpool (back_end demo_server))"
  obtain r p where rp: "prepare_poll ?rp = (r, p)" by (metis surj_pair)
  have c: "connections r = [] \<and> total_connections r = 0"
    using rp by (auto simp: prepare_poll_def drain_completion_queue_def completion_drain_all relax_backpressure_def rebuild_poll_set_def
        server_start_def pool_start_def mk_worker_pool_def mk_reactor_def Let_def)
  have "\<not> reactor_joined demo_server" by (simp add: server_start_def)
  moreover have "polled [?e] r" by (simp add: polled_def)
  moreover have "events_possible [?e] (r, p)" using c by simp
  ultimately obtain t where t: "(server_step demo_env)\<^sup>*\<^sup>* demo_server t"
    "(front_end t, wpool (back_end t)) = loop_iteration [?e] ?rp" using loop_is_run [OF _ rp] by blast
  have "map_of (connections (fst (loop_iteration [?e] ?rp))) 7 = Some (mk_connection_state ''10.0.0.1'')"
    unfolding loop_iteration_def rp using c by (simp add: accept_connection_def MAX_CONNECTIONS_def)
  with t show ?thesis by (metis fst_conv)
qed


end
