(* ===== verification/KV_Program.thy ===== *)
theory KV_Program
  imports KV_Process KV_Service
begin

text \<open>
  The program from \<^verbatim>\<open>main\<close> on.  The process and the server of KV_System have the same runs, as far as the
  clients, the workers and the log can tell: the opening of the socket and the main thread add nothing, and
  every run of the server is one of a process.  So what is shown of the server holds of the process.  It
  follows that a program that has been ended by a signal and is started again has the content it had.
\<close>

section \<open>What the clients, the workers and the log can tell\<close>

text \<open>The state of the server but for the listening socket, the running flag and the poll set.\<close>

definition observed :: "'u server \<Rightarrow> 'u server" where
  "observed s = s\<lparr>front_end := (front_end s)\<lparr>listen_socket := INVALID_SOCKET, reactor_running := False, poll_fds := []\<rparr>\<rparr>"

lemma observed_eq_disguised:
  assumes "observed a = observed s"
  shows "a = s\<lparr>front_end := (front_end s)\<lparr>listen_socket := listen_socket (front_end a),
    reactor_running := reactor_running (front_end a), poll_fds := poll_fds (front_end a)\<rparr>\<rparr>"
  using assms by (cases a, cases s, cases "front_end a", cases "front_end s") (simp add: observed_def)

lemma observed_disguised [simp]:
  "observed (s\<lparr>front_end := (front_end s)\<lparr>listen_socket := x, reactor_running := b, poll_fds := ps\<rparr>\<rparr>) = observed s"
  by (simp add: observed_def)

text \<open>The handlers do not look at these fields.\<close>

abbreviation disguised :: "socket \<Rightarrow> bool \<Rightarrow> poll_fd list \<Rightarrow> reactor \<Rightarrow> reactor" where
  "disguised x b ps r \<equiv> r\<lparr>listen_socket := x, reactor_running := b, poll_fds := ps\<rparr>"

lemma accept_disguised: "snd (accept_connection i (disguised x b ps r)) = disguised x b ps (snd (accept_connection i r))"
  by (simp add: accept_connection_def split: option.splits)

lemma disconnect_disguised: "disconnect c (disguised x b ps r) = disguised x b ps (disconnect c r)"
  by (simp add: disconnect_def)

lemma handle_read_disguised:
  "handle_read c i (r, p) = (r', p') \<Longrightarrow> handle_read c i (disguised x b ps r, p) = (disguised x b ps r', p')"
  by (auto simp: handle_read_def disconnect_disguised split: option.splits prod.splits)

lemma handle_write_disguised: "handle_write c n (disguised x b ps r) = disguised x b ps (handle_write c n r)"
  by (simp add: handle_write_def disconnect_disguised Let_def split: option.splits)

lemma deliver_disguised: "deliver_result y (disguised x b ps r) = disguised x b ps (deliver_result y r)"
  by (simp add: deliver_result_def split: option.splits)

lemma deliver_all_disguised: "fold deliver_result ys (disguised x b ps r) = disguised x b ps (fold deliver_result ys r)"
  by (induction ys arbitrary: r) (simp_all add: deliver_disguised)

lemma prepare_poll_disguised:
  assumes "prepare_poll (r, p) = (r', p')"
  shows "\<exists>qs. prepare_poll (disguised x b ps r, p) = (disguised x b qs r', p')"
proof (intro exI)
  let ?qs = "poll_fds (fst (prepare_poll (disguised x b ps r, p)))"
  show "prepare_poll (disguised x b ps r, p) = (disguised x b ?qs r', p')"
    using assms by (auto simp: prepare_poll_def drain_completion_queue_def deliver_all_disguised relax_backpressure_def
        rebuild_poll_set_def Let_def split: prod.splits)
qed

lemma handle_read_flag: "handle_read c i (r, p) = (r', p') \<Longrightarrow> reactor_running r' = reactor_running r"
  by (auto simp: handle_read_def disconnect_def split: option.splits prod.splits)

lemma handle_write_flag: "reactor_running (handle_write c n r) = reactor_running r"
  by (simp add: handle_write_def disconnect_def Let_def split: option.splits)

lemma deliver_all_flag: "reactor_running (fold deliver_result ys r) = reactor_running r"
  by (induction ys arbitrary: r) (simp_all add: deliver_result_def split: option.splits)

lemma prepare_poll_flag: "prepare_poll (r, p) = (r', p') \<Longrightarrow> reactor_running r' = reactor_running r"
  by (auto simp: prepare_poll_def drain_completion_queue_def relax_backpressure_def rebuild_poll_set_def deliver_all_flag
      Let_def split: prod.splits if_splits)

lemma accept_flag: "reactor_running (snd (accept_connection i r)) = reactor_running r"
  by (simp add: accept_connection_def split: option.splits)

lemma disconnect_flag: "reactor_running (disconnect c r) = reactor_running r"
  by (simp add: disconnect_def)

lemmas flag_simps = handle_read_flag handle_write_flag prepare_poll_flag accept_flag disconnect_flag

text \<open>
  A step of the server is a step of every server in disguise, unless that is told to run on when the other
  has been stopped.
\<close>

lemma server_step_disguised:
  assumes "server_step env s t" and run: "b \<Longrightarrow> reactor_running (front_end s)"
  shows "\<exists>b' ps'. server_step env (s\<lparr>front_end := disguised x b ps (front_end s)\<rparr>) (t\<lparr>front_end := disguised x b' ps' (front_end t)\<rparr>) \<and>
    (b' = b \<and> reactor_running (front_end t) = reactor_running (front_end s) \<or> \<not> b' \<and> \<not> reactor_running (front_end t)) \<and>
    (reactor_joined s \<longrightarrow> \<not> reactor_running (front_end s) \<longrightarrow> b' = b \<and> ps' = ps)"
proof -
  let ?a = "s\<lparr>front_end := disguised x b ps (front_end s)\<rparr>"
  have go: ?thesis if "server_step env ?a a'" and "a' = t\<lparr>front_end := disguised x b' ps' (front_end t)\<rparr>"
    and "b' = b \<and> reactor_running (front_end t) = reactor_running (front_end s) \<or> \<not> b' \<and> \<not> reactor_running (front_end t)"
    and "reactor_joined s \<Longrightarrow> \<not> reactor_running (front_end s) \<Longrightarrow> b' = b \<and> ps' = ps" for a' b' ps'
    using that by blast
  from assms(1) show ?thesis
  proof cases
    case (accept c ip)
    then show ?thesis
      by (intro go [OF server_step.accept [of ?a c env ip], where b' = b and ps' = ps]) (simp_all add: accept_disguised flag_simps)
  next
    case (read c st i r p)
    then show ?thesis
      by (intro go [OF server_step.read [of ?a c st i "disguised x b ps r" p env], where b' = b and ps' = ps])
        (simp_all add: handle_read_disguised flag_simps)
  next
    case (send c st n)
    then show ?thesis
      by (intro go [OF server_step.send [of ?a c st n env], where b' = b and ps' = ps]) (simp_all add: handle_write_disguised flag_simps)
  next
    case (hangup c st)
    then show ?thesis
      by (intro go [OF server_step.hangup [of ?a c st env], where b' = b and ps' = ps]) (simp_all add: disconnect_disguised flag_simps)
  next
    case (poll r p)
    then obtain qs where "prepare_poll (disguised x b ps (front_end s), wpool (back_end s)) = (disguised x b qs r, p)"
      using prepare_poll_disguised by blast
    with poll show ?thesis
      by (intro go [OF server_step.poll [of ?a "disguised x b qs r" p env], where b' = b and ps' = qs]) (simp_all add: flag_simps)
  next
    case (work c)
    then show ?thesis by (intro go [OF server_step.work [of env ?a c], where b' = b and ps' = ps]) simp_all
  next
    case (log_thread l u)
    then show ?thesis
      by (intro go [OF server_step.log_thread [of ?a l u env], where b' = b and ps' = ps]) (simp_all add: aof_view_def)
  next
    case stop
    then show ?thesis using run
      by (intro go [OF server_step.stop [of env ?a], where b' = False and ps' = ps]) (auto simp: reactor_stop_def)
  next
    case finish
    then show ?thesis using run
      by (intro go [OF server_step.finish [of ?a env], where b' = b and ps' = ps]) (auto simp: reactor_finish_def)
  next
    case shutdown
    then show ?thesis by (intro go [OF server_step.shutdown [of ?a env], where b' = b and ps' = ps]) simp_all
  qed
qed

section \<open>The process refines the server\<close>

lemma server_step_observed:
  assumes "server_step env s t" and "observed a = observed s"
  shows "\<exists>a'. (server_step env)\<^sup>*\<^sup>* a a' \<and> observed a' = observed t"
proof -
  obtain x b ps where a: "a = s\<lparr>front_end := disguised x b ps (front_end s)\<rparr>" using observed_eq_disguised [OF assms(2)] by blast
  let ?a1 = "s\<lparr>front_end := disguised x (b \<and> reactor_running (front_end s)) ps (front_end s)\<rparr>"
  have "server_step env a (a\<lparr>front_end := reactor_stop (front_end a)\<rparr>)" by (rule server_step.stop)
  moreover have "?a1 = a \<or> ?a1 = a\<lparr>front_end := reactor_stop (front_end a)\<rparr>"
    by (cases "reactor_running (front_end s)") (simp_all add: a reactor_stop_def)
  ultimately have "(server_step env)\<^sup>*\<^sup>* a ?a1" by auto
  moreover obtain b' ps' where "server_step env ?a1 (t\<lparr>front_end := disguised x b' ps' (front_end t)\<rparr>)"
    using server_step_disguised [OF assms(1), where b = "b \<and> reactor_running (front_end s)" and x = x and ps = ps] by auto
  ultimately have "(server_step env)\<^sup>*\<^sup>* a (t\<lparr>front_end := disguised x b' ps' (front_end t)\<rparr>)" by (rule rtranclp.rtrancl_into_rtrancl)
  then show ?thesis using observed_disguised by blast
qed

text \<open>The order of the calls of \<^verbatim>\<open>build_and_run\<close>.\<close>

definition stage_inv :: "'u process \<Rightarrow> bool" where
  "stage_inv p \<longleftrightarrow>
     (reactor_joined (proc_server p) \<longleftrightarrow> reactor_thread p = Finished) \<and>
     (main_thread p \<in> {Waiting, Stopping, Joining_Reactor} \<or> reactor_thread p = Finished) \<and>
     (main_thread p \<in> {Stopping_Wheel, Returned} \<longrightarrow> log_shutter (proc_server p) = Closed)"

lemma stage_inv_step:
  assumes "stage_inv p" and "process_step env calls p q"
  shows "stage_inv q"
  using assms(2,1) by (induction rule: process_step.induct) (auto simp: stage_inv_def same_control_def log_step_def)

interpretation stage: step_invariant "\<lambda>p. \<exists>q n r l. p = process_start q n r l" "process_step env calls" stage_inv
proof unfold_locales
  fix p q :: "'a process"
  show "\<exists>q n r l. p = process_start q n r l \<Longrightarrow> stage_inv p" by (auto simp: stage_inv_def launch_simps server_start_def)
  show "stage_inv p \<Longrightarrow> process_step env calls p q \<Longrightarrow> stage_inv q" by (rule stage_inv_step)
qed

lemma reactor_open_frame:
  assumes "reactor_open calls r = (e, r')"
  obtains x b where "r' = r\<lparr>listen_socket := x, reactor_running := b\<rparr>"
proof -
  have "r' = r\<lparr>listen_socket := listen_socket r', reactor_running := reactor_running r'\<rparr>"
    using assms by (auto simp: reactor_open_def create_listen_socket_def Let_def split: sum.splits if_splits)
  then show thesis by (rule that)
qed

text \<open>A step of the process is one of the server, or it is hidden from the clients and the log.\<close>

definition hidden :: "'u server \<Rightarrow> 'u server \<Rightarrow> bool" where
  "hidden s t \<longleftrightarrow> (\<exists>x b. t = s\<lparr>front_end := (front_end s)\<lparr>listen_socket := x, reactor_running := b\<rparr>\<rparr>)"

lemma hidden_refl [simp]: "hidden s s"
  unfolding hidden_def by (intro exI [of _ "listen_socket (front_end s)"] exI [of _ "reactor_running (front_end s)"]) simp

lemma process_step_server:
  assumes "process_step env calls p q" and "stage_inv p"
  shows "server_step env (proc_server p) (proc_server q) \<or> hidden (proc_server p) (proc_server q)"
  using assms
proof (induction rule: process_step.induct)
  case (opened p r)
  then show ?case by (auto simp: hidden_def elim: reactor_open_frame)
next
  case (failed p e r)
  then show ?case by (auto simp: hidden_def elim: reactor_open_frame)
next
  case (finish p)
  then show ?case using server_step.finish [of "proc_server p" env] by (simp add: stage_inv_def)
next
  case (stop p)
  then show ?case using server_step.stop [of env "proc_server p"] by simp
next
  case (pool_down p)
  then show ?case using server_step.shutdown [of "proc_server p" env] by (simp add: stage_inv_def)
qed (simp_all add: log_step_def)

lemma process_run_observed:
  assumes "(process_step env calls)\<^sup>*\<^sup>* (process_start q n r l) p"
  shows "\<exists>a. (server_step env)\<^sup>*\<^sup>* (server_start q n r (Some l)) a \<and> observed a = observed (proc_server p)"
  using assms
proof (induction rule: rtranclp_induct)
  case base
  have "observed (server_start q n r (Some l)) = observed (proc_server (process_start q n r l))"
    by (simp add: observed_def launch_simps server_start_def mk_reactor_def)
  then show ?case by blast
next
  case (step p p')
  then obtain a where a: "(server_step env)\<^sup>*\<^sup>* (server_start q n r (Some l)) a" "observed a = observed (proc_server p)" by blast
  have "stage_inv p" using stage.reachable_inv [OF _ step.hyps(1)] by blast
  with process_step_server step.hyps(2) consider "server_step env (proc_server p) (proc_server p')" | "hidden (proc_server p) (proc_server p')"
    by blast
  then show ?case
  proof cases
    case 1
    from server_step_observed [OF this a(2)] a(1) show ?thesis by (meson rtranclp_trans)
  next
    case 2
    then have "observed a = observed (proc_server p')" using a(2) by (auto simp: hidden_def observed_def)
    with a(1) show ?thesis by blast
  qed
qed

section \<open>The process has every run of the server\<close>

text \<open>The steps of the server by what the main thread has to do for them.\<close>

lemma server_step_kinds:
  assumes "server_step env a a'"
  shows "(same_control a a' \<and> log_shutter a' = log_shutter a \<and> (reactor_joined a \<longrightarrow> front_end a' = front_end a)) \<or>
    a' = a\<lparr>front_end := reactor_stop (front_end a)\<rparr> \<or>
    (\<not> reactor_joined a \<and> \<not> reactor_running (front_end a) \<and>
       a' = a\<lparr>front_end := reactor_finish (front_end a), reactor_joined := True\<rparr>) \<or>
    (reactor_joined a \<and> a' = a\<lparr>back_end := set_pool ((wpool (back_end a))\<lparr>pool_running := False\<rparr>) (back_end a)\<rparr>) \<or>
    (log_step env a a' \<and> (\<forall>w \<in> set (workers (back_end a)). w = Exited))"
  using assms
proof cases
  case (read c st i r p)
  then show ?thesis using handle_read_running [OF read(4)] by (simp add: same_control_def flag_simps)
next
  case (poll r p)
  then show ?thesis using prepare_poll_result [OF poll(3)] by (simp add: same_control_def flag_simps)
next
  case (work c)
  then show ?thesis using worker_step_running [OF work(2)] by (simp add: same_control_def)
next
  case (log_thread l u)
  then show ?thesis using assms by (cases "shutter u = NotShut") (auto simp: same_control_def log_step_def aof_view_def elim: log_thread_step.cases)
qed (auto simp: same_control_def flag_simps)

text \<open>A process that is where the server is; the main thread has gone no further than it has to.\<close>

definition keeps_pace :: "'u process \<Rightarrow> 'u server \<Rightarrow> bool" where
  "keeps_pace p a \<longleftrightarrow>
     observed (proc_server p) = observed a \<and> reactor_running (front_end (proc_server p)) = reactor_running (front_end a) \<and>
     \<not> aborted p \<and> reactor_thread p = (if reactor_joined a then Finished else Looping) \<and>
     (main_thread p \<noteq> Closing_Log \<longrightarrow> log_shutter a = NotShut) \<and>
     (case main_thread p of
        Waiting \<Rightarrow> reactor_running (front_end a) \<and> \<not> reactor_joined a
      | Joining_Reactor \<Rightarrow> \<not> reactor_running (front_end a) \<and> \<not> reactor_joined a
      | Stopping_Pool \<Rightarrow> \<not> reactor_running (front_end a) \<and> reactor_joined a \<and> pool_running (wpool (back_end a))
      | Joining_Workers \<Rightarrow> \<not> reactor_running (front_end a) \<and> reactor_joined a \<and> \<not> pool_running (wpool (back_end a))
      | Closing_Log \<Rightarrow> \<not> reactor_running (front_end a) \<and> reactor_joined a \<and> \<not> pool_running (wpool (back_end a))
      | _ \<Rightarrow> False)"

lemma observed_fields:
  assumes "observed s = observed a"
  shows "back_end s = back_end a" and "reactor_joined s = reactor_joined a" and "log_shutter s = log_shutter a"
    and "wire s = wire a" and "requested s = requested a" and "connections (front_end s) = connections (front_end a)"
  by (subst observed_eq_disguised [OF assms], simp)+

lemma observed_finish:
  "observed (s\<lparr>front_end := reactor_finish (front_end s), reactor_joined := b\<rparr>) =
   (observed s)\<lparr>front_end := reactor_finish (front_end (observed s)), reactor_joined := b\<rparr>"
  by (simp add: observed_def reactor_finish_def)

lemma observed_back_end: "observed (s\<lparr>back_end := b\<rparr>) = (observed s)\<lparr>back_end := b\<rparr>"
  by (simp add: observed_def)

text \<open>The server of the process can take the step of the other one.\<close>

lemma keeps_pace_server:
  assumes "keeps_pace p a" and "server_step env a a'"
  obtains s' where "server_step env (proc_server p) s'" and "observed s' = observed a'"
    and "reactor_running (front_end s') = reactor_running (front_end a')"
    and "reactor_joined a \<Longrightarrow> \<not> reactor_running (front_end a) \<Longrightarrow> front_end a' = front_end a \<Longrightarrow> front_end s' = front_end (proc_server p)"
proof -
  let ?s = "proc_server p"
  have v: "observed ?s = observed a" and b: "reactor_running (front_end ?s) = reactor_running (front_end a)"
    using assms(1) by (simp_all add: keeps_pace_def)
  obtain x ps where s: "?s = a\<lparr>front_end := disguised x (reactor_running (front_end a)) ps (front_end a)\<rparr>"
    using observed_eq_disguised [OF v, unfolded b] by blast
  obtain b' ps' where t: "server_step env ?s (a'\<lparr>front_end := disguised x b' ps' (front_end a')\<rparr>)"
    "b' = reactor_running (front_end a) \<and> reactor_running (front_end a') = reactor_running (front_end a) \<or> \<not> b' \<and> \<not> reactor_running (front_end a')"
    "reactor_joined a \<longrightarrow> \<not> reactor_running (front_end a) \<longrightarrow> b' = reactor_running (front_end a) \<and> ps' = ps"
    using server_step_disguised [OF assms(2), where b = "reactor_running (front_end a)" and x = x and ps = ps] s by auto
  show thesis
  proof (rule that [OF t(1)])
    assume "reactor_joined a" "\<not> reactor_running (front_end a)" "front_end a' = front_end a"
    with t(3) show "front_end (a'\<lparr>front_end := disguised x b' ps' (front_end a')\<rparr>) = front_end ?s" by (simp add: s)
  qed (use t(2) in auto)
qed

text \<open>What the steps of the process do to the pace, one lemma per kind of step.\<close>

lemma keeps_pace_serve:
  assumes "keeps_pace p a" and "server_step env a a'" and "same_control a a'" and "log_shutter a' = log_shutter a"
    and "reactor_joined a \<Longrightarrow> front_end a' = front_end a"
  shows "\<exists>p'. process_step env calls p p' \<and> keeps_pace p' a'"
proof -
  obtain s' where s': "server_step env (proc_server p) s'" "observed s' = observed a'"
    "reactor_running (front_end s') = reactor_running (front_end a')"
    "reactor_joined a \<Longrightarrow> \<not> reactor_running (front_end a) \<Longrightarrow> front_end a' = front_end a \<Longrightarrow> front_end s' = front_end (proc_server p)"
    using keeps_pace_server [OF assms(1,2)] by blast
  have p: "observed (proc_server p) = observed a" "reactor_running (front_end (proc_server p)) = reactor_running (front_end a)"
    "\<not> aborted p" "reactor_thread p = (if reactor_joined a then Finished else Looping)"
    "reactor_joined a \<Longrightarrow> \<not> reactor_running (front_end a)"
    using assms(1) by (auto simp: keeps_pace_def split: main_pc.splits)
  have "process_step env calls p (p\<lparr>proc_server := s'\<rparr>)"
  proof (rule process_step.serve [OF p(3) s'(1)])
    show "same_control (proc_server p) s'"
      using assms(3) p(2) s'(3) observed_fields(1,2) [OF p(1)] observed_fields(1,2) [OF s'(2)] by (simp add: same_control_def)
    show "log_shutter s' = log_shutter (proc_server p)"
      using assms(4) observed_fields(3) [OF p(1)] observed_fields(3) [OF s'(2)] by simp
    show "reactor_thread p = Looping" if "front_end s' \<noteq> front_end (proc_server p)"
      using that s'(4) assms(5) p(4,5) by auto
  qed
  moreover have "keeps_pace (p\<lparr>proc_server := s'\<rparr>) a'"
    using assms(1,3,4) s'(2,3) by (auto simp: keeps_pace_def same_control_def split: main_pc.splits)
  ultimately show ?thesis by blast
qed

lemma keeps_pace_stop:
  assumes "keeps_pace p a"
  shows "\<exists>p'. (process_step env calls)\<^sup>*\<^sup>* p p' \<and> keeps_pace p' (a\<lparr>front_end := reactor_stop (front_end a)\<rparr>)"
proof (cases "main_thread p = Waiting")
  case True
  let ?s = "(proc_server p)\<lparr>front_end := reactor_stop (front_end (proc_server p))\<rparr>"
  let ?p1 = "p\<lparr>g_running := False\<rparr>" and ?p2 = "p\<lparr>g_running := False, main_thread := Stopping\<rparr>"
  let ?p3 = "?p2\<lparr>proc_server := ?s, main_thread := Joining_Reactor\<rparr>"
  have na: "\<not> aborted p" using assms by (simp add: keeps_pace_def)
  have "process_step env calls p ?p1" by (rule process_step.signal [OF na])
  moreover have "process_step env calls ?p1 ?p2" using process_step.leave [of ?p1 env calls] na True by simp
  moreover have "process_step env calls ?p2 ?p3" using process_step.stop [of ?p2 env calls] na by simp
  ultimately have "(process_step env calls)\<^sup>*\<^sup>* p ?p3" by (meson converse_rtranclp_into_rtranclp rtranclp.rtrancl_refl)
  moreover have "keeps_pace ?p3 (a\<lparr>front_end := reactor_stop (front_end a)\<rparr>)"
    using assms True by (auto simp: keeps_pace_def reactor_stop_def observed_def)
  ultimately show ?thesis by blast
next
  case False
  then have "\<not> reactor_running (front_end a)" using assms by (auto simp: keeps_pace_def split: main_pc.splits)
  then have "a\<lparr>front_end := reactor_stop (front_end a)\<rparr> = a" by (simp add: reactor_stop_def)
  with assms show ?thesis by auto
qed

lemma keeps_pace_finish:
  assumes "keeps_pace p a" and "\<not> reactor_joined a" and "\<not> reactor_running (front_end a)" and "pool_running (wpool (back_end a))"
  shows "\<exists>p'. (process_step env calls)\<^sup>*\<^sup>* p p' \<and> keeps_pace p' (a\<lparr>front_end := reactor_finish (front_end a), reactor_joined := True\<rparr>)"
proof -
  let ?s = "(proc_server p)\<lparr>front_end := reactor_finish (front_end (proc_server p)), reactor_joined := True\<rparr>"
  let ?p1 = "p\<lparr>proc_server := ?s, reactor_thread := Finished\<rparr>"
  have p: "\<not> aborted p" "main_thread p = Joining_Reactor" "reactor_thread p = Looping" "\<not> reactor_running (front_end (proc_server p))"
    using assms by (auto simp: keeps_pace_def split: main_pc.splits)
  have "process_step env calls p ?p1" by (rule process_step.finish [OF p(1,3,4)])
  moreover have "process_step env calls ?p1 (?p1\<lparr>main_thread := Stopping_Pool\<rparr>)"
    using process_step.join [of ?p1 env calls] p(1,2) by simp
  moreover have "keeps_pace (?p1\<lparr>main_thread := Stopping_Pool\<rparr>) (a\<lparr>front_end := reactor_finish (front_end a), reactor_joined := True\<rparr>)"
    using assms p(2) by (simp add: keeps_pace_def observed_finish) (simp add: reactor_finish_def)
  ultimately show ?thesis by (meson converse_rtranclp_into_rtranclp rtranclp.rtrancl_refl)
qed

lemma keeps_pace_shutdown:
  assumes "keeps_pace p a" and "reactor_joined a"
  shows "\<exists>p'. (process_step env calls)\<^sup>*\<^sup>* p p' \<and>
    keeps_pace p' (a\<lparr>back_end := set_pool ((wpool (back_end a))\<lparr>pool_running := False\<rparr>) (back_end a)\<rparr>)"
proof (cases "pool_running (wpool (back_end a))")
  case True
  let ?b = "set_pool ((wpool (back_end a))\<lparr>pool_running := False\<rparr>) (back_end a)"
  let ?p1 = "p\<lparr>proc_server := (proc_server p)\<lparr>back_end := ?b\<rparr>, main_thread := Joining_Workers\<rparr>"
  have p: "\<not> aborted p" "main_thread p = Stopping_Pool" "back_end (proc_server p) = back_end a"
    using assms True observed_fields(1) [of "proc_server p" a] by (auto simp: keeps_pace_def split: main_pc.splits)
  have "process_step env calls p ?p1" using process_step.pool_down [OF p(1,2), of env calls] p(3) by simp
  moreover have "keeps_pace ?p1 (a\<lparr>back_end := ?b\<rparr>)" using assms True p(2) by (simp add: keeps_pace_def observed_back_end)
  ultimately show ?thesis by blast
next
  case False
  then have "a\<lparr>back_end := set_pool ((wpool (back_end a))\<lparr>pool_running := False\<rparr>) (back_end a)\<rparr> = a" by (simp add: set_pool_def)
  with assms show ?thesis by auto
qed

lemma keeps_pace_close:
  assumes "keeps_pace p a" and "log_step env a a'" and "\<forall>w \<in> set (workers (back_end a)). w = Exited"
    and "reactor_joined a" and "\<not> pool_running (wpool (back_end a))"
  shows "\<exists>p'. (process_step env calls)\<^sup>*\<^sup>* p p' \<and> keeps_pace p' a'"
proof -
  have a': "server_step env a a'" "front_end a' = front_end a" "reactor_joined a' = reactor_joined a" "wpool (back_end a') = wpool (back_end a)"
    using assms(2) by (simp_all add: log_step_def)
  have p: "observed (proc_server p) = observed a" "\<not> aborted p" "main_thread p \<in> {Joining_Workers, Closing_Log}"
    "\<not> reactor_running (front_end a)"
    using assms by (auto simp: keeps_pace_def split: main_pc.splits)
  note f = observed_fields [OF p(1)]
  obtain s' where s': "server_step env (proc_server p) s'" "observed s' = observed a'"
    "reactor_running (front_end s') = reactor_running (front_end a')" "front_end s' = front_end (proc_server p)"
    using keeps_pace_server [OF assms(1) a'(1)] assms(4) p(4) a'(2) by metis
  let ?p1 = "p\<lparr>main_thread := Closing_Log\<rparr>"
  have "process_step env calls p ?p1 \<or> p = ?p1"
    using p(3) process_step.workers_joined [OF p(2), of env calls] assms(3) f(1) by auto
  then have 1: "(process_step env calls)\<^sup>*\<^sup>* p ?p1" by auto
  have "log_step env (proc_server p) s'"
    using s' a'(3,4) f(1,2) observed_fields(1,2) [OF s'(2)] by (simp add: log_step_def)
  then have "process_step env calls ?p1 (?p1\<lparr>proc_server := s'\<rparr>)" using process_step.close_log [of ?p1 env s' calls] p(2) by simp
  moreover have "keeps_pace (?p1\<lparr>proc_server := s'\<rparr>) a'"
    using assms(1,4,5) s'(2,3) a'(2-4) p(4) by (simp add: keeps_pace_def)
  ultimately show ?thesis using 1 by (meson rtranclp.rtrancl_into_rtrancl)
qed

lemma keeps_pace_step:
  assumes "keeps_pace p a" and "server_step env a a'" and "working a" and "workers (back_end a) \<noteq> []"
  shows "\<exists>p'. (process_step env calls)\<^sup>*\<^sup>* p p' \<and> keeps_pace p' a'"
proof -
  consider (serve) "same_control a a'" "log_shutter a' = log_shutter a" "reactor_joined a \<longrightarrow> front_end a' = front_end a"
    | (stop) "a' = a\<lparr>front_end := reactor_stop (front_end a)\<rparr>"
    | (finish) "\<not> reactor_joined a" "\<not> reactor_running (front_end a)" "a' = a\<lparr>front_end := reactor_finish (front_end a), reactor_joined := True\<rparr>"
    | (shutdown) "reactor_joined a" "a' = a\<lparr>back_end := set_pool ((wpool (back_end a))\<lparr>pool_running := False\<rparr>) (back_end a)\<rparr>"
    | (close) "log_step env a a'" "\<forall>w \<in> set (workers (back_end a)). w = Exited"
    using server_step_kinds [OF assms(2)] by blast
  then show ?thesis
  proof cases
    case serve
    then show ?thesis using keeps_pace_serve [OF assms(1,2)] by blast
  next
    case stop
    with keeps_pace_stop [OF assms(1)] show ?thesis by simp
  next
    case finish
    with keeps_pace_finish [OF assms(1)] assms(3) show ?thesis by (simp add: working_def)
  next
    case shutdown
    with keeps_pace_shutdown [OF assms(1)] show ?thesis by simp
  next
    case close
    then have "Exited \<in> set (workers (back_end a))" using assms(4) by (cases "workers (back_end a)") auto
    then have "\<not> pool_running (wpool (back_end a))" "reactor_joined a" using assms(3) by (auto simp: working_def exited_inv_def)
    with keeps_pace_close [OF assms(1) close] show ?thesis by blast
  qed
qed

lemma server_run_process:
  assumes "(server_step env)\<^sup>*\<^sup>* (server_start q n r (Some l)) a" and "set_up_succeeds calls" and "0 < n"
  shows "\<exists>p. (process_step env calls)\<^sup>*\<^sup>* (process_start q n r l) p \<and> keeps_pace p a"
  using assms(1)
proof (induction rule: rtranclp_induct)
  case base
  let ?p = "process_start q n r l"
  let ?r = "(front_end (proc_server ?p))\<lparr>listen_socket := wsa_socket calls, reactor_running := True\<rparr>"
  let ?p1 = "?p\<lparr>proc_server := (proc_server ?p)\<lparr>front_end := ?r\<rparr>, reactor_thread := Looping\<rparr>"
  have "process_step env calls ?p ?p1"
    using process_step.opened [of ?p calls ?r env] assms(2) by (simp add: reactor_open_Inr launch_simps)
  moreover have "keeps_pace ?p1 (server_start q n r (Some l))"
    by (simp add: keeps_pace_def observed_def launch_simps server_start_def mk_reactor_def)
  ultimately show ?case by blast
next
  case (step a a')
  then obtain p where p: "(process_step env calls)\<^sup>*\<^sup>* (process_start q n r l) p" "keeps_pace p a" by blast
  have "working a" using working.reachable_inv [OF _ step.hyps(1)] by blast
  moreover have "workers (back_end a) \<noteq> []"
    using process_run_worker_count [OF p(1)] observed_fields(1) [of "proc_server p" a] p(2) assms(3) by (auto simp: keeps_pace_def)
  ultimately show ?case using keeps_pace_step [OF p(2) step.hyps(2), where calls = calls] p(1) by (meson rtranclp_trans)
qed

text \<open>When the log has been closed, the main thread returns.\<close>

lemma closed_process_returns:
  assumes "keeps_pace p a" and "log_shutter a = Closed"
  shows "\<exists>p'. (process_step env calls)\<^sup>*\<^sup>* p p' \<and> process_status p' = Some (Exit 0) \<and> proc_server p' = proc_server p"
proof -
  let ?p1 = "p\<lparr>main_thread := Stopping_Wheel\<rparr>" and ?p2 = "p\<lparr>main_thread := Returned\<rparr>"
  have v: "observed (proc_server p) = observed a" and p: "\<not> aborted p" "main_thread p = Closing_Log"
    using assms by (auto simp: keeps_pace_def)
  have "log_shutter (proc_server p) = Closed" using observed_fields(3) [OF v] assms(2) by simp
  then have "process_step env calls p ?p1" by (rule process_step.log_closed [OF p])
  moreover have "process_step env calls ?p1 ?p2" using process_step.wheel_stopped [of ?p1 env calls] p(1) by simp
  ultimately have "(process_step env calls)\<^sup>*\<^sup>* p ?p2" by (meson converse_rtranclp_into_rtranclp rtranclp.rtrancl_refl)
  with p(1) show ?thesis by (intro exI [of _ ?p2]) (simp add: process_status_def)
qed

text \<open>
  \<^verbatim>\<open>main\<close> ends with status 1 when the log cannot be opened for appending, and starts the process otherwise:
  its fixed configuration gives a router.
\<close>

lemma main_start_status:
  "main_start env ndebug clock f can_open now concurrency = Inl e \<longleftrightarrow> \<not> can_open \<and> e = Exit 1"
proof -
  obtain b r where b: "main_builder concurrency = Inr b" "mk_shard_router env ndebug (max_memory b) (builder_shard_count b) = Inr r"
    using main_builder_value main_router_built by metis
  then show ?thesis by (auto simp: main_start_def start_server_def aof_start_def split: prod.splits)
qed

lemma main_start_launch:
  assumes "main_start env ndebug clock f can_open now concurrency = Inr p"
  obtains b k wl s where "main_builder concurrency = Inr b" and "start_server env ndebug clock f can_open now b = Inr (k, wl, s)"
    and "p = launch s"
  using assms by (auto simp: main_start_def split: sum.splits)

section \<open>Properties\<close>

text \<open>
  C14.  The process and the server have the same runs.  If the socket can be opened and there is a worker, then the
  states of the server that the process can get into, but for the listening socket, the running flag and the
  poll set, are exactly those that the server can reach by its own steps.  So what is shown of every run of
  the server holds of the process with its main thread and its signal, and the steps of the server
  are no more than what the process can do.
\<close>

theorem process_equivalent:
  assumes "set_up_succeeds calls" and "0 < n"
  shows "(\<lambda>p. observed (proc_server p)) ` {p. (process_step env calls)\<^sup>*\<^sup>* (process_start q n r l) p} =
    observed ` {s. (server_step env)\<^sup>*\<^sup>* (server_start q n r (Some l)) s}"
proof (intro equalityI subsetI)
  fix v
  assume "v \<in> (\<lambda>p. observed (proc_server p)) ` {p. (process_step env calls)\<^sup>*\<^sup>* (process_start q n r l) p}"
  then show "v \<in> observed ` {s. (server_step env)\<^sup>*\<^sup>* (server_start q n r (Some l)) s}"
    using process_run_observed by (fastforce simp: image_iff)
next
  fix v
  assume "v \<in> observed ` {s. (server_step env)\<^sup>*\<^sup>* (server_start q n r (Some l)) s}"
  then show "v \<in> (\<lambda>p. observed (proc_server p)) ` {p. (process_step env calls)\<^sup>*\<^sup>* (process_start q n r l) p}"
    using server_run_process [OF _ assms] by (fastforce simp: image_iff keeps_pace_def)
qed


text \<open>Examples.\<close>

theorem process_equivalent_witness:
  "observed demo_server \<in> (\<lambda>p. observed (proc_server p)) ` {p. (process_step demo_env demo_calls)\<^sup>*\<^sup>* (launch demo_server) p}"
proof -
  have "set_up_succeeds demo_calls" by (simp add: set_up_succeeds_def INVALID_SOCKET_def)
  from process_equivalent [OF this, of 1 demo_env 8080 demo_router "demo_logger []"] show ?thesis by (simp add: process_start_def)
qed


end
