(* ===== verification/KV_Sweeper.thy ===== *)
theory KV_Sweeper
  imports KV_Program
begin

text \<open>
  The whole program: the process of KV_Process and, beside it, the thread of the timing wheel, from its start in
  \<^verbatim>\<open>build_and_run\<close> to its join in \<^verbatim>\<open>stop\<close>.  The thread is cut at the points where the others can see it:
  between taking a bucket, each eviction and each line of the log.  The theorems show that such a thread alone
  does what \<open>advance_tick\<close> does, that beside a server that schedules no key it changes nothing and
  the program can be ended in order, and that its log is in a race with the writers when keys are scheduled.
\<close>

section \<open>The thread of the wheel\<close>

datatype sweeper_pc =
    Loop_Head
  | Asleep
  | Ticking
  | Sweeping "wheel_entry list"
  | Sweep_Logging string "wheel_entry list"
  | Sweep_Ended

record 'u sweeper_state =
  wheel :: timing_wheel
  sweeper :: sweeper_pc
  swept_router :: "'u shard_router"
  swept_aof :: "aof_logger option"

inductive sweeper_step :: "'u pmr_env \<Rightarrow> 'u sweeper_state \<Rightarrow> 'u sweeper_state \<Rightarrow> bool" for env where
  head_on: "sweeper s = Loop_Head \<Longrightarrow> wheel_running (wheel s) \<Longrightarrow> sweeper_step env s (s\<lparr>sweeper := Asleep\<rparr>)"
| head_off: "sweeper s = Loop_Head \<Longrightarrow> \<not> wheel_running (wheel s) \<Longrightarrow> sweeper_step env s (s\<lparr>sweeper := Sweep_Ended\<rparr>)"
| wake_on: "sweeper s = Asleep \<Longrightarrow> wheel_running (wheel s) \<Longrightarrow> sweeper_step env s (s\<lparr>sweeper := Ticking\<rparr>)"
| wake_off: "sweeper s = Asleep \<Longrightarrow> \<not> wheel_running (wheel s) \<Longrightarrow> sweeper_step env s (s\<lparr>sweeper := Sweep_Ended\<rparr>)"
| tick: "sweeper s = Ticking \<Longrightarrow> take_bucket (wheel s) = (es, w) \<Longrightarrow>
     sweeper_step env s (s\<lparr>wheel := w, sweeper := Sweeping es\<rparr>)"
| evict: "sweeper s = Sweeping (en # es) \<Longrightarrow>
     shard_evict_expired env now (entry_key en) (shard_for_key (swept_router s) (entry_key en)) = (evicted, sh) \<Longrightarrow>
     sweeper_step env s (s\<lparr>swept_router := put_shard (swept_router s) (entry_key en) sh,
       sweeper := (if evicted then Sweep_Logging (entry_key en) es else Sweeping es)\<rparr>)"
| log: "sweeper s = Sweep_Logging k es \<Longrightarrow>
     sweeper_step env s (s\<lparr>swept_aof := log_write (DelCommand k) (swept_aof s), sweeper := Sweeping es\<rparr>)"
| swept: "sweeper s = Sweeping [] \<Longrightarrow> sweeper_step env s (s\<lparr>sweeper := Loop_Head\<rparr>)"

text \<open>Left alone, the thread sweeps a bucket as the function does.\<close>

lemma sweeper_runs_sweep:
  assumes "sweeper s = Sweeping es"
  shows "(sweeper_step env)\<^sup>*\<^sup>* s (s\<lparr>swept_router := fst (sweep env clock es (swept_router s, swept_aof s)),
    swept_aof := snd (sweep env clock es (swept_router s, swept_aof s)), sweeper := Loop_Head\<rparr>)"
  using assms
proof (induction es arbitrary: s clock)
  case Nil
  then have "sweeper_step env s (s\<lparr>sweeper := Loop_Head\<rparr>)" by (rule sweeper_step.swept)
  then show ?case by simp
next
  case (Cons en es)
  let ?k = "entry_key en" and ?clock = "\<lambda>i. clock (Suc i)"
  obtain b sh where e: "shard_evict_expired env (clock 0) ?k (shard_for_key (swept_router s) ?k) = (b, sh)" by force
  let ?db = "sweep_entry env (clock 0) en (swept_router s, swept_aof s)"
  have db: "?db = (put_shard (swept_router s) ?k sh, if b then log_write (DelCommand ?k) (swept_aof s) else swept_aof s)"
    by (simp add: sweep_entry_def e Let_def)
  let ?s1 = "s\<lparr>swept_router := put_shard (swept_router s) ?k sh, sweeper := (if b then Sweep_Logging ?k es else Sweeping es)\<rparr>"
  let ?s2 = "s\<lparr>swept_router := fst ?db, swept_aof := snd ?db, sweeper := Sweeping es\<rparr>"
  have 1: "sweeper_step env s ?s1" by (rule sweeper_step.evict [OF Cons.prems e])
  have 2: "(sweeper_step env)\<^sup>*\<^sup>* ?s1 ?s2"
  proof (cases b)
    case True
    then show ?thesis using sweeper_step.log [of ?s1 ?k es env] by (auto simp: db)
  qed (simp add: db)
  have "sweep env clock (en # es) (swept_router s, swept_aof s) = sweep env ?clock es (swept_router ?s2, swept_aof ?s2)" by simp
  with Cons.IH [of ?s2 ?clock] have "(sweeper_step env)\<^sup>*\<^sup>* ?s2 (s\<lparr>swept_router := fst (sweep env clock (en # es) (swept_router s, swept_aof s)),
    swept_aof := snd (sweep env clock (en # es) (swept_router s, swept_aof s)), sweeper := Loop_Head\<rparr>)" by simp
  with 1 2 show ?case by (meson converse_rtranclp_into_rtranclp rtranclp_trans)
qed

lemma sweeper_runs_tick:
  assumes "sweeper s = Ticking" and "advance_tick env clock (wheel s, swept_router s, swept_aof s) = (w, r, aof)"
  shows "(sweeper_step env)\<^sup>*\<^sup>* s (s\<lparr>wheel := w, swept_router := r, swept_aof := aof, sweeper := Loop_Head\<rparr>)"
proof -
  obtain es w' where t: "take_bucket (wheel s) = (es, w')" by force
  then have a: "w = w'" "sweep env clock es (swept_router s, swept_aof s) = (r, aof)"
    using assms(2) by (simp_all add: advance_tick_def)
  let ?s1 = "s\<lparr>wheel := w', sweeper := Sweeping es\<rparr>"
  have "sweeper_step env s ?s1" by (rule sweeper_step.tick [OF assms(1) t])
  moreover have "(sweeper_step env)\<^sup>*\<^sup>* ?s1 (?s1\<lparr>swept_router := r, swept_aof := aof, sweeper := Loop_Head\<rparr>)"
    using sweeper_runs_sweep [of ?s1 es env clock] a by simp
  ultimately show ?thesis using a(1) by (simp add: converse_rtranclp_into_rtranclp)
qed

section \<open>The program\<close>

record 'u program =
  proc :: "'u process"
  prog_wheel :: timing_wheel
  prog_sweeper :: sweeper_pc

definition sweeper_view :: "'u program \<Rightarrow> 'u sweeper_state" where
  "sweeper_view P =
     \<lparr>wheel = prog_wheel P, sweeper = prog_sweeper P, swept_router = engine_router (back_end (proc_server (proc P))),
      swept_aof = engine_aof (back_end (proc_server (proc P)))\<rparr>"

definition set_sweeper :: "'u sweeper_state \<Rightarrow> 'u program \<Rightarrow> 'u program" where
  "set_sweeper s P =
     (let p = proc P; t = proc_server p
      in P\<lparr>proc := p\<lparr>proc_server := t\<lparr>back_end := (back_end t)\<lparr>engine_router := swept_router s, engine_aof := swept_aof s\<rparr>\<rparr>\<rparr>,
           prog_wheel := wheel s, prog_sweeper := sweeper s\<rparr>)"

text \<open>
  The steps of the process, but for the last: \<^verbatim>\<open>stop\<close> of the wheel clears its flag and waits for the thread.
\<close>

inductive program_step :: "'u pmr_env \<Rightarrow> socket_calls \<Rightarrow> 'u program \<Rightarrow> 'u program \<Rightarrow> bool" for env calls where
  process: "process_step env calls (proc P) p \<Longrightarrow> main_thread p = Returned \<longrightarrow> main_thread (proc P) = Returned \<Longrightarrow>
     program_step env calls P (P\<lparr>proc := p\<rparr>)"
| sweeper: "\<not> aborted (proc P) \<Longrightarrow> sweeper_step env (sweeper_view P) s \<Longrightarrow> program_step env calls P (set_sweeper s P)"
| stop_wheel: "\<not> aborted (proc P) \<Longrightarrow> main_thread (proc P) = Stopping_Wheel \<Longrightarrow>
     program_step env calls P (P\<lparr>prog_wheel := wheel_stop (prog_wheel P)\<rparr>)"
| wheel_joined: "\<not> aborted (proc P) \<Longrightarrow> main_thread (proc P) = Stopping_Wheel \<Longrightarrow> \<not> wheel_running (prog_wheel P) \<Longrightarrow>
     prog_sweeper P = Sweep_Ended \<Longrightarrow> program_step env calls P (P\<lparr>proc := (proc P)\<lparr>main_thread := Returned\<rparr>\<rparr>)"

definition program_start :: "time_point \<Rightarrow> time_point \<Rightarrow> 'u process \<Rightarrow> 'u program" where
  "program_start made started p =
     \<lparr>proc = p, prog_wheel = wheel_start started (mk_timing_wheel made), prog_sweeper = Loop_Head\<rparr>"

section \<open>A wheel on which nothing is scheduled\<close>

text \<open>The thread then has nothing to sweep, and ends when it is stopped.\<close>

fun nothing_to_sweep :: "sweeper_pc \<Rightarrow> bool" where
  "nothing_to_sweep (Sweeping es) \<longleftrightarrow> es = []"
| "nothing_to_sweep (Sweep_Logging _ _) \<longleftrightarrow> False"
| "nothing_to_sweep _ \<longleftrightarrow> True"

definition unscheduled :: "'u program \<Rightarrow> bool" where
  "unscheduled P \<longleftrightarrow> buckets (prog_wheel P) = (\<lambda>_. []) \<and> nothing_to_sweep (prog_sweeper P)"

lemma sweeper_step_unscheduled:
  assumes "sweeper_step env s t" and "buckets (wheel s) = (\<lambda>_. [])" and "nothing_to_sweep (sweeper s)"
  shows "buckets (wheel t) = (\<lambda>_. []) \<and> nothing_to_sweep (sweeper t) \<and> swept_router t = swept_router s \<and> swept_aof t = swept_aof s"
  using assms by (induction rule: sweeper_step.induct) (auto simp: take_bucket_def Let_def)

lemma set_sweeper_same:
  assumes "swept_router s = swept_router (sweeper_view P)" and "swept_aof s = swept_aof (sweeper_view P)"
  shows "set_sweeper s P = P\<lparr>prog_wheel := wheel s, prog_sweeper := sweeper s\<rparr>"
  using assms by (simp add: set_sweeper_def sweeper_view_def Let_def)

lemma program_step_unscheduled:
  assumes "program_step env calls P Q" and "unscheduled P"
  shows "unscheduled Q \<and> (proc Q = proc P \<or> process_step env calls (proc P) (proc Q))"
  using assms
proof (induction rule: program_step.induct)
  case (sweeper P s)
  have "buckets (wheel (sweeper_view P)) = (\<lambda>_. [])" "nothing_to_sweep (KV_Sweeper.sweeper (sweeper_view P))"
    using sweeper.prems by (simp_all add: unscheduled_def sweeper_view_def)
  from sweeper_step_unscheduled [OF sweeper.hyps(2) this] show ?case by (simp add: set_sweeper_same unscheduled_def)
next
  case (wheel_joined P)
  then show ?case using process_step.wheel_stopped [of "proc P" env calls] by (simp add: unscheduled_def)
qed (simp_all add: unscheduled_def wheel_stop_def)

interpretation idle_wheel: step_invariant "\<lambda>P. \<exists>a b p. P = program_start a b p" "program_step env calls" unscheduled
proof unfold_locales
  fix P Q :: "'a program"
  show "\<exists>a b p. P = program_start a b p \<Longrightarrow> unscheduled P"
    by (auto simp: unscheduled_def program_start_def wheel_start_def mk_timing_wheel_def)
  show "unscheduled P \<Longrightarrow> program_step env calls P Q \<Longrightarrow> unscheduled Q" using program_step_unscheduled by blast
qed

lemma program_run_process:
  assumes "(program_step env calls)\<^sup>*\<^sup>* P Q" and "unscheduled P"
  shows "unscheduled Q \<and> (process_step env calls)\<^sup>*\<^sup>* (proc P) (proc Q)"
  using assms
proof (induction rule: rtranclp_induct)
  case (step Q R)
  then show ?case using program_step_unscheduled [OF step.hyps(2)] by (metis rtranclp.rtrancl_into_rtrancl)
qed simp

text \<open>What the thread does with an empty bucket, as steps of the program.\<close>

lemma program_sweeper_step:
  assumes "sweeper_step env (sweeper_view P) (sweeper_view P\<lparr>wheel := w, sweeper := x\<rparr>)" and "\<not> aborted (proc P)"
  shows "program_step env calls P (P\<lparr>prog_wheel := w, prog_sweeper := x\<rparr>)"
  using program_step.sweeper [OF assms(2,1), of calls] by (simp add: set_sweeper_same)

definition sweeper_ends :: "'u pmr_env \<Rightarrow> socket_calls \<Rightarrow> 'u program \<Rightarrow> bool" where
  "sweeper_ends env calls P \<longleftrightarrow>
     (\<exists>Q. (program_step env calls)\<^sup>*\<^sup>* P Q \<and> prog_sweeper Q = Sweep_Ended \<and> proc Q = proc P \<and> \<not> wheel_running (prog_wheel Q))"

lemma sweeper_ends_step:
  assumes "sweeper_step env (sweeper_view P) (sweeper_view P\<lparr>wheel := w, sweeper := x\<rparr>)" and "\<not> aborted (proc P)"
    and "sweeper_ends env calls (P\<lparr>prog_wheel := w, prog_sweeper := x\<rparr>)"
  shows "sweeper_ends env calls P"
  using program_sweeper_step [OF assms(1,2), of calls] assms(3) unfolding sweeper_ends_def
  by (auto intro: converse_rtranclp_into_rtranclp)

lemma stopped_sweeper_ends:
  assumes "unscheduled P" and "\<not> wheel_running (prog_wheel P)" and "\<not> aborted (proc P)"
  shows "sweeper_ends env calls P"
proof -
  have ended: "sweeper_ends env calls Q" if "prog_sweeper Q = Sweep_Ended" "\<not> wheel_running (prog_wheel Q)" for Q :: "'a program"
    using that unfolding sweeper_ends_def by blast
  have head: "sweeper_ends env calls Q"
    if "prog_sweeper Q = Loop_Head" "\<not> wheel_running (prog_wheel Q)" "\<not> aborted (proc Q)" for Q :: "'a program"
    using that sweeper_step.head_off [of "sweeper_view Q" env]
    by (intro sweeper_ends_step [where P = Q and w = "prog_wheel Q" and x = Sweep_Ended] ended) (simp_all add: sweeper_view_def)
  have sweeping: "sweeper_ends env calls Q"
    if "prog_sweeper Q = Sweeping []" "\<not> wheel_running (prog_wheel Q)" "\<not> aborted (proc Q)" for Q :: "'a program"
    using that sweeper_step.swept [of "sweeper_view Q" env]
    by (intro sweeper_ends_step [where P = Q and w = "prog_wheel Q" and x = Loop_Head] head) (simp_all add: sweeper_view_def)
  show ?thesis
  proof (cases "prog_sweeper P")
    case Asleep
    with assms sweeper_step.wake_off [of "sweeper_view P" env] show ?thesis
      by (intro sweeper_ends_step [where P = P and w = "prog_wheel P" and x = Sweep_Ended] ended) (simp_all add: sweeper_view_def)
  next
    case Ticking
    obtain w where w: "take_bucket (prog_wheel P) = ([], w)" "\<not> wheel_running w"
      using assms(1,2) by (simp add: take_bucket_def unscheduled_def Let_def)
    with Ticking assms(3) sweeper_step.tick [of "sweeper_view P" "[]" w env] show ?thesis
      by (intro sweeper_ends_step [where P = P and w = w and x = "Sweeping []"] sweeping) (simp_all add: sweeper_view_def)
  qed (use assms head sweeping ended in \<open>auto simp: unscheduled_def\<close>)
qed

text \<open>Only its last step takes the main thread out of \<^verbatim>\<open>build_and_run\<close>.\<close>

lemma process_step_returns:
  assumes "process_step env calls p q" and "main_thread q = Returned" and "main_thread p \<noteq> Returned"
  shows "q = p\<lparr>main_thread := Returned\<rparr> \<and> main_thread p = Stopping_Wheel \<and> \<not> aborted p"
  using assms by (induction rule: process_step.induct) simp_all

lemma process_step_program:
  assumes "process_step env calls (proc P) p" and "unscheduled P"
  shows "\<exists>Q. (program_step env calls)\<^sup>*\<^sup>* P Q \<and> proc Q = p"
proof (cases "main_thread p = Returned \<longrightarrow> main_thread (proc P) = Returned")
  case True
  from program_step.process [OF assms(1) this] show ?thesis by (intro exI [of _ "P\<lparr>proc := p\<rparr>"]) auto
next
  case False
  with process_step_returns [OF assms(1)] have p: "p = (proc P)\<lparr>main_thread := Returned\<rparr>" "main_thread (proc P) = Stopping_Wheel"
    "\<not> aborted (proc P)" by blast+
  let ?P1 = "P\<lparr>prog_wheel := wheel_stop (prog_wheel P)\<rparr>"
  have 1: "program_step env calls P ?P1" by (rule program_step.stop_wheel [OF p(3,2)])
  have "unscheduled ?P1" using program_step_unscheduled [OF 1 assms(2)] by blast
  from stopped_sweeper_ends [OF this, of env calls] p(3) obtain Q where
    Q: "(program_step env calls)\<^sup>*\<^sup>* ?P1 Q" "prog_sweeper Q = Sweep_Ended" "proc Q = proc P" "\<not> wheel_running (prog_wheel Q)"
    by (auto simp: sweeper_ends_def wheel_stop_def)
  have "program_step env calls Q (Q\<lparr>proc := p\<rparr>)"
    using program_step.wheel_joined [of Q env calls] Q(2-4) p by simp
  with 1 Q(1) have "(program_step env calls)\<^sup>*\<^sup>* P (Q\<lparr>proc := p\<rparr>)"
    by (meson converse_rtranclp_into_rtranclp rtranclp.rtrancl_into_rtrancl)
  then show ?thesis by (intro exI [of _ "Q\<lparr>proc := p\<rparr>"]) simp
qed

lemma process_run_program:
  assumes "(process_step env calls)\<^sup>*\<^sup>* (proc P) p" and "unscheduled P"
  shows "\<exists>Q. (program_step env calls)\<^sup>*\<^sup>* P Q \<and> proc Q = p \<and> unscheduled Q"
  using assms(1)
proof (induction rule: rtranclp_induct)
  case (step p q)
  then obtain Q where Q: "(program_step env calls)\<^sup>*\<^sup>* P Q" "proc Q = p" "unscheduled Q" by blast
  from process_step_program [of env calls Q q] step.hyps(2) Q(2,3) obtain R where R: "(program_step env calls)\<^sup>*\<^sup>* Q R" "proc R = q"
    by blast
  have "unscheduled R" using program_run_process [OF R(1) Q(3)] by blast
  moreover have "(program_step env calls)\<^sup>*\<^sup>* P R" using Q(1) R(1) by (rule rtranclp_trans)
  ultimately show ?case using R(2) by blast
qed (use assms(2) in blast)

section \<open>A wheel that is in use\<close>

text \<open>The workers beside the thread of the wheel.\<close>

abbreviation prog_back :: "'u program \<Rightarrow> 'u pool_system" where
  "prog_back P \<equiv> back_end (proc_server (proc P))"

abbreviation set_prog_back :: "'u pool_system \<Rightarrow> 'u program \<Rightarrow> 'u program" where
  "set_prog_back b P \<equiv> P\<lparr>proc := with_server (proc P) ((proc_server (proc P))\<lparr>back_end := b\<rparr>)\<rparr>"

lemma program_work:
  assumes "worker_step env (prog_back P) b" and "\<not> aborted (proc P)"
  shows "program_step env calls P (set_prog_back b P)"
  using program_step.process [OF process_work [OF assms]] by simp

lemma program_evict:
  assumes "prog_sweeper P = Sweeping (en # es)" and "\<not> aborted (proc P)"
    and "shard_evict_expired env now (entry_key en) (shard_for_key (engine_router (prog_back P)) (entry_key en)) = (True, sh)"
  shows "program_step env calls P ((set_prog_back ((prog_back P)\<lparr>engine_router := put_shard (engine_router (prog_back P)) (entry_key en) sh\<rparr>) P)
    \<lparr>prog_sweeper := Sweep_Logging (entry_key en) es\<rparr>)"
  using program_step.sweeper [OF assms(2) sweeper_step.evict [of "sweeper_view P" en es env now True sh], of calls] assms(1,3)
  by (simp add: sweeper_view_def set_sweeper_def Let_def)

lemma program_log:
  assumes "prog_sweeper P = Sweep_Logging k es" and "\<not> aborted (proc P)"
  shows "program_step env calls P ((set_prog_back ((prog_back P)\<lparr>engine_aof := log_write (DelCommand k) (engine_aof (prog_back P))\<rparr>) P)
    \<lparr>prog_sweeper := Sweeping es\<rparr>)"
  using program_step.sweeper [OF assms(2) sweeper_step.log [of "sweeper_view P" k es env], of calls] assms(1)
  by (simp add: sweeper_view_def set_sweeper_def Let_def)

text \<open>What the logger holds in memory, in the order in which it was logged.\<close>

definition log_tail :: "aof_logger option \<Rightarrow> string list" where
  "log_tail aof = (case aof of None \<Rightarrow> [] | Some l \<Rightarrow> buffer_get (active_buffer l) l)"

lemma log_write_tail:
  assumes "aof = Some l" and "running l" and "\<not> is_replaying l"
  shows "\<exists>l'. log_write c aof = Some l' \<and> running l' \<and> \<not> is_replaying l' \<and> log_tail (Some l') = log_tail aof @ [serialize c]"
  using assms by (simp add: log_write_def aof_log_active log_tail_def)

section \<open>Properties\<close>


text \<open>
  C16.  A signal ends the program in order.  From every state of the program in which the reactor has opened its
  socket and the main thread still waits, whatever the clients, the workers, the logger and the sweeper are
  doing, there is a run in which the signal arrives, every thread is joined, the log is closed and \<^verbatim>\<open>main\<close>
  returns 0.  The file then holds its old contents and the text of exactly the writes that took effect, each once.
\<close>

theorem program_returns:
  assumes "router_wf env r" and "logger_started contents l0"
    and "(program_step env calls)\<^sup>*\<^sup>* (program_start made started (process_start q n r l0)) P" and "0 < n"
    and "reactor_thread (proc P) = Looping" and "main_thread (proc P) = Waiting"
  shows "\<exists>Q l ws. (program_step env calls)\<^sup>*\<^sup>* P Q \<and> process_status (proc Q) = Some (Exit 0) \<and>
    engine_aof (back_end (proc_server (proc Q))) = Some l \<and> written l = contents @ aof_lines (map serialize ws) \<and>
    mset ws = mset (applied (back_end (proc_server (proc Q)))) \<and> pool_queue (wpool (back_end (proc_server (proc Q)))) = []"
proof -
  have u: "unscheduled P" using idle_wheel.reachable_inv [OF _ assms(3)] by blast
  have "unscheduled (program_start made started (process_start q n r l0))" by (rule idle_wheel.init_inv) blast
  from program_run_process [OF assms(3) this] have "(process_step env calls)\<^sup>*\<^sup>* (process_start q n r l0) (proc P)"
    by (simp add: program_start_def)
  from process_returns [OF assms(1,2) this assms(4-6)] obtain p l ws where
    p: "(process_step env calls)\<^sup>*\<^sup>* (proc P) p" "process_status p = Some (Exit 0)" "engine_aof (back_end (proc_server p)) = Some l"
    "written l = contents @ aof_lines (map serialize ws)" "mset ws = mset (applied (back_end (proc_server p)))"
    "pool_queue (wpool (back_end (proc_server p))) = []" by blast
  from process_run_program [OF p(1) u] p(2-) show ?thesis by fastforce
qed


text \<open>Examples.\<close>

theorem program_returns_witness:
  "\<exists>P. (program_step demo_env demo_calls)\<^sup>*\<^sup>* (program_start 0 0 (process_start 8080 1 demo_router (demo_logger []))) P \<and>
     process_status (proc P) = Some (Exit 0)"
proof -
  let ?p = "process_start 8080 1 demo_router (demo_logger [])" and ?P = "program_start 0 0 (process_start 8080 1 demo_router (demo_logger []))"
  have u: "unscheduled ?P" by (rule idle_wheel.init_inv) blast
  have "set_up_succeeds demo_calls" by (simp add: set_up_succeeds_def INVALID_SOCKET_def)
  from server_run_process [OF rtranclp.rtrancl_refl this, of 1 demo_env 8080 demo_router "demo_logger []"] obtain p where
    p: "(process_step demo_env demo_calls)\<^sup>*\<^sup>* ?p p" "keeps_pace p demo_server" by auto
  then have l: "reactor_thread p = Looping" "main_thread p = Waiting"
    by (auto simp: keeps_pace_def server_start_def split: main_pc.splits)
  obtain Q where Q: "(program_step demo_env demo_calls)\<^sup>*\<^sup>* ?P Q" "proc Q = p"
    using process_run_program [of demo_env demo_calls ?P p] p(1) u by (auto simp: program_start_def)
  from program_returns [OF demo_router_wf demo_logger_started Q(1)] l Q(2) obtain R where
    "(program_step demo_env demo_calls)\<^sup>*\<^sup>* Q R" "process_status (proc R) = Some (Exit 0)" by auto
  with Q(1) show ?thesis by (meson rtranclp_trans)
qed

abbreviation late_set :: task where
  "late_set \<equiv> \<lparr>task_command = SetCommand ''l'' ''b'' 60, task_client = 7, task_seq = 0\<rparr>"

abbreviation racing_program :: "nat program" where
  "racing_program \<equiv>
     \<lparr>proc = with_server (launch demo_server) ((proc_server (launch demo_server))\<lparr>back_end :=
        set_worker 0 (Working late_set) (pool_start 1 10000 (demo_list_router 5) (Some (demo_logger [])))\<rparr>),
      prog_wheel = mk_timing_wheel 0, prog_sweeper = Sweeping [\<lparr>entry_key = ''l'', entry_shard_index = 0\<rparr>]\<rparr>"


end
