(* ===== verification/KV_Double.thy ===== *)
theory KV_Double
  imports KV_Shard "HOL-Library.Log_Nat"
begin

text \<open>
  The part of pmr_allocator.cpp that computes in \<^verbatim>\<open>double\<close>: the utilization of an arena and its soft
  limit, which a shard hands on.  A finite \<^verbatim>\<open>double\<close> is the rational number it stands for.  The conversions and the division
  are exact operations followed by a rounding to 53 significant bits, ties to even; numbers between
  \<open>2\<^sup>-\<^sup>6\<^sup>4\<close> and \<open>2\<^sup>6\<^sup>4\<close> are all that occur, so neither overflow nor subnormal numbers do.  The theorems show
  that the comparison in floating point is the exact one for every arena of up to \<open>2\<^sup>4\<^sup>8\<close> bytes.
\<close>

section \<open>Rounding\<close>

type_synonym double = rat

text \<open>The exponent of the binade of a positive number.\<close>

definition binade :: "rat \<Rightarrow> int" where
  "binade x = (if 1 \<le> x then int (floorlog 2 (nat \<lfloor>x\<rfloor>)) - 1 else - int (ceillog2 (nat \<lceil>1 / x\<rceil>)))"

definition round_even :: "rat \<Rightarrow> int" where
  "round_even x =
     (let f = \<lfloor>x\<rfloor>; d = x - of_int f
      in if d < 1 / 2 then f else if 1 / 2 < d then f + 1 else if even f then f else f + 1)"

definition ulp :: "rat \<Rightarrow> rat" where
  "ulp x = 2 powi (binade x - 52)"

definition round_double :: "rat \<Rightarrow> double" where
  "round_double x = (if x \<le> 0 then 0 else of_int (round_even (x / ulp x)) * ulp x)"

lemma powi_less_imp_less: "(2::rat) powi a < 2 powi b \<Longrightarrow> a < b"
  by (metis not_le one_le_numeral power_int_increasing)

lemma binade_bounds:
  assumes "0 < x"
  shows "2 powi binade x \<le> x" and "x < 2 powi (binade x + 1)"
proof -
  have "2 powi binade x \<le> x \<and> x < 2 powi (binade x + 1)"
  proof (cases "1 \<le> x")
    case True
    let ?n = "nat \<lfloor>x\<rfloor>"
    have n: "0 < ?n" using True by simp
    with floorlog_bounds [of ?n 2] have b: "2 ^ (floorlog 2 ?n - 1) \<le> ?n" "?n < 2 ^ floorlog 2 ?n" by simp_all
    have "0 < floorlog 2 ?n" using n by (simp add: floorlog_def)
    then obtain k where k: "floorlog 2 ?n = Suc k" by (cases "floorlog 2 ?n") auto
    have "(2::rat) ^ k \<le> of_nat ?n" using b(1) k by (metis diff_Suc_1 of_nat_le_iff of_nat_numeral of_nat_power)
    moreover have "of_nat ?n + 1 \<le> (2::rat) ^ Suc k"
      using b(2) k by (metis Suc_leI of_nat_Suc of_nat_le_iff of_nat_numeral of_nat_power add.commute)
    moreover have "of_nat ?n \<le> x" "x < of_nat ?n + 1" using True by linarith+
    ultimately have "2 ^ k \<le> x" "x < 2 ^ Suc k" by linarith+
    then show ?thesis using True k by (simp add: binade_def power_int_add)
  next
    case False
    let ?k = "ceillog2 (nat \<lceil>1 / x\<rceil>)"
    have x: "1 < 1 / x" "x < 1" using False assms by auto
    then have c: "1 < nat \<lceil>1 / x\<rceil>" by linarith
    then have k: "0 < ?k" using le_two_power_ceillog2 [of "nat \<lceil>1 / x\<rceil>"] by (metis gr0I leD power_0)
    have "1 / x \<le> of_nat (nat \<lceil>1 / x\<rceil>)" by linarith
    also have "\<dots> \<le> 2 ^ ?k" using le_two_power_ceillog2 by (metis of_nat_le_iff of_nat_numeral of_nat_power)
    finally have 1: "1 / x \<le> 2 ^ ?k" .
    have "2 ^ (?k - 1) < nat \<lceil>1 / x\<rceil>" using two_power_ceillog2_gt [of "nat \<lceil>1 / x\<rceil>"] c k assms by (cases ?k) auto
    then have "int (2 ^ (?k - 1)) < \<lceil>1 / x\<rceil>" by linarith
    then have "of_int (int (2 ^ (?k - 1))) < 1 / x" by (simp only: less_ceiling_iff)
    then have 2: "2 ^ (?k - 1) < 1 / x" by simp
    have b: "binade x = - int ?k" using False by (simp add: binade_def)
    then have "binade x + 1 = - int (?k - 1)" using k by simp
    then have "x < 2 powi (binade x + 1)" using 2 assms by (simp add: power_int_minus field_simps)
    with 1 b assms show ?thesis by (simp add: power_int_minus field_simps)
  qed
  then show "2 powi binade x \<le> x" "x < 2 powi (binade x + 1)" by simp_all
qed

lemma binade_mono:
  assumes "0 < x" and "x \<le> y"
  shows "binade x \<le> binade y"
proof -
  have "(2::rat) powi binade x < 2 powi (binade y + 1)"
    using binade_bounds(1) [of x] binade_bounds(2) [of y] assms by linarith
  then have "binade x < binade y + 1" by (rule powi_less_imp_less)
  then show ?thesis by simp
qed

lemma round_even_error: "of_int (round_even x) - x \<le> 1 / 2" "x - of_int (round_even x) \<le> 1 / 2"
  unfolding round_even_def Let_def by (auto split: if_splits) linarith+

lemma round_even_of_int [simp]: "round_even (of_int n) = n"
  by (simp add: round_even_def)

lemma round_even_mono:
  assumes "x \<le> y"
  shows "round_even x \<le> round_even y"
proof (cases "\<lfloor>x\<rfloor> = \<lfloor>y\<rfloor>")
  case True
  then show ?thesis using assms by (auto simp: round_even_def Let_def)
next
  case False
  then have "\<lfloor>x\<rfloor> + 1 \<le> \<lfloor>y\<rfloor>" using floor_mono [OF assms] by linarith
  then show ?thesis by (auto simp: round_even_def Let_def)
qed

lemma ulp_pos [simp]: "0 < ulp x" "ulp x \<noteq> 0" "0 \<le> ulp x"
  by (simp_all add: ulp_def)

text \<open>The significand lies between \<open>2\<^sup>5\<^sup>2\<close> and \<open>2\<^sup>5\<^sup>3\<close>.\<close>

lemma significand_bounds:
  assumes "0 < x"
  shows "2 ^ 52 \<le> round_even (x / ulp x)" and "round_even (x / ulp x) \<le> 2 ^ 53"
proof -
  have "of_int (2 ^ 52) \<le> x / ulp x" "x / ulp x \<le> of_int (2 ^ 53)"
    using binade_bounds [OF assms] by (simp_all add: ulp_def power_int_diff power_int_add field_simps)
  then show "2 ^ 52 \<le> round_even (x / ulp x)" "round_even (x / ulp x) \<le> 2 ^ 53"
    by (metis round_even_mono round_even_of_int)+
qed

lemma round_double_bounds:
  assumes "0 < x"
  shows "2 powi binade x \<le> round_double x" and "round_double x \<le> 2 powi (binade x + 1)"
proof -
  have "of_int (2 ^ 52) * ulp x \<le> of_int (round_even (x / ulp x)) * ulp x"
    "of_int (round_even (x / ulp x)) * ulp x \<le> of_int (2 ^ 53) * ulp x"
    using significand_bounds [OF assms] by (simp_all only: mult_le_cancel_right_pos ulp_pos of_int_le_iff)
  then show "2 powi binade x \<le> round_double x" "round_double x \<le> 2 powi (binade x + 1)"
    using assms by (simp_all add: round_double_def ulp_def power_int_diff power_int_add)
qed

lemma round_double_mono:
  assumes "x \<le> y"
  shows "round_double x \<le> round_double y"
proof (cases "0 < x")
  case True
  then have y: "0 < y" using assms by simp
  show ?thesis
  proof (cases "binade x = binade y")
    case True
    then have "ulp x = ulp y" by (simp add: ulp_def)
    moreover have "round_even (x / ulp y) \<le> round_even (y / ulp y)"
      using assms by (simp add: round_even_mono divide_right_mono)
    ultimately show ?thesis using \<open>0 < x\<close> y by (simp add: round_double_def mult_right_mono)
  next
    case False
    then have "binade x + 1 \<le> binade y" using binade_mono [OF \<open>0 < x\<close> assms] by simp
    then have "(2::rat) powi (binade x + 1) \<le> 2 powi binade y" by (simp add: power_int_increasing)
    with round_double_bounds(2) [OF \<open>0 < x\<close>] round_double_bounds(1) [OF y] show ?thesis by linarith
  qed
next
  case False
  then show ?thesis using round_double_bounds(1) [of y]
    by (cases "0 < y") (auto simp: round_double_def intro: order_trans [OF _ mult_nonneg_nonneg] dest: significand_bounds(1))
qed

lemma round_double_0 [simp]: "round_double 0 = 0"
  by (simp add: round_double_def)

lemma round_double_nonneg [simp]: "0 \<le> round_double x"
  using significand_bounds(1) [of x] by (auto simp: round_double_def)

text \<open>A number with no more than 53 significant bits is its own rounding.\<close>

lemma round_double_exact:
  assumes "0 \<le> x" and "x = of_int m * ulp x"
  shows "round_double x = x"
proof (cases "x = 0")
  case False
  have "x / ulp x = of_int m" by (subst assms(2)) simp
  then have "round_double x = of_int m * ulp x" using False assms(1) by (simp add: round_double_def)
  with assms(2) show ?thesis by simp
qed simp

lemma binade_eqI:
  assumes "2 powi k \<le> x" and "x < 2 powi (k + 1)"
  shows "binade x = k"
proof -
  have x: "0 < x" using assms(1) zero_less_power_int [of "2::rat" k] by linarith
  have "(2::rat) powi binade x < 2 powi (k + 1)" "(2::rat) powi k < 2 powi (binade x + 1)"
    using binade_bounds [OF x] assms by linarith+
  then have "binade x < k + 1" "k < binade x + 1" by (auto dest: powi_less_imp_less)
  then show ?thesis by simp
qed

lemma round_double_nat:
  assumes "n < 2 ^ 53"
  shows "round_double (of_nat n) = of_nat n"
proof (cases "n = 0")
  case False
  let ?b = "binade (of_nat n)"
  have n: "(0::rat) < of_nat n" using False by simp
  have "(2::rat) powi ?b \<le> of_nat n" using binade_bounds(1) [OF n] .
  also have "(of_nat n :: rat) < 2 powi 53" using of_nat_less_iff [where 'a = rat, THEN iffD2, OF assms] by simp
  finally have "?b < 53" by (rule powi_less_imp_less)
  define k where "k = nat (52 - ?b)"
  have k: "?b - 52 = - int k" using \<open>?b < 53\<close> by (simp add: k_def)
  have "of_nat n = of_int (int n * 2 ^ k) * ulp (of_nat n)"
    by (simp add: ulp_def k power_int_minus field_simps)
  then show ?thesis by (rule round_double_exact [rotated]) simp
qed simp

section \<open>Utilization\<close>

text \<open>\<^verbatim>\<open>static_cast<double>\<close> of an unsigned number, and the division.\<close>

definition double_of :: "size_t \<Rightarrow> double" where
  "double_of w = round_double (of_nat (unat w))"

definition double_div :: "double \<Rightarrow> double \<Rightarrow> double" where
  "double_div x y = round_double (x / y)"

definition SOFT_LIMIT_RATIO :: double where
  "SOFT_LIMIT_RATIO = round_double (85 / 100)"

definition utilization :: "'u tracking_resource \<Rightarrow> double" where
  "utilization t = (if capacity t = 0 then 1 else double_div (double_of (bytes_used t)) (double_of (capacity t)))"

definition is_soft_limit_reached :: "'u tracking_resource \<Rightarrow> bool" where
  "is_soft_limit_reached t \<longleftrightarrow> utilization t \<ge> SOFT_LIMIT_RATIO"

definition arena_utilization :: "'u pmr_arena \<Rightarrow> double" where
  "arena_utilization a = utilization (tracker a)"

definition arena_is_soft_limit_reached :: "'u pmr_arena \<Rightarrow> bool" where
  "arena_is_soft_limit_reached a = is_soft_limit_reached (tracker a)"

definition shard_is_soft_limit_reached :: "'u shard \<Rightarrow> bool" where
  "shard_is_soft_limit_reached s = arena_is_soft_limit_reached (arena s)"

lemma round_double_1 [simp]: "round_double 1 = 1"
  using round_double_nat [of 1] by simp

lemma double_of_mono: "v \<le> w \<Longrightarrow> double_of v \<le> double_of w"
  unfolding double_of_def word_le_nat_alt by (intro round_double_mono) (simp only: of_nat_le_iff)

lemma double_of_small: "unat w < 2 ^ 53 \<Longrightarrow> double_of w = of_nat (unat w)"
  unfolding double_of_def by (rule round_double_nat)

lemma double_of_pos:
  assumes "w \<noteq> 0"
  shows "1 \<le> double_of w"
proof -
  have "1 \<le> unat w" using assms by (simp add: unat_gt_0 Suc_le_eq)
  then have "(1::rat) \<le> of_nat (unat w)" by (metis of_nat_1 of_nat_le_iff)
  then show ?thesis using round_double_mono [of 1] by (simp add: double_of_def)
qed

text \<open>The quotient is rounded to at least one when it is at least one, and to at most one when it is at most one.\<close>

lemma double_div_ge_1: "0 < y \<Longrightarrow> y \<le> x \<Longrightarrow> 1 \<le> double_div x y"
  using round_double_mono [of 1 "x / y"] by (simp add: double_div_def)

lemma double_div_le_1: "0 < y \<Longrightarrow> x \<le> y \<Longrightarrow> double_div x y \<le> 1"
  using round_double_mono [of "x / y" 1] by (simp add: double_div_def)

lemma utilization_full: "capacity t \<le> bytes_used t \<Longrightarrow> 1 \<le> utilization t"
  using double_of_pos [of "capacity t"] by (auto simp: utilization_def intro!: double_div_ge_1 double_of_mono)

lemma utilization_le_1: "bytes_used t \<le> capacity t \<Longrightarrow> utilization t \<le> 1"
  using double_of_pos [of "capacity t"] by (auto simp: utilization_def intro!: double_div_le_1 double_of_mono)

lemma utilization_nonneg: "0 \<le> utilization t"
  by (simp add: utilization_def double_div_def)

lemma soft_limit_ratio: "SOFT_LIMIT_RATIO = of_int 7656119366529843 / 2 ^ 53"
proof -
  have "binade (85 / 100) = -1" by (rule binade_eqI) simp_all
  moreover have "\<lfloor>38280596832649216 / 5 :: rat\<rfloor> = 7656119366529843" by (simp add: floor_eq_iff)
  ultimately show ?thesis by (simp add: SOFT_LIMIT_RATIO_def round_double_def ulp_def round_even_def power_int_minus Let_def)
qed

lemma at_least_ratio:
  assumes "17 * n \<le> 20 * m" and "0 < n"
  shows "SOFT_LIMIT_RATIO \<le> round_double (of_nat m / of_nat n)"
proof -
  have "17 * of_nat n \<le> (20 * of_nat m :: rat)"
    using assms(1) of_nat_le_iff [of "17 * n" "20 * m", where 'a = rat] by simp
  then show ?thesis unfolding SOFT_LIMIT_RATIO_def using assms(2) by (intro round_double_mono) (simp add: field_simps)
qed

text \<open>
  A quotient below the ratio is below it by so much that it is not rounded up to it, when the denominator
  is not too large: \<open>17 * n - 20 * m\<close> is then at least one.
\<close>

lemma below_ratio:
  assumes "20 * m < 17 * n" and "n \<le> 2 ^ 48"
  shows "round_double (of_nat m / of_nat n) < SOFT_LIMIT_RATIO"
proof (cases "of_nat m / of_nat n < (1 / 2 :: rat)")
  case True
  have "binade (1 / 2) = -1" by (rule binade_eqI) simp_all
  then have "round_double (1 / 2) = 1 / 2"
    by (intro round_double_exact [of _ "2 ^ 52"]) (simp_all add: ulp_def power_int_minus)
  moreover have "round_double (of_nat m / of_nat n) \<le> round_double (1 / 2)" using True by (intro round_double_mono) simp
  ultimately show ?thesis by (simp add: soft_limit_ratio)
next
  case False
  let ?x = "of_nat m / of_nat n :: rat"
  have n: "0 < n" using assms(1) by simp
  have d: "20 * of_nat m + 1 \<le> (17 * of_nat n :: rat)" "of_nat n \<le> (2 ^ 48 :: rat)"
    using assms of_nat_le_iff [of "20 * m + 1" "17 * n", where 'a = rat] of_nat_le_iff [of n "2 ^ 48", where 'a = rat] by simp_all
  have "binade ?x = -1" using False d n by (intro binade_eqI) (simp_all add: field_simps)
  then have u: "ulp ?x = 1 / 2 ^ 53" by (simp add: ulp_def power_int_minus)
  have "(1 / 20) / (2 ^ 48) \<le> (1 / 20) / (of_nat n :: rat)" using d(2) n by (intro divide_left_mono) simp_all
  moreover have "?x + (1 / 20) / of_nat n \<le> 17 / 20" using d(1) n by (simp add: field_simps)
  ultimately have "?x / ulp ?x \<le> 17 / 20 * 2 ^ 53 - 8 / 5" by (simp add: u)
  then have "of_int (round_even (?x / ulp ?x)) < (of_int 7656119366529843 :: rat)"
    using round_even_error(1) [of "?x / ulp ?x"] by simp
  then show ?thesis using False by (simp add: round_double_def u soft_limit_ratio divide_strict_right_mono)
qed

lemma soft_limit_tracker:
  assumes "capacity t \<le> 2 ^ 48"
  shows "is_soft_limit_reached t \<longleftrightarrow> 85 * unat (capacity t) \<le> 100 * unat (bytes_used t)"
proof (cases "capacity t = 0")
  case True
  then show ?thesis by (simp add: is_soft_limit_reached_def utilization_def soft_limit_ratio)
next
  case False
  let ?n = "unat (capacity t)" and ?m = "unat (bytes_used t)"
  have n: "?n \<le> 2 ^ 48" "0 < ?n" using assms False by (simp_all add: word_le_nat_alt unat_gt_0)
  show ?thesis
  proof (cases "capacity t \<le> bytes_used t")
    case True
    then have "is_soft_limit_reached t" using utilization_full [of t] by (simp add: is_soft_limit_reached_def soft_limit_ratio)
    with True show ?thesis by (simp add: word_le_nat_alt)
  next
    case less: False
    then have "?m < 2 ^ 53" "?n < 2 ^ 53" using n by (simp_all add: word_le_nat_alt)
    then have u: "utilization t = round_double (of_nat ?m / of_nat ?n)"
      using False by (simp add: utilization_def double_div_def double_of_small)
    show ?thesis
    proof (cases "20 * ?m < 17 * ?n")
      case True
      with below_ratio [OF True n(1)] show ?thesis by (simp add: is_soft_limit_reached_def u not_le)
    next
      case ge: False
      then have "is_soft_limit_reached t" using at_least_ratio [of ?n ?m] n(2) by (simp add: is_soft_limit_reached_def u)
      with ge show ?thesis by simp
    qed
  qed
qed

section \<open>Properties\<close>

text \<open>
  C24.  The soft limit is the exact one.  A shard with an arena of at most \<open>2\<^sup>4\<^sup>8\<close> bytes reports it as reached
  exactly when the bytes in use are at least 85 percent of the capacity, although the ratio is computed
  and compared in floating point and 0.85 is not a \<^verbatim>\<open>double\<close>.  The utilization lies between
  zero and one, and it is one when the hard limit is reached.
\<close>

theorem soft_limit_exact:
  assumes "shard_wf env s" and "memory_capacity s \<le> 2 ^ 48"
  shows "(shard_is_soft_limit_reached s \<longleftrightarrow> 85 * unat (memory_capacity s) \<le> 100 * unat (memory_used s)) \<and>
    arena_utilization (arena s) \<in> {0..1} \<and>
    (arena_is_hard_limit_reached (arena s) \<longrightarrow> arena_utilization (arena s) = 1 \<and> shard_is_soft_limit_reached s)"
proof -
  let ?t = "tracker (arena s)"
  have wf: "arena_capacity (arena s) = capacity ?t" "bytes_used ?t \<le> capacity ?t"
    using assms(1) by (simp_all add: shard_wf_def within_capacity_def)
  have "utilization ?t \<in> {0..1}" using utilization_le_1 [OF wf(2)] utilization_nonneg by auto
  moreover have "utilization ?t = 1" if "capacity ?t \<le> bytes_used ?t"
    using utilization_full [OF that] utilization_le_1 [OF wf(2)] by simp
  moreover have "is_soft_limit_reached ?t" if "utilization ?t = 1"
    using that by (simp add: is_soft_limit_reached_def soft_limit_ratio)
  ultimately show ?thesis using soft_limit_tracker [of ?t] assms(2) wf(1)
    by (auto simp: shard_is_soft_limit_reached_def arena_is_soft_limit_reached_def arena_utilization_def
        arena_is_hard_limit_reached_def is_hard_limit_reached_def memory_capacity_def memory_used_def arena_bytes_used_def)
qed

theorem soft_limit_exact_witness:
  "\<not> shard_is_soft_limit_reached (snd (shard_set demo_env 0 ''k'' ''0123456789012345678'' 5 (mk_shard demo_env 100))) \<and>
   shard_is_soft_limit_reached (snd (shard_set demo_env 0 ''k'' ''01234567890123456789'' 5 (mk_shard demo_env 100)))"
proof -
  let ?s = "\<lambda>v. snd (shard_set demo_env 0 ''k'' v 5 (mk_shard demo_env 100))"
  have wf: "shard_wf demo_env (?s v)" for v by (intro shard_wf_set demo_env_wf)
  have 1: "memory_capacity (?s ''0123456789012345678'') = 100" "memory_used (?s ''0123456789012345678'') = 84"
    and 2: "memory_capacity (?s ''01234567890123456789'') = 100" "memory_used (?s ''01234567890123456789'') = 85"
    by (simp_all add: memory_capacity_def memory_used_def arena_bytes_used_def demo_simps)
  show ?thesis using soft_limit_exact [OF wf [of "''0123456789012345678''"]] soft_limit_exact [OF wf [of "''01234567890123456789''"]]
    by (simp add: 1 2)
qed

end
