(* ===== verification/KV_Rate_Limit.thy ===== *)
theory KV_Rate_Limit
  imports KV_Double KV_Pipeline
begin

text \<open>
  The token buckets of rate_limiter.cpp: the part of \<^verbatim>\<open>RateLimiter::allow\<close> below the \<^verbatim>\<open>return true\<close> that
  a comment calls temporary.  The program as it stands never executes it (\<open>allow\<close> of KV_Pipeline is what it
  does), so these are theorems about the limiter that will be in force when the statement is removed.
  The arithmetic is that of \<^verbatim>\<open>double\<close>, each operation rounded.  The theorems show that
  the limit holds up to a stated rounding error and that a client that keeps to it is never refused.
\<close>

section \<open>The buckets\<close>

text \<open>Rounding of a number of either sign.\<close>

definition rounded :: "rat \<Rightarrow> double" where
  "rounded x = (if x < 0 then - round_double (- x) else round_double x)"

definition MAX_TOKENS :: double where
  "MAX_TOKENS = 1000"

definition REFILL_RATE :: double where
  "REFILL_RATE = rounded (MAX_TOKENS / 60)"

record token_bucket =
  tokens :: double
  last_refill :: time_point

definition mk_token_bucket :: "time_point \<Rightarrow> token_bucket" where
  "mk_token_bucket now = \<lparr>tokens = MAX_TOKENS, last_refill = now\<rparr>"

text \<open>\<^verbatim>\<open>duration<double>(d).count()\<close> of a duration in nanoseconds.\<close>

definition seconds_count :: "int \<Rightarrow> double" where
  "seconds_count d = rounded (rounded (of_int d) / rounded (10 ^ 9))"

definition refill :: "time_point \<Rightarrow> token_bucket \<Rightarrow> token_bucket" where
  "refill now b =
     (let elapsed = seconds_count (now - last_refill b)
      in \<lparr>tokens = min MAX_TOKENS (rounded (tokens b + rounded (elapsed * REFILL_RATE))), last_refill = now\<rparr>)"

definition take_token :: "token_bucket \<Rightarrow> bool \<times> token_bucket" where
  "take_token b = (if tokens b \<ge> 1 then (True, b\<lparr>tokens := rounded (tokens b - 1)\<rparr>) else (False, b))"

type_synonym rate_limit_shard = "(string \<times> token_bucket) list"

definition mk_rate_limiter :: "rate_limit_shard list" where
  "mk_rate_limiter = replicate (unat NUM_SHARDS) []"

text \<open>
  \<open>made\<close> is the clock reading of the constructor of a bucket that \<^verbatim>\<open>operator[]\<close> has to make, \<open>now\<close> the one
  that follows.
\<close>

definition allow_limited ::
  "(string \<Rightarrow> size_t) \<Rightarrow> time_point \<Rightarrow> time_point \<Rightarrow> string \<Rightarrow> rate_limit_shard list \<Rightarrow> bool \<times> rate_limit_shard list" where
  "allow_limited hash made now ip ss =
     (let i = unat (shard_for_ip hash ip);
          bucket = (case map_of (ss ! i) ip of None \<Rightarrow> mk_token_bucket made | Some b \<Rightarrow> b);
          (ok, bucket') = take_token (refill now bucket)
      in (ok, ss[i := AList.update ip bucket' (ss ! i)]))"

section \<open>Rounding errors\<close>

lemma ulp_le: "0 < x \<Longrightarrow> ulp x \<le> x / 2 ^ 52"
  using binade_bounds(1) [of x] by (simp add: ulp_def power_int_diff divide_right_mono)

lemma round_double_error:
  assumes "0 \<le> x"
  shows "\<bar>round_double x - x\<bar> \<le> x / 2 ^ 53"
proof (cases "x = 0")
  case False
  then have x: "0 < x" using assms by simp
  let ?n = "of_int (round_even (x / ulp x)) :: rat"
  have "\<bar>?n - x / ulp x\<bar> \<le> 1 / 2" using round_even_error [of "x / ulp x"] by (intro abs_leI) linarith+
  then have "\<bar>(?n - x / ulp x) * ulp x\<bar> \<le> 1 / 2 * ulp x" by (simp only: abs_mult) (simp add: mult_right_mono)
  moreover have "(?n - x / ulp x) * ulp x = round_double x - x" using x by (simp add: round_double_def left_diff_distrib)
  ultimately have "\<bar>round_double x - x\<bar> \<le> ulp x / 2" by simp
  with ulp_le [OF x] show ?thesis by simp
qed simp

abbreviation up :: rat where
  "up \<equiv> 1 + 1 / 2 ^ 53"

abbreviation down :: rat where
  "down \<equiv> 1 - 1 / 2 ^ 53"

lemma rounded_le: "0 \<le> x \<Longrightarrow> rounded x \<le> x * up"
  using abs_ge_self [of "round_double x - x"] round_double_error [of x] by (simp add: rounded_def algebra_simps)

lemma rounded_ge: "0 \<le> x \<Longrightarrow> x * down \<le> rounded x"
  using abs_ge_minus_self [of "round_double x - x"] round_double_error [of x] by (simp add: rounded_def algebra_simps)

lemma rounded_nonneg [simp]: "0 \<le> x \<Longrightarrow> 0 \<le> rounded x"
  by (simp add: rounded_def)

lemma rounded_mono: "0 \<le> x \<Longrightarrow> x \<le> y \<Longrightarrow> rounded x \<le> rounded y"
  by (simp add: rounded_def round_double_mono)

lemma rounded_1 [simp]: "rounded 1 = 1"
  by (simp add: rounded_def)

lemma rounded_1e9 [simp]: "rounded 1000000000 = 1000000000"
  using round_double_nat [of 1000000000] by (simp add: rounded_def)

text \<open>Two roundings in a row, the second of a product or quotient with the first.\<close>

lemma rounded_le_trans: "0 \<le> x \<Longrightarrow> x \<le> y \<Longrightarrow> rounded x \<le> y * up"
  using rounded_le [of x] mult_right_mono [of x y up] by simp

lemma rounded_ge_trans: "0 \<le> y \<Longrightarrow> y \<le> x \<Longrightarrow> y * down \<le> rounded x"
  using rounded_ge [of x] mult_right_mono [of y x down] by simp

lemma refill_rate_bounds: "50 / 3 * down \<le> REFILL_RATE" "REFILL_RATE \<le> 50 / 3 * up"
  using rounded_ge [of "50 / 3"] rounded_le [of "50 / 3"] by (simp_all add: REFILL_RATE_def MAX_TOKENS_def)

lemma seconds_count_bounds:
  assumes "0 \<le> d"
  shows "of_int d / 10 ^ 9 * down\<^sup>2 \<le> seconds_count d" and "seconds_count d \<le> of_int d / 10 ^ 9 * up\<^sup>2"
proof -
  let ?d = "of_int d :: rat"
  have d: "0 \<le> ?d" using assms by simp
  have u: "0 \<le> rounded ?d / 10 ^ 9" "rounded ?d / 10 ^ 9 \<le> ?d / 10 ^ 9 * up"
    using rounded_le [OF d] d by (simp_all add: divide_right_mono)
  have l: "0 \<le> ?d / 10 ^ 9 * down" "?d / 10 ^ 9 * down \<le> rounded ?d / 10 ^ 9"
    using rounded_ge [OF d] d by (simp_all add: divide_right_mono)
  show "?d / 10 ^ 9 * down\<^sup>2 \<le> seconds_count d"
    using rounded_ge_trans [OF l] by (simp add: seconds_count_def power2_eq_square)
  show "seconds_count d \<le> ?d / 10 ^ 9 * up\<^sup>2"
    using rounded_le_trans [OF u] by (simp add: seconds_count_def power2_eq_square)
qed

text \<open>The tokens that accrue in \<open>d\<close> nanoseconds: 1000 in a minute, up to the rounding.\<close>

definition accrued :: "int \<Rightarrow> rat" where
  "accrued d = of_int d / 10 ^ 9 * (50 / 3) * (1 + 1 / 2 ^ 50)"

lemma gain_le:
  assumes "0 \<le> d"
  shows "rounded (seconds_count d * REFILL_RATE) \<le> accrued d"
proof -
  let ?u = "of_int d / 10 ^ 9 :: rat"
  have u: "0 \<le> ?u" using assms by simp
  have s: "0 \<le> seconds_count d" using assms by (simp add: seconds_count_def)
  have r: "0 \<le> REFILL_RATE" by (simp add: REFILL_RATE_def MAX_TOKENS_def)
  have "seconds_count d * REFILL_RATE \<le> (?u * up\<^sup>2) * (50 / 3 * up)"
    by (rule mult_mono [OF seconds_count_bounds(2) [OF assms] refill_rate_bounds(2) _ r]) (use u in simp)
  then have "rounded (seconds_count d * REFILL_RATE) \<le> (?u * up\<^sup>2) * (50 / 3 * up) * up"
    using s r by (intro rounded_le_trans) simp_all
  also have "\<dots> = ?u * (50 / 3) * up ^ 4" by (simp add: eval_nat_numeral)
  also have "\<dots> \<le> accrued d" unfolding accrued_def by (rule mult_left_mono) (use u in \<open>simp_all add: eval_nat_numeral\<close>)
  finally show ?thesis .
qed

text \<open>A gap of 61 milliseconds brings at least one token.\<close>

lemma gain_ge_1:
  assumes "61000000 \<le> d"
  shows "1 \<le> rounded (seconds_count d * REFILL_RATE)"
proof -
  have "61 / 1000 \<le> (of_int d / 10 ^ 9 :: rat)" using assms by (simp add: field_simps)
  then have "61 / 1000 * down\<^sup>2 \<le> of_int d / 10 ^ 9 * down\<^sup>2" by (intro mult_right_mono) simp_all
  also have "\<dots> \<le> seconds_count d" using assms by (intro seconds_count_bounds(1)) simp
  finally have s: "61 / 1000 * down\<^sup>2 \<le> seconds_count d" .
  have "1 \<le> (61 / 1000 * down\<^sup>2) * (50 / 3 * down)" by (simp add: eval_nat_numeral)
  also have "\<dots> \<le> seconds_count d * REFILL_RATE"
    by (rule mult_mono [OF s refill_rate_bounds(1)]) (use assms in \<open>simp_all add: seconds_count_def\<close>)
  finally show ?thesis using rounded_mono [of 1] by simp
qed

section \<open>One bucket\<close>

definition bucket_ok :: "token_bucket \<Rightarrow> bool" where
  "bucket_ok b \<longleftrightarrow> 0 \<le> tokens b \<and> tokens b \<le> MAX_TOKENS"

lemma refill_bounds:
  assumes "bucket_ok b" and "last_refill b \<le> now"
  shows "bucket_ok (refill now b)" and "last_refill (refill now b) = now"
    and "tokens (refill now b) \<le> tokens b + accrued (now - last_refill b) + 1 / 2 ^ 42"
proof -
  let ?x = "rounded (seconds_count (now - last_refill b) * REFILL_RATE)"
  have x: "0 \<le> ?x" using assms(2) by (simp add: seconds_count_def REFILL_RATE_def MAX_TOKENS_def)
  have t: "0 \<le> tokens b" "tokens b \<le> 1000" using assms(1) by (simp_all add: bucket_ok_def MAX_TOKENS_def)
  show "bucket_ok (refill now b)" "last_refill (refill now b) = now"
    using t x by (simp_all add: bucket_ok_def refill_def Let_def MAX_TOKENS_def)
  have "min 1000 (rounded (tokens b + ?x)) \<le> tokens b + ?x + 1 / 2 ^ 42"
  proof (cases "tokens b + ?x \<le> 2000")
    case True
    have "rounded (tokens b + ?x) \<le> (tokens b + ?x) * up" using t x by (intro rounded_le) simp
    with True show ?thesis by (simp add: min_le_iff_disj algebra_simps)
  next
    case False
    then show ?thesis by (simp add: min_le_iff_disj)
  qed
  with gain_le [of "now - last_refill b"] assms(2) show "tokens (refill now b) \<le> tokens b + accrued (now - last_refill b) + 1 / 2 ^ 42"
    by (simp add: refill_def Let_def MAX_TOKENS_def)
qed

lemma take_token_bounds:
  assumes "bucket_ok b" and "take_token b = (ok, b')"
  shows "bucket_ok b'" and "last_refill b' = last_refill b" and "tokens b' + (if ok then 1 else 0) \<le> tokens b + 1 / 2 ^ 42"
proof -
  have t: "tokens b \<le> 1000" using assms(1) by (simp add: bucket_ok_def MAX_TOKENS_def)
  have r: "0 \<le> rounded (tokens b - 1)" "rounded (tokens b - 1) \<le> tokens b - 1 + 1 / 2 ^ 42" if "1 \<le> tokens b"
    using rounded_le [of "tokens b - 1"] that t by (simp_all add: algebra_simps)
  show "bucket_ok b'" "last_refill b' = last_refill b" "tokens b' + (if ok then 1 else 0) \<le> tokens b + 1 / 2 ^ 42"
    using assms r t by (auto simp: take_token_def bucket_ok_def MAX_TOKENS_def split: if_splits)
qed

section \<open>All buckets\<close>

definition bucket_of :: "(string \<Rightarrow> size_t) \<Rightarrow> string \<Rightarrow> rate_limit_shard list \<Rightarrow> token_bucket option" where
  "bucket_of hash ip ss = map_of (ss ! unat (shard_for_ip hash ip)) ip"

lemma shard_for_ip_in_range: "unat (shard_for_ip hash ip) < 64"
  by (simp add: shard_for_ip_def NUM_SHARDS_def unat_mod)

text \<open>A request touches the bucket of its own address only.\<close>

lemma allow_limited_bucket:
  assumes "length ss = 64" and "allow_limited hash made now ip ss = (ok, ss')"
  defines "b \<equiv> (case bucket_of hash ip ss of None \<Rightarrow> mk_token_bucket made | Some b \<Rightarrow> b)"
  shows "length ss' = 64" and "\<exists>b'. take_token (refill now b) = (ok, b') \<and>
    (\<forall>ip'. bucket_of hash ip' ss' = (if ip' = ip then Some b' else bucket_of hash ip' ss))"
  using assms(1,2) shard_for_ip_in_range [of hash ip]
  by (auto simp: allow_limited_def b_def bucket_of_def Let_def nth_list_update update_conv' split: prod.splits)

text \<open>A sequence of requests, each with its address and its two readings of the clock.\<close>

fun run_limiter ::
  "(string \<Rightarrow> size_t) \<Rightarrow> (string \<times> time_point \<times> time_point) list \<Rightarrow> rate_limit_shard list
     \<Rightarrow> (string \<times> bool) list \<times> rate_limit_shard list" where
  "run_limiter hash [] ss = ([], ss)"
| "run_limiter hash ((ip, made, now) # qs) ss =
     (let (ok, ss1) = allow_limited hash made now ip ss; (answers, ss2) = run_limiter hash qs ss1 in ((ip, ok) # answers, ss2))"

text \<open>The readings do not go back and lie between the two bounds.\<close>

fun clocked :: "time_point \<Rightarrow> time_point \<Rightarrow> (string \<times> time_point \<times> time_point) list \<Rightarrow> bool" where
  "clocked t0 t1 [] \<longleftrightarrow> t0 \<le> t1"
| "clocked t0 t1 ((ip, made, now) # qs) \<longleftrightarrow> t0 \<le> made \<and> made \<le> now \<and> clocked now t1 qs"

definition allowed :: "string \<Rightarrow> (string \<times> bool) list \<Rightarrow> nat" where
  "allowed ip answers = length (filter (\<lambda>a. a = (ip, True)) answers)"

definition asked :: "string \<Rightarrow> (string \<times> time_point \<times> time_point) list \<Rightarrow> nat" where
  "asked ip qs = length (filter (\<lambda>q. fst q = ip) qs)"

lemma accrued_add: "accrued (d + e) = accrued d + accrued e"
  by (simp add: accrued_def algebra_simps)

lemma accrued_nonneg: "0 \<le> d \<Longrightarrow> 0 \<le> accrued d"
  by (simp add: accrued_def)

lemma accrued_mono: "d \<le> e \<Longrightarrow> accrued d \<le> accrued e"
  using accrued_add [of d "e - d"] accrued_nonneg [of "e - d"] by simp

lemma clocked_le: "clocked t0 t1 qs \<Longrightarrow> t0 \<le> t1"
  by (induction qs arbitrary: t0) force+

text \<open>What a client may still be allowed, given its bucket or the time from which it may get one.\<close>

definition credit :: "time_point \<Rightarrow> time_point \<Rightarrow> token_bucket option \<Rightarrow> rat" where
  "credit t0 t1 bo = (case bo of None \<Rightarrow> MAX_TOKENS + accrued (t1 - t0) | Some b \<Rightarrow> tokens b + accrued (t1 - last_refill b))"

definition bucket_before :: "time_point \<Rightarrow> token_bucket option \<Rightarrow> bool" where
  "bucket_before t0 bo \<longleftrightarrow> (\<forall>b. bo = Some b \<longrightarrow> bucket_ok b \<and> last_refill b \<le> t0)"

lemma credit_spent:
  assumes "bucket_before t0 bo" and "t0 \<le> made" and "made \<le> now" and "now \<le> t1"
    and "take_token (refill now (case bo of None \<Rightarrow> mk_token_bucket made | Some b \<Rightarrow> b)) = (ok, b')"
  shows "bucket_before now (Some b')" and "credit now t1 (Some b') + (if ok then 1 else 0) \<le> credit t0 t1 bo + 1 / 2 ^ 41"
proof -
  define b where "b = (case bo of None \<Rightarrow> mk_token_bucket made | Some b \<Rightarrow> b)"
  have b: "bucket_ok b" "last_refill b \<le> now"
    using assms(1-3) by (auto simp: b_def bucket_before_def bucket_ok_def mk_token_bucket_def MAX_TOKENS_def split: option.splits)
  have c: "tokens b + accrued (t1 - last_refill b) \<le> credit t0 t1 bo"
    using assms(2) accrued_mono [of "t1 - made" "t1 - t0"] by (simp add: b_def credit_def mk_token_bucket_def split: option.splits)
  note r = refill_bounds [OF b]
  note k = take_token_bounds [OF r(1) assms(5) [folded b_def]]
  show "bucket_before now (Some b')" using k(1,2) r(2) by (simp add: bucket_before_def)
  have "accrued (t1 - last_refill b) = accrued (now - last_refill b) + accrued (t1 - now)" by (simp flip: accrued_add)
  with k(2,3) r(2,3) c show "credit now t1 (Some b') + (if ok then 1 else 0) \<le> credit t0 t1 bo + 1 / 2 ^ 41"
    by (simp add: credit_def)
qed

lemma limiter_run_bound:
  assumes "length ss = 64" and "bucket_before t0 (bucket_of hash ip ss)" and "clocked t0 t1 qs"
    and "run_limiter hash qs ss = (answers, ss')"
  shows "of_nat (allowed ip answers) \<le> credit t0 t1 (bucket_of hash ip ss) + of_nat (asked ip qs) / 2 ^ 41"
  using assms
proof (induction qs arbitrary: ss t0 answers ss')
  case Nil
  then have "0 \<le> credit t0 t1 (bucket_of hash ip ss)"
    by (auto simp: credit_def bucket_before_def bucket_ok_def MAX_TOKENS_def intro!: add_nonneg_nonneg accrued_nonneg split: option.splits)
  with Nil show ?case by (simp add: allowed_def asked_def)
next
  case (Cons q qs)
  obtain ip' made now where q: "q = (ip', made, now)" by (cases q)
  obtain ok ss1 where a: "allow_limited hash made now ip' ss = (ok, ss1)" by force
  obtain rest ss2 where r: "run_limiter hash qs ss1 = (rest, ss2)" by force
  have ans: "answers = (ip', ok) # rest" using Cons.prems(4) by (simp add: q a r)
  have cl: "t0 \<le> made" "made \<le> now" "clocked now t1 qs" using Cons.prems(3) by (simp_all add: q)
  have l: "length ss1 = 64" by (rule allow_limited_bucket(1) [OF Cons.prems(1) a])
  obtain b' where b': "take_token (refill now (case bucket_of hash ip' ss of None \<Rightarrow> mk_token_bucket made | Some b \<Rightarrow> b)) = (ok, b')"
    "\<And>x. bucket_of hash x ss1 = (if x = ip' then Some b' else bucket_of hash x ss)"
    using allow_limited_bucket(2) [OF Cons.prems(1) a] by blast
  show ?case
  proof (cases "ip' = ip")
    case True
    note s = credit_spent [OF Cons.prems(2) cl(1,2) clocked_le [OF cl(3)] b'(1) [unfolded True]]
    have "of_nat (allowed ip rest) \<le> credit now t1 (Some b') + of_nat (asked ip qs) / 2 ^ 41"
      using Cons.IH [OF l _ cl(3) r] s(1) b'(2) [of ip] True by simp
    with s(2) show ?thesis by (cases ok) (simp_all add: ans q True allowed_def asked_def add_divide_distrib)
  next
    case False
    have "bucket_before now (bucket_of hash ip ss)" using Cons.prems(2) cl(1,2) by (auto simp: bucket_before_def)
    then have "of_nat (allowed ip rest) \<le> credit now t1 (bucket_of hash ip ss) + of_nat (asked ip qs) / 2 ^ 41"
      using Cons.IH [OF l _ cl(3) r] b'(2) [of ip] False by simp
    moreover have "credit now t1 (bucket_of hash ip ss) \<le> credit t0 t1 (bucket_of hash ip ss)"
      using cl(1,2) accrued_mono [of "t1 - now" "t1 - t0"] by (auto simp: credit_def split: option.splits)
    ultimately show ?thesis using False by (simp add: ans q allowed_def asked_def)
  qed
qed

text \<open>A bucket was last filled by a request of its own address.\<close>

lemma limiter_run_buckets:
  assumes "length ss = 64" and "clocked t0 t1 qs" and "run_limiter hash qs ss = (answers, ss')"
    and "bucket_before t0 (bucket_of hash ip ss)"
  shows "length ss' = 64 \<and> bucket_before t1 (bucket_of hash ip ss') \<and>
    (\<forall>b. bucket_of hash ip ss' = Some b \<longrightarrow> bucket_of hash ip ss = Some b \<or> (\<exists>made. (ip, made, last_refill b) \<in> set qs))"
  using assms
proof (induction qs arbitrary: ss t0 answers)
  case Nil
  then show ?case by (auto simp: bucket_before_def)
next
  case (Cons q qs)
  obtain ip' made now where q: "q = (ip', made, now)" by (cases q)
  obtain ok ss1 where a: "allow_limited hash made now ip' ss = (ok, ss1)" by force
  obtain rest where r: "run_limiter hash qs ss1 = (rest, ss')" using Cons.prems(3) by (auto simp: q a split: prod.splits)
  have cl: "t0 \<le> made" "made \<le> now" "clocked now t1 qs" using Cons.prems(2) by (simp_all add: q)
  have l: "length ss1 = 64" by (rule allow_limited_bucket(1) [OF Cons.prems(1) a])
  obtain b' where b': "take_token (refill now (case bucket_of hash ip' ss of None \<Rightarrow> mk_token_bucket made | Some b \<Rightarrow> b)) = (ok, b')"
    "\<And>x. bucket_of hash x ss1 = (if x = ip' then Some b' else bucket_of hash x ss)"
    using allow_limited_bucket(2) [OF Cons.prems(1) a] by blast
  have lr: "last_refill b' = now" using b'(1) by (auto simp: take_token_def refill_def Let_def split: if_splits)
  have "bucket_before now (bucket_of hash ip ss1)"
  proof (cases "ip' = ip")
    case True
    from credit_spent(1) [OF Cons.prems(4) cl(1,2) clocked_le [OF cl(3)] b'(1) [unfolded True]] True b'(2) show ?thesis by simp
  next
    case False
    with Cons.prems(4) cl(1,2) b'(2) show ?thesis by (auto simp: bucket_before_def)
  qed
  from Cons.IH [OF l cl(3) r this] b'(2) [of ip] lr show ?case by (auto simp: q split: if_splits)
qed

lemma mk_rate_limiter_empty [simp]: "length mk_rate_limiter = 64" "bucket_of hash ip mk_rate_limiter = None"
  using shard_for_ip_in_range [of hash ip] by (simp_all add: mk_rate_limiter_def bucket_of_def NUM_SHARDS_def)

section \<open>Properties\<close>

text \<open>
  C38.  The limit of the token buckets.  In any sequence of requests of any clients within a span of time, a client
  is allowed no more than 1000 requests and those that accrue in the span at 1000 a minute, up to
  the rounding: the rate may be too high by one part in \<open>2\<^sup>5\<^sup>0\<close>, and each request may add \<open>2\<^sup>-\<^sup>4\<^sup>1\<close> of a token.
\<close>

theorem rate_limit_bound:
  assumes "clocked t0 t1 qs" and "run_limiter hash qs mk_rate_limiter = (answers, ss)"
  shows "of_nat (allowed ip answers) \<le> 1000 + of_int (t1 - t0) / 10 ^ 9 * (1000 / 60) * (1 + 1 / 2 ^ 50) + of_nat (asked ip qs) / (2 ^ 41 :: rat)"
  using limiter_run_bound [OF mk_rate_limiter_empty(1) _ assms, of ip]
  by (simp add: bucket_before_def credit_def MAX_TOKENS_def accrued_def)

text \<open>
  C39.  A client that keeps to the limit is never refused.  Whatever other clients have done, a request is allowed
  if the last one of the same client lies at least 61 milliseconds back, so that it sends fewer than 984 in a minute.
\<close>

theorem rate_limit_admits:
  assumes "clocked t0 t1 qs" and "run_limiter hash qs mk_rate_limiter = (answers, ss)" and "t1 \<le> made" and "made \<le> now"
    and "\<forall>(ip', made', now') \<in> set qs. ip' = ip \<longrightarrow> now' + 61000000 \<le> now"
  shows "fst (allow_limited hash made now ip ss)"
proof -
  have l: "length ss = 64" and before: "bucket_before t1 (bucket_of hash ip ss)"
    and last: "\<forall>b. bucket_of hash ip ss = Some b \<longrightarrow> (\<exists>made. (ip, made, last_refill b) \<in> set qs)"
    using limiter_run_buckets [OF _ assms(1,2), of ip] by (simp_all add: bucket_before_def)
  define b where "b = (case bucket_of hash ip ss of None \<Rightarrow> mk_token_bucket made | Some b \<Rightarrow> b)"
  obtain ok ss' where a: "allow_limited hash made now ip ss = (ok, ss')" by force
  obtain b' where t: "take_token (refill now b) = (ok, b')" using allow_limited_bucket(2) [OF l a] by (auto simp: b_def)
  let ?x = "rounded (seconds_count (now - last_refill b) * REFILL_RATE)"
  have "1 \<le> tokens b + ?x"
  proof (cases "bucket_of hash ip ss")
    case None
    then have "tokens b = 1000" "last_refill b \<le> now" using assms(4) by (simp_all add: b_def mk_token_bucket_def MAX_TOKENS_def)
    then show ?thesis by (simp add: seconds_count_def REFILL_RATE_def MAX_TOKENS_def add_increasing2)
  next
    case (Some c)
    with last obtain m where "(ip, m, last_refill c) \<in> set qs" by blast
    with assms(5) have "61000000 \<le> now - last_refill c" by fastforce
    from gain_ge_1 [OF this] before Some show ?thesis by (simp add: b_def bucket_before_def bucket_ok_def)
  qed
  then have "1 \<le> rounded (tokens b + ?x)" using rounded_mono [of 1 "tokens b + ?x"] by simp
  then have "ok" using t by (auto simp: take_token_def refill_def Let_def MAX_TOKENS_def split: if_splits)
  with a show ?thesis by simp
qed

theorem rate_limit_bound_witness:
  "allowed ''10.0.0.1'' (fst (run_limiter (\<lambda>_. 0) [(''10.0.0.1'', 0, 0), (''10.0.0.2'', 5, 6), (''10.0.0.1'', 7, 8)] mk_rate_limiter)) \<le> 1001"
proof -
  let ?qs = "[(''10.0.0.1'', 0, 0), (''10.0.0.2'', 5, 6), (''10.0.0.1'', 7, 8)] :: (string \<times> int \<times> int) list"
  let ?x = "run_limiter (\<lambda>_. 0) ?qs mk_rate_limiter"
  have "of_nat (allowed ''10.0.0.1'' (fst ?x)) \<le> 1000 + of_int (8 - 0) / 10 ^ 9 * (1000 / 60) * (1 + 1 / 2 ^ 50) +
      of_nat (asked ''10.0.0.1'' ?qs) / (2 ^ 41 :: rat)"
    by (rule rate_limit_bound [of 0 8 ?qs "\<lambda>_. 0" _ "snd ?x"]) (simp, metis prod.collapse)
  then have "of_nat (allowed ''10.0.0.1'' (fst ?x)) < (1001 :: rat)" by (simp add: asked_def)
  then show ?thesis by (metis less_imp_le of_nat_less_iff of_nat_numeral)
qed

theorem rate_limit_admits_witness:
  "fst (allow_limited (\<lambda>_. 0) 61000000 61000000 ''10.0.0.1''
     (snd (run_limiter (\<lambda>_. 0) [(''10.0.0.1'', 0, 0), (''10.0.0.2'', 5, 6)] mk_rate_limiter)))"
proof -
  let ?qs = "[(''10.0.0.1'', 0, 0), (''10.0.0.2'', 5, 6)] :: (string \<times> int \<times> int) list"
  let ?x = "run_limiter (\<lambda>_. 0) ?qs mk_rate_limiter"
  show ?thesis by (rule rate_limit_admits [of 0 6 ?qs "\<lambda>_. 0" "fst ?x"]) simp_all
qed

end
