(* ===== verification/KV_Pubsub.thy ===== *)
theory KV_Pubsub
  imports KV_Worker_Pool
begin

text \<open>
  pubsub_broker.h and pubsub_broker.cpp: the publish/subscribe broker, a map from channel names to sets
  of subscriber sockets.  No other part of the program creates one.  The theorems show that it
  implements a relation between channels and sockets, never keeps an empty channel, sends a message
  to exactly the subscribers, and frames messages so that any content can be read back.
\<close>

section \<open>PubSubBroker\<close>

text \<open>
  The map is an association list with distinct keys; an \<^verbatim>\<open>unordered_set\<close> of sockets is a list without
  repetition, in some order.
\<close>

type_synonym broker = "(string \<times> socket list) list"

definition subscribe :: "string \<Rightarrow> socket \<Rightarrow> broker \<Rightarrow> broker" where
  "subscribe channel client b =
     (let subs = (case map_of b channel of None \<Rightarrow> [] | Some s \<Rightarrow> s)
      in AList.update channel (List.insert client subs) b)"

definition unsubscribe :: "string \<Rightarrow> socket \<Rightarrow> broker \<Rightarrow> broker" where
  "unsubscribe channel client b =
     (case map_of b channel of
        None \<Rightarrow> b
      | Some subs \<Rightarrow>
          let subs' = removeAll client subs in
          if subs' = [] then AList.delete channel b else AList.update channel subs' b)"

fun unsubscribe_all :: "socket \<Rightarrow> broker \<Rightarrow> broker" where
  "unsubscribe_all client [] = []"
| "unsubscribe_all client ((channel, subs) # b) =
     (let subs' = removeAll client subs in
      if subs' = [] then unsubscribe_all client b else (channel, subs') # unsubscribe_all client b)"

definition format_message :: "string \<Rightarrow> string \<Rightarrow> string" where
  "format_message channel message =
     ''*3'' @ crlf @ ''$7'' @ crlf @ ''message'' @ crlf @ ''$'' @ to_string (int (length channel)) @ crlf @
     channel @ crlf @ ''$'' @ to_string (int (length message)) @ crlf @ message @ crlf"

text \<open>
  \<open>sends\<close> tells for which sockets \<^verbatim>\<open>send\<close> does not return \<^verbatim>\<open>SOCKET_ERROR\<close>; the result is the number
  delivered and what was handed to \<^verbatim>\<open>send\<close> for which socket.
\<close>

fun publish_loop :: "(socket \<Rightarrow> bool) \<Rightarrow> string \<Rightarrow> socket list \<Rightarrow> size_t \<Rightarrow> size_t \<times> (socket \<times> string) list" where
  "publish_loop sends msg [] n = (n, [])"
| "publish_loop sends msg (s # ss) n =
     (let (n', out) = publish_loop sends msg ss (if sends s then n + 1 else n)
      in (n', (s, msg) # out))"

definition publish :: "(socket \<Rightarrow> bool) \<Rightarrow> string \<Rightarrow> string \<Rightarrow> broker \<Rightarrow> size_t \<times> (socket \<times> string) list" where
  "publish sends channel message b =
     (case map_of b channel of
        None \<Rightarrow> (0, [])
      | Some subs \<Rightarrow> publish_loop sends (format_message channel message) subs 0)"

definition list_channels :: "broker \<Rightarrow> string list" where
  "list_channels b = map fst b"

definition subscriber_count :: "string \<Rightarrow> broker \<Rightarrow> size_t" where
  "subscriber_count channel b =
     (case map_of b channel of None \<Rightarrow> 0 | Some subs \<Rightarrow> word_of_nat (length subs))"

section \<open>The relation of subscriptions\<close>

definition subscriptions :: "broker \<Rightarrow> (string \<times> socket) set" where
  "subscriptions b = {(c, s). \<exists>subs. map_of b c = Some subs \<and> s \<in> set subs}"

definition broker_wf :: "broker \<Rightarrow> bool" where
  "broker_wf b \<longleftrightarrow> distinct_keys b \<and> (\<forall>c subs. map_of b c = Some subs \<longrightarrow> subs \<noteq> [] \<and> distinct subs)"

datatype broker_op = Subscribe string socket | Unsubscribe string socket | Unsubscribe_all socket

fun run_op :: "broker_op \<Rightarrow> broker \<Rightarrow> broker" where
  "run_op (Subscribe c s) b = subscribe c s b"
| "run_op (Unsubscribe c s) b = unsubscribe c s b"
| "run_op (Unsubscribe_all s) b = unsubscribe_all s b"

fun spec_op :: "broker_op \<Rightarrow> (string \<times> socket) set \<Rightarrow> (string \<times> socket) set" where
  "spec_op (Subscribe c s) R = insert (c, s) R"
| "spec_op (Unsubscribe c s) R = R - {(c, s)}"
| "spec_op (Unsubscribe_all s) R = {x \<in> R. snd x \<noteq> s}"

lemma insert_list_simps: "List.insert x xs \<noteq> []" "distinct xs \<Longrightarrow> distinct (List.insert x xs)"
  by (cases xs; simp add: List.insert_def)+

lemma removeAll_Nil_iff: "removeAll x xs = [] \<longleftrightarrow> set xs \<subseteq> {x}"
  by (induction xs) auto

lemma unsubscribe_all_keys: "c \<in> fst ` set (unsubscribe_all s b) \<Longrightarrow> c \<in> fst ` set b"
proof (induction b)
  case (Cons cs b)
  then show ?case by (cases cs) (auto simp: Let_def split: if_splits)
qed simp

lemma distinct_unsubscribe_all: "distinct_keys b \<Longrightarrow> distinct_keys (unsubscribe_all s b)"
proof (induction b)
  case (Cons cs b)
  then show ?case using unsubscribe_all_keys [of "fst cs" s b] by (cases cs) (auto simp: Let_def)
qed simp

lemma map_of_unsubscribe_all:
  "distinct_keys b \<Longrightarrow> map_of (unsubscribe_all s b) c =
     Option.bind (map_of b c) (\<lambda>subs. if removeAll s subs = [] then None else Some (removeAll s subs))"
proof (induction b)
  case (Cons cs b)
  obtain channel subs where cs: "cs = (channel, subs)" by (cases cs)
  with Cons.prems have "channel \<notin> fst ` set (unsubscribe_all s b)" using unsubscribe_all_keys [of channel s b] by auto
  then have "map_of (unsubscribe_all s b) channel = None" by (simp add: map_of_eq_None_iff)
  with Cons cs show ?case by (auto simp: Let_def)
qed simp

lemma run_op_wf: "broker_wf b \<Longrightarrow> broker_wf (run_op x b)"
  by (cases x)
    (auto simp: broker_wf_def subscribe_def unsubscribe_def Let_def amap.invar_insert_or_assign amap.invar_erase
      insert_list_simps distinct_unsubscribe_all map_of_unsubscribe_all distinct_removeAll
      split: option.splits if_splits bind_splits simp del: map_of_eq_Some_iff)

lemma run_op_spec: "broker_wf b \<Longrightarrow> subscriptions (run_op x b) = spec_op x (subscriptions b)"
  by (cases x)
    (auto simp: broker_wf_def subscriptions_def subscribe_def unsubscribe_def Let_def map_of_unsubscribe_all
      removeAll_Nil_iff split: option.splits if_splits bind_splits simp del: map_of_eq_Some_iff)

lemma publish_loop_out: "snd (publish_loop sends msg ss n) = map (\<lambda>s. (s, msg)) ss"
  by (induction sends msg ss n rule: publish_loop.induct) (auto split: prod.splits)

lemma publish_loop_count: "fst (publish_loop sends msg ss n) = n + word_of_nat (length (filter sends ss))"
  by (induction sends msg ss n rule: publish_loop.induct) (auto split: prod.splits)

section \<open>Reading a message back\<close>

text \<open>
  A bulk string of the wire format: a dollar sign, the length in decimal, CR LF, that many bytes, CR LF.
\<close>

definition read_bulk :: "string \<Rightarrow> (string \<times> string) option" where
  "read_bulk s =
     (case s of
        [] \<Rightarrow> None
      | c # s1 \<Rightarrow>
          let digits = takeWhile is_digit s1; s2 = dropWhile is_digit s1; n = digits_value digits; s3 = drop 2 s2 in
          if c \<noteq> CHR ''$'' \<or> digits = [] \<or> take 2 s2 \<noteq> crlf \<or> length s3 < n + 2 \<or> take 2 (drop n s3) \<noteq> crlf then None
          else Some (take n s3, drop (n + 2) s3))"

definition read_message :: "string \<Rightarrow> (string \<times> string) option" where
  "read_message s =
     (if take 4 s \<noteq> ''*3'' @ crlf then None
      else case read_bulk (drop 4 s) of
        Some (kind, s1) \<Rightarrow>
          (case read_bulk s1 of
             Some (channel, s2) \<Rightarrow>
               (case read_bulk s2 of
                  Some (message, []) \<Rightarrow> if kind = ''message'' then Some (channel, message) else None
                | _ \<Rightarrow> None)
           | None \<Rightarrow> None)
      | None \<Rightarrow> None)"

lemma crlf_not_digit: "\<not> is_digit CHR 0x0D" by (simp add: is_digit_def)

lemma read_bulk_bulk: "read_bulk (''$'' @ to_string (int (length v)) @ crlf @ v @ crlf @ rest) = Some (v, rest)"
proof -
  have n: "to_string (int (length v)) = to_string_nat (length v)" by (simp add: to_string_def)
  have digits: "\<forall>c \<in> set (to_string_nat k). is_digit c" for k
    using to_string_nat_chars digit_char_props(1) by blast
  then have "takeWhile is_digit (to_string_nat (length v) @ crlf @ x) = to_string_nat (length v)"
    and "dropWhile is_digit (to_string_nat (length v) @ crlf @ x) = crlf @ x" for x
    using crlf_not_digit by (auto simp: takeWhile_append dropWhile_append3 crlf_def takeWhile_eq_all_conv)
  then show ?thesis by (simp add: read_bulk_def n digits_value_to_string_nat crlf_def Let_def)
qed

section \<open>Properties\<close>

text \<open>
  C30.  The broker implements a relation between channels and sockets: after any sequence of operations
  its subscriptions are those of the abstract operations, and no channel is kept without a subscriber.
\<close>

theorem broker_refines_relation:
  "subscriptions (fold run_op xs []) = fold spec_op xs {} \<and>
   list_channels (fold run_op xs []) = map fst (fold run_op xs []) \<and>
   set (list_channels (fold run_op xs [])) = fst ` fold spec_op xs {}"
proof -
  have "broker_wf (fold run_op xs b) \<and> subscriptions (fold run_op xs b) = fold spec_op xs (subscriptions b)"
    if "broker_wf b" for b
    using that by (induction xs arbitrary: b) (auto simp: run_op_wf run_op_spec)
  moreover have "broker_wf []" "subscriptions [] = {}"
    by (simp_all add: broker_wf_def subscriptions_def)
  ultimately have b: "broker_wf (fold run_op xs [])" "subscriptions (fold run_op xs []) = fold spec_op xs {}"
    by metis+
  have "fst ` subscriptions b = fst ` set b" if wf: "broker_wf b" for b
  proof -
    have "c \<in> fst ` set b \<longleftrightarrow> (\<exists>subs. map_of b c = Some subs)" for c
      by (metis domD domI dom_map_of_conv_image_fst)
    moreover have "(\<exists>subs. map_of b c = Some subs) \<longleftrightarrow> (\<exists>s. (c, s) \<in> subscriptions b)" for c
    proof
      assume "\<exists>subs. map_of b c = Some subs"
      then obtain subs where subs: "map_of b c = Some subs" ..
      with wf have "subs \<noteq> []" by (simp add: broker_wf_def del: map_of_eq_Some_iff)
      then have "hd subs \<in> set subs" by simp
      with subs show "\<exists>s. (c, s) \<in> subscriptions b" unfolding subscriptions_def by blast
    qed (auto simp: subscriptions_def simp del: map_of_eq_Some_iff)
    ultimately have "c \<in> fst ` set b \<longleftrightarrow> c \<in> fst ` subscriptions b" for c by (force simp: image_iff)
    then show ?thesis by blast
  qed
  from this [OF b(1)] b(2) show ?thesis by (simp add: list_channels_def)
qed

text \<open>
  Publishing hands one framed copy of the message to \<^verbatim>\<open>send\<close> for each subscriber of the channel, no
  socket twice, and nothing to anyone else; it returns the number of sends that did not fail.
\<close>

theorem publish_reaches_subscribers:
  assumes "broker_wf b" and "publish sends channel message b = (n, out)"
  shows "set out = {(s, format_message channel message) | s. (channel, s) \<in> subscriptions b} \<and>
    distinct (map fst out) \<and> n = word_of_nat (length (filter (\<lambda>(s, m). sends s) out)) \<and>
    subscriber_count channel b = word_of_nat (length out)"
proof (cases "map_of b channel")
  case None
  with assms(2) show ?thesis by (auto simp: publish_def subscriptions_def subscriber_count_def simp del: map_of_eq_None_iff)
next
  case (Some subs)
  let ?msg = "format_message channel message"
  have "out = map (\<lambda>s. (s, ?msg)) subs" "n = word_of_nat (length (filter sends subs))"
    using assms(2) Some publish_loop_out [of sends ?msg subs 0] publish_loop_count [of sends ?msg subs 0]
    by (simp_all add: publish_def)
  moreover have "distinct subs" using assms(1) Some by (simp add: broker_wf_def del: map_of_eq_Some_iff)
  ultimately show ?thesis using Some
    by (auto simp: subscriptions_def subscriber_count_def comp_def filter_map simp del: map_of_eq_Some_iff)
qed

theorem publish_reaches_subscribers_witness:
  "snd (publish (\<lambda>s. s = 4) ''news'' ''hi'' [(''news'', [3, 4])])
     = [(3, format_message ''news'' ''hi''), (4, format_message ''news'' ''hi'')] \<and>
   fst (publish (\<lambda>s. s = 4) ''news'' ''hi'' [(''news'', [3, 4])]) = 1"
proof -
  let ?p = "publish (\<lambda>s. s = 4) ''news'' ''hi'' [(''news'', [3, 4])]"
  have "broker_wf [(''news'', [3, 4])]" by (simp add: broker_wf_def)
  moreover have "?p = (fst ?p, snd ?p)" by simp
  ultimately have "fst ?p = word_of_nat (length (filter (\<lambda>(s, m). s = 4) (snd ?p)))"
    by (rule publish_reaches_subscribers [THEN conjunct2, THEN conjunct2, THEN conjunct1])
  moreover have "snd ?p = [(3, format_message ''news'' ''hi''), (4, format_message ''news'' ''hi'')]"
    by (simp add: publish_def publish_loop_out)
  ultimately show ?thesis by simp
qed

text \<open>
  The frame is unambiguous: a reader of the wire format gets back the channel and the message,
  whatever bytes they contain, line breaks included.
\<close>

theorem message_roundtrip: "read_message (format_message channel message) = Some (channel, message)"
proof -
  define bulk_text where "bulk_text v = ''$'' @ to_string (int (length v)) @ crlf @ v @ crlf" for v
  have b: "read_bulk (bulk_text v @ rest) = Some (v, rest)" for v rest
    using read_bulk_bulk [of v rest] by (simp add: bulk_text_def)
  have seven: "to_string (int (length ''message'')) = ''7''"
    by (simp add: to_string_def to_string_nat.simps digit_char_def char_of_def bit_Suc_0_iff)
  have "''$7'' @ crlf @ ''message'' @ crlf = bulk_text ''message''" unfolding bulk_text_def seven by simp
  then have k: "''$7'' @ crlf @ ''message'' @ crlf @ x = bulk_text ''message'' @ x" for x
    by (metis append_assoc)
  have "format_message channel message
      = (''*3'' @ crlf) @ bulk_text ''message'' @ bulk_text channel @ bulk_text message @ []"
    unfolding format_message_def k by (simp add: bulk_text_def)
  moreover have "take 4 ((''*3'' @ crlf) @ x) = ''*3'' @ crlf" "drop 4 ((''*3'' @ crlf) @ x) = x" for x
    by (simp_all add: crlf_def)
  ultimately show ?thesis by (simp only: read_message_def b option.case prod.case list.case refl if_True if_False not_True_eq_False)
qed

end
